(* ===== verification/Golem_Prelude.thy ===== *)
theory Golem_Prelude
  imports Main "HOL-Library.Word"
begin

text \<open>
  Shared vocabulary of the development: the machine integers of the Rust sources, the
  \<open>Result\<close> type, the checked and bit-level operations of \<open>core\<close> that the kernel calls,
  and the facts about them (and about lists) that several components need.

  A Rust value of type \<open>u8\<close>, \<open>u16\<close>, \<open>u32\<close> or \<open>u64\<close> is a word of that width. A
  \<open>usize\<close> that is an address is a 64-bit word; a \<open>usize\<close> that only ever indexes or counts the
  elements of a bounded collection is a \<open>nat\<close>, and the component's invariant bounds it.
  \<open>Result<T, E>\<close> is the sum type \<open>'e + 'a\<close>, with \<open>Ok\<close> and \<open>Err\<close> as names for its
  injections.
\<close>

unbundle bit_operations_syntax

section \<open>Types\<close>

type_synonym u8 = "8 word"
type_synonym u16 = "16 word"
type_synonym u32 = "32 word"
type_synonym u64 = "64 word"

abbreviation Ok :: "'a \<Rightarrow> 'e + 'a" where
  "Ok \<equiv> Inr"

abbreviation Err :: "'e \<Rightarrow> 'e + 'a" where
  "Err \<equiv> Inl"

definition u64_MAX :: u64 where
  "u64_MAX = - 1"

named_theorems kconst \<open>the numeric values of the constants of the kernel\<close>

text \<open>
  The \<open>?\<close> operator on a fallible operation that also returns the state it leaves behind: an
  error is passed on together with that state.
\<close>

definition then_try ::
  "('e + 'a) \<times> 's \<Rightarrow> ('a \<Rightarrow> 's \<Rightarrow> ('e + 'b) \<times> 's) \<Rightarrow> ('e + 'b) \<times> 's" where
  "then_try r k = (case r of (Inl e, s) \<Rightarrow> (Err e, s) | (Inr x, s) \<Rightarrow> k x s)"

lemma then_try_simps [simp]:
  "then_try (Inl e, s) k = (Inl e, s)" "then_try (Inr x, s) k = k x s"
  by (simp_all add: then_try_def)

lemma then_try_assoc: "then_try (then_try m k) h = then_try m (\<lambda>x s. then_try (k x s) h)"
  by (auto simp: then_try_def split: prod.splits sum.splits)

section \<open>Operations of core on integers\<close>

definition checked_add :: "'a::len word \<Rightarrow> 'a word \<Rightarrow> 'a word option" where
  "checked_add x y = (if unat x + unat y < 2 ^ LENGTH('a) then Some (x + y) else None)"

definition trailing_zeros :: "'a::len word \<Rightarrow> nat" where
  "trailing_zeros w = length (takeWhile (\<lambda>n. \<not> bit w n) [0..<LENGTH('a)])"

lemma unat_less_power: "unat w < 2 ^ LENGTH('a)" for w :: "'a::len word"
  by (rule unsigned_less)

lemma word_bits_eq_iff: "v = w \<longleftrightarrow> (\<forall>n < LENGTH('a). bit v n = bit w n)" for v w :: "'a::len word"
  by (auto intro: bit_word_eqI)

lemma unat_two_power: "n < LENGTH('a) \<Longrightarrow> unat (2 ^ n :: 'a::len word) = 2 ^ n"
  using unat_of_nat [of "2 ^ n", where 'a = 'a] by simp

lemma unat_max: "unat (max x y) = max (unat x) (unat y)" for x y :: "'a::len word"
  by (simp add: max_def word_le_nat_alt)

lemma checked_add_Some:
  "checked_add x y = Some z \<longleftrightarrow> z = x + y \<and> unat z = unat x + unat y"
  for x :: "'a::len word"
proof (cases "unat x + unat y < 2 ^ LENGTH('a)")
  case True
  then show ?thesis by (auto simp: checked_add_def unat_add_lem)
next
  case False
  then have "unat (x + y) \<noteq> unat x + unat y"
    using unat_less_power [of "x + y"] by linarith
  with False show ?thesis by (auto simp: checked_add_def)
qed

lemma checked_add_None:
  "checked_add x y = None \<longleftrightarrow> 2 ^ LENGTH('a) \<le> unat x + unat y"
  for x :: "'a::len word"
  by (auto simp: checked_add_def)

lemma u64_MAX_bits [simp]: "bit u64_MAX n \<longleftrightarrow> n < 64"
  by (simp add: u64_MAX_def)

lemma ne_u64_MAX_iff: "w \<noteq> u64_MAX \<longleftrightarrow> (\<exists>n < 64. \<not> bit w n)"
  by (auto simp: word_bits_eq_iff)

lemma takeWhile_upt_length:
  assumes "l < n" "\<not> P l" "\<And>j. j < l \<Longrightarrow> P j"
  shows "length (takeWhile P [0..<n]) = l"
proof -
  have "takeWhile P [0..<n] = take l [0..<n]"
    using assms by (intro takeWhile_eq_take_P_nth) simp_all
  then show ?thesis using assms(1) by simp
qed

lemma trailing_zeros_props:
  fixes w :: "'a::len word"
  assumes "bit w k"
  shows "trailing_zeros w < LENGTH('a)" and "bit w (trailing_zeros w)"
    and "trailing_zeros w \<le> k"
proof -
  obtain l where l: "bit w l" "\<And>j. j < l \<Longrightarrow> \<not> bit w j"
    using assms by (metis LeastI not_less_Least)
  have eq: "trailing_zeros w = l"
    unfolding trailing_zeros_def
    by (rule takeWhile_upt_length) (use l bit_imp_le_length [OF l(1)] in simp_all)
  show "bit w (trailing_zeros w)" unfolding eq by (rule l(1))
  then show "trailing_zeros w < LENGTH('a)" by (rule bit_imp_le_length)
  show "trailing_zeros w \<le> k" unfolding eq using l(2) [of k] assms by (metis not_le)
qed

section \<open>Single bits of a word\<close>

lemma bit_two_power [simp]:
  "bit (2 ^ n :: 'a::len word) k \<longleftrightarrow> k = n \<and> n < LENGTH('a)"
  by (auto simp: bit_exp_iff)

lemma and_two_power_eq_0_iff:
  "w AND 2 ^ n = 0 \<longleftrightarrow> \<not> bit w n" for w :: "'a::len word"
  by (auto simp: word_bits_eq_iff bit_and_iff dest: bit_imp_le_length)

lemma and_two_power_eq_iff:
  fixes w :: "'a::len word"
  assumes "n < LENGTH('a)"
  shows "w AND 2 ^ n = 2 ^ n \<longleftrightarrow> bit w n"
proof
  assume "w AND 2 ^ n = 2 ^ n"
  then have "bit (w AND 2 ^ n) n" using assms by simp
  then show "bit w n" by (simp add: bit_and_iff)
next
  assume "bit w n"
  then show "w AND 2 ^ n = 2 ^ n" by (intro bit_word_eqI) (auto simp: bit_and_iff)
qed

lemma bit_set_iff:
  "n < LENGTH('a) \<Longrightarrow> bit (w OR 2 ^ n) k \<longleftrightarrow> k = n \<or> bit w k" for w :: "'a::len word"
  by (auto simp: bit_or_iff)

lemma bit_clear_iff:
  "bit (w AND NOT (2 ^ n)) k \<longleftrightarrow> k \<noteq> n \<and> bit w k" for w :: "'a::len word"
  by (auto simp: bit_and_iff bit_not_iff dest: bit_imp_le_length)

section \<open>Alignment to a power of two\<close>

lemma unat_and_mask:
  "unat (x AND mask n) = unat x mod 2 ^ n" for x :: "'a::len word"
  by (simp add: unsigned_take_bit_eq flip: take_bit_eq_mask) (simp add: take_bit_eq_mod)

lemma unat_and_not_mask:
  "unat (x AND NOT (mask n)) = unat x div 2 ^ n * 2 ^ n" for x :: "'a::len word"
proof -
  have "x AND NOT (mask n) = x AND NOT (x AND mask n)"
    by (rule bit_word_eqI) (auto simp: bit_simps)
  also have "\<dots> = x - (x AND mask n)"
    by (rule disjunctive_diff [symmetric]) (auto simp: bit_simps)
  finally have "unat (x AND NOT (mask n)) = unat x - unat (x AND mask n)"
    by (simp add: unat_sub word_and_le2)
  then show ?thesis by (simp add: unat_and_mask minus_mod_eq_div_mult)
qed

section \<open>Lists\<close>

lemma nth_update_if:
  "i < length xs \<Longrightarrow> xs[i := v] ! j = (if j = i then v else xs ! j)"
  by auto

end
