(* ===== verification/Memory_Common.thy ===== *)
theory Memory_Common
  imports Golem_Prelude
begin

text \<open>
  The types and the alignment helpers of \<open>memory/mod.rs\<close> that its submodules (frame
  allocator, page tables, heap) share: the page size, the regions of the boot memory map, the
  error type of the bring-up and \<open>align_up\<close>/\<open>align_down\<close>. The bring-up sequence itself
  is in the theory that puts the three submodules together.
\<close>

definition PAGE_SIZE :: nat where
  [kconst]: "PAGE_SIZE = 4096"

definition HEAP_START :: u64 where
  [kconst]: "HEAP_START = 0xFFFFC00000000000"

definition HEAP_SIZE :: nat where
  [kconst]: "HEAP_SIZE = 8 * 1024 * 1024"

datatype MemoryRegionKind = Usable | Reserved | KernelImage | Bootloader

record MemoryRegion =
  region_start :: u64
  region_end :: u64
  region_kind :: MemoryRegionKind

datatype MemoryInitError =
    NoUsableRegions
  | BitmapTooSmall
  | HeapMappingFailed
  | AlreadyInitialized
  | PagingNotReady

definition align_up :: "u64 \<Rightarrow> u64 \<Rightarrow> u64" where
  "align_up addr align = (addr + align - 1) AND NOT (align - 1)"

definition align_down :: "u64 \<Rightarrow> u64 \<Rightarrow> u64" where
  "align_down addr align = addr AND NOT (align - 1)"

subsection \<open>What the alignment helpers compute\<close>

lemma pow2_minus_1: "(2 ^ n - 1 :: 'a::len word) = mask n"
  by (simp add: mask_eq_exp_minus_1)

lemma unat_align_down:
  "unat (align_down addr (2 ^ n)) = unat addr div 2 ^ n * 2 ^ n"
  by (simp add: align_down_def pow2_minus_1 unat_and_not_mask)

lemma unat_align_up:
  assumes "n < 64" "unat addr + (2 ^ n - 1) < 2 ^ 64"
  shows "unat (align_up addr (2 ^ n)) = (unat addr + (2 ^ n - 1)) div 2 ^ n * 2 ^ n"
proof -
  have "unat (2 ^ n - 1 :: u64) = 2 ^ n - 1"
    using assms(1) by (simp add: unat_minus_one unat_two_power)
  then have "unat (addr + (2 ^ n - 1)) = unat addr + (2 ^ n - 1)"
    using assms(2) by (simp add: unat_word_ariths)
  then show ?thesis
    by (simp add: align_up_def add_diff_eq [symmetric] pow2_minus_1 unat_and_not_mask)
qed

lemma div_mult_ceil:
  fixes a d :: nat
  assumes "0 < d"
  shows "a \<le> (a + (d - 1)) div d * d" "(a + (d - 1)) div d * d < a + d"
    "d dvd m \<Longrightarrow> (a + (d - 1)) div d * d \<le> m \<longleftrightarrow> a \<le> m"
proof -
  let ?q = "(a + (d - 1)) div d"
  have lo: "a + (d - 1) < (?q + 1) * d"
    using assms by (metis add.commute dividend_less_div_times mult.commute mult_Suc plus_1_eq_Suc)
  then show up: "a \<le> ?q * d" by (simp add: algebra_simps)
  have "?q * d \<le> a + (d - 1)" by simp
  then show "?q * d < a + d" using assms by linarith
  assume "d dvd m"
  then obtain k where m: "m = k * d" by (metis dvd_div_mult_self)
  show "?q * d \<le> m \<longleftrightarrow> a \<le> m"
  proof
    assume "a \<le> m"
    then have "?q * d < (k + 1) * d"
      using \<open>?q * d < a + d\<close> m by (simp add: algebra_simps)
    then have "?q \<le> k" unfolding mult_less_cancel2 by linarith
    then show "?q * d \<le> m" unfolding m by (intro mult_right_mono) simp_all
  qed (use up in simp)
qed

end
