(* ===== verification/Frame_Allocator.thy ===== *)
theory Frame_Allocator
  imports Memory_Common
begin

text \<open>
  The physical frame allocator, \<open>memory/allocator.rs\<close>: a bitmap with one bit per 4 KiB frame
  (1 = used), a rotating first-fit search over its 64-bit words, and the routine that clears the
  bits of the usable regions of the boot memory map.

  The counters and word indices are \<open>usize\<close> in the code and \<open>nat\<close> here; the invariant
  \<open>alloc_inv\<close> bounds them, and shows in particular that the two decrements of
  \<open>free_frames\<close> are never taken at zero. The lemmas of the theory describe every operation by
  its effect on \<open>free_set\<close>, the set of the numbers of the free frames; the locale
  \<open>frame_pool\<close> is the contract that the page-table code relies on.
\<close>

section \<open>Constants and the frame type\<close>

definition MAX_PHYSICAL_BYTES :: u64 where
  [kconst]: "MAX_PHYSICAL_BYTES = 32 * 1024 * 1024 * 1024"

definition MAX_FRAMES :: nat where
  [kconst]: "MAX_FRAMES = unat (MAX_PHYSICAL_BYTES div of_nat PAGE_SIZE)"

definition BITMAP_WORDS :: nat where
  [kconst]: "BITMAP_WORDS = MAX_FRAMES div 64"

datatype Frame = Frame u64

definition Frame_SIZE :: u64 where
  [kconst]: "Frame_SIZE = of_nat PAGE_SIZE"

definition containing_address :: "u64 \<Rightarrow> Frame" where
  "containing_address addr = Frame (addr AND NOT (Frame_SIZE - 1))"

primrec start_address :: "Frame \<Rightarrow> u64" where
  "start_address (Frame addr) = addr"

primrec number :: "Frame \<Rightarrow> u64" where
  "number (Frame addr) = addr div Frame_SIZE"

section \<open>The bitmap allocator\<close>

record BitmapFrameAllocator =
  bitmap :: "u64 list"
  next_search :: nat
  total_frames :: nat
  free_frames :: nat

definition BitmapFrameAllocator_new :: BitmapFrameAllocator where
  "BitmapFrameAllocator_new =
    \<lparr>bitmap = replicate BITMAP_WORDS u64_MAX, next_search = 0, total_frames = 0, free_frames = 0\<rparr>"

definition mark_free :: "Frame \<Rightarrow> BitmapFrameAllocator \<Rightarrow> BitmapFrameAllocator" where
  "mark_free frame a =
    (let i = unat (number frame) in
     if MAX_FRAMES \<le> i then a
     else
       let wd = i div 64; b = i mod 64 in
       if bitmap a ! wd AND push_bit b 1 \<noteq> 0
       then a\<lparr>bitmap := (bitmap a)[wd := bitmap a ! wd AND NOT (push_bit b 1)],
              free_frames := free_frames a + 1\<rparr>
       else a)"

definition mark_used :: "Frame \<Rightarrow> BitmapFrameAllocator \<Rightarrow> BitmapFrameAllocator" where
  "mark_used frame a =
    (let i = unat (number frame) in
     if MAX_FRAMES \<le> i then a
     else
       let wd = i div 64; b = i mod 64 in
       if bitmap a ! wd AND push_bit b 1 = 0
       then a\<lparr>bitmap := (bitmap a)[wd := bitmap a ! wd OR push_bit b 1],
              free_frames := free_frames a - 1\<rparr>
       else a)"

function allocate_scan ::
  "nat \<Rightarrow> BitmapFrameAllocator \<Rightarrow> Frame option \<times> BitmapFrameAllocator" where
  "allocate_scan offset a =
    (if offset < BITMAP_WORDS then
       let i = (next_search a + offset) mod BITMAP_WORDS; wd = bitmap a ! i in
       if wd \<noteq> u64_MAX then
         let b = trailing_zeros (NOT wd) in
         (Some (Frame (of_nat (i * 64 + b) * Frame_SIZE)),
          a\<lparr>bitmap := (bitmap a)[i := wd OR push_bit b 1],
            free_frames := free_frames a - 1,
            next_search := i\<rparr>)
       else allocate_scan (offset + 1) a
     else (None, a))"
  by pat_completeness auto
termination by (relation "measure (\<lambda>(offset, a). BITMAP_WORDS - offset)") auto

declare allocate_scan.simps [simp del]

definition allocate_frame :: "BitmapFrameAllocator \<Rightarrow> Frame option \<times> BitmapFrameAllocator" where
  "allocate_frame a = (if free_frames a = 0 then (None, a) else allocate_scan 0 a)"

definition deallocate_frame :: "Frame \<Rightarrow> BitmapFrameAllocator \<Rightarrow> BitmapFrameAllocator" where
  "deallocate_frame frame a =
    (let a' = mark_free frame a; wd = unat (number frame) div 64 in
     if wd < BITMAP_WORDS then a'\<lparr>next_search := wd\<rparr> else a')"

section \<open>Populating the bitmap\<close>

record frame_statics =
  FRAME_ALLOCATOR :: BitmapFrameAllocator
  INITIALIZED :: bool

definition frame_statics_boot :: frame_statics where
  "frame_statics_boot = \<lparr>FRAME_ALLOCATOR = BitmapFrameAllocator_new, INITIALIZED = False\<rparr>"

definition init_clear_bit :: "nat \<Rightarrow> BitmapFrameAllocator \<Rightarrow> BitmapFrameAllocator" where
  "init_clear_bit idx a =
    (if bitmap a ! (idx div 64) AND push_bit (idx mod 64) 1 \<noteq> 0
     then a\<lparr>bitmap := (bitmap a)[idx div 64 := bitmap a ! (idx div 64) AND NOT (push_bit (idx mod 64) 1)],
            free_frames := free_frames a + 1,
            total_frames := total_frames a + 1\<rparr>
     else a)"

lemma number_lt_MAX_FRAMES_no_wrap:
  assumes "unat (number (Frame addr)) < MAX_FRAMES"
  shows "unat (addr + Frame_SIZE) = unat addr + 4096"
proof -
  have "unat addr div 4096 < 8388608"
    using assms by (simp add: kconst unat_div)
  then have "unat addr + 4096 < 2 ^ 64" by (simp add: div_less_iff_less_mult)
  then show ?thesis by (simp add: kconst unat_word_ariths)
qed

function init_frames ::
  "u64 \<Rightarrow> u64 \<Rightarrow> BitmapFrameAllocator \<Rightarrow> (MemoryInitError + unit) \<times> BitmapFrameAllocator" where
  "init_frames addr end_addr a =
    (if addr + Frame_SIZE \<le> end_addr then
       let idx = unat (number (Frame addr)) in
       if MAX_FRAMES \<le> idx then (Err BitmapTooSmall, a)
       else init_frames (addr + Frame_SIZE) end_addr (init_clear_bit idx a)
     else (Ok (), a))"
  by pat_completeness auto
termination
proof (relation "measure (\<lambda>(addr, _). 2 ^ 64 - unat addr)", simp, unfold in_measure, clarsimp)
  fix addr :: u64
  assume "\<not> MAX_FRAMES \<le> unat (addr div Frame_SIZE)"
  then show "18446744073709551616 - unat (addr + Frame_SIZE) < 18446744073709551616 - unat addr"
    using number_lt_MAX_FRAMES_no_wrap [of addr] unat_less_power [of "addr + Frame_SIZE"] by simp
qed

declare init_frames.simps [simp del]

fun init_regions ::
  "MemoryRegion list \<Rightarrow> bool \<Rightarrow> BitmapFrameAllocator \<Rightarrow>
    (MemoryInitError + bool) \<times> BitmapFrameAllocator" where
  "init_regions [] any_usable a = (Ok any_usable, a)"
| "init_regions (r # rs) any_usable a =
    (if region_kind r \<noteq> Usable then init_regions rs any_usable a
     else
       let start = align_up (region_start r) Frame_SIZE;
           end_addr = align_down (region_end r) Frame_SIZE in
       if end_addr \<le> start then init_regions rs any_usable a
       else
         case init_frames start end_addr a of
           (Inl e, a') \<Rightarrow> (Err e, a')
         | (Inr _, a') \<Rightarrow> init_regions rs True a')"

definition allocator_init ::
  "MemoryRegion list \<Rightarrow> frame_statics \<Rightarrow> (MemoryInitError + unit) \<times> frame_statics" where
  "allocator_init regions s =
    (if INITIALIZED s then (Err AlreadyInitialized, s)
     else
       let s1 = s\<lparr>INITIALIZED := True\<rparr> in
       case init_regions regions False (FRAME_ALLOCATOR s1) of
         (Inl e, a) \<Rightarrow> (Err e, s1\<lparr>FRAME_ALLOCATOR := a\<rparr>)
       | (Inr any_usable, a) \<Rightarrow>
           (if \<not> any_usable then Err NoUsableRegions else Ok (), s1\<lparr>FRAME_ALLOCATOR := a\<rparr>))"

definition alloc_frame :: "frame_statics \<Rightarrow> Frame option \<times> frame_statics" where
  "alloc_frame s =
    (let (r, a) = allocate_frame (FRAME_ALLOCATOR s) in (r, s\<lparr>FRAME_ALLOCATOR := a\<rparr>))"

definition dealloc_frame :: "Frame \<Rightarrow> frame_statics \<Rightarrow> frame_statics" where
  "dealloc_frame frame s = s\<lparr>FRAME_ALLOCATOR := deallocate_frame frame (FRAME_ALLOCATOR s)\<rparr>"

definition stats :: "frame_statics \<Rightarrow> nat \<times> nat" where
  "stats s = (total_frames (FRAME_ALLOCATOR s), free_frames (FRAME_ALLOCATOR s))"

section \<open>Free frames\<close>

text \<open>
  The abstraction of the bitmap: the numbers of the frames whose bit is clear.
\<close>

definition free_bits :: "u64 list \<Rightarrow> nat set" where
  "free_bits bm = {i. i < MAX_FRAMES \<and> \<not> bit (bm ! (i div 64)) (i mod 64)}"

abbreviation free_set :: "BitmapFrameAllocator \<Rightarrow> nat set" where
  "free_set a \<equiv> free_bits (bitmap a)"

abbreviation frame_index :: "Frame \<Rightarrow> nat" where
  "frame_index f \<equiv> unat (number f)"

definition alloc_inv :: "BitmapFrameAllocator \<Rightarrow> bool" where
  "alloc_inv a \<longleftrightarrow>
    length (bitmap a) = BITMAP_WORDS \<and> next_search a < BITMAP_WORDS \<and>
    free_frames a = card (free_set a)"

lemma BITMAP_WORDS_pos: "0 < BITMAP_WORDS"
  by (simp add: kconst)

lemma MAX_FRAMES_words: "MAX_FRAMES = BITMAP_WORDS * 64"
  by (simp add: kconst)

lemma unat_Frame_SIZE [simp]: "unat Frame_SIZE = 4096"
  by (simp add: kconst)

lemma Frame_SIZE_power: "Frame_SIZE = 2 ^ 12"
  by (simp add: kconst)

lemma unat_number [simp]: "unat (number f) = unat (start_address f) div 4096"
  by (cases f) (simp add: unat_div)

lemma unat_div_Frame_SIZE [simp]: "unat (addr div Frame_SIZE) = unat addr div 4096"
  by (simp add: unat_div)

lemma frame_word_less: "i < MAX_FRAMES \<Longrightarrow> i div 64 < BITMAP_WORDS"
  by (simp add: MAX_FRAMES_words div_less_iff_less_mult)

lemma finite_free_bits [simp]: "finite (free_bits bm)"
  by (simp add: free_bits_def)

lemma free_bits_set:
  assumes "i < MAX_FRAMES" "length bm = BITMAP_WORDS"
  shows "free_bits (bm[i div 64 := bm ! (i div 64) OR 2 ^ (i mod 64)]) = free_bits bm - {i}"
  using assms frame_word_less [of i]
  by (auto simp: free_bits_def nth_update_if bit_set_iff bit_or_iff split: if_splits)
     (metis div_mult_mod_eq)

lemma free_bits_clear:
  assumes "i < MAX_FRAMES" "length bm = BITMAP_WORDS"
  shows "free_bits (bm[i div 64 := bm ! (i div 64) AND NOT (2 ^ (i mod 64))]) = insert i (free_bits bm)"
  using assms frame_word_less [of i]
  by (auto simp: free_bits_def nth_update_if bit_clear_iff split: if_splits)
     (metis div_mult_mod_eq)

lemma free_bits_full: "free_bits (replicate BITMAP_WORDS u64_MAX) = {}"
  by (auto simp: free_bits_def frame_word_less)

section \<open>Effect of the operations on the free frames\<close>

lemma new_inv: "alloc_inv BitmapFrameAllocator_new"
  by (simp add: alloc_inv_def BitmapFrameAllocator_new_def free_bits_full BITMAP_WORDS_pos)

lemma new_free_set: "free_set BitmapFrameAllocator_new = {}"
  by (simp add: BitmapFrameAllocator_new_def free_bits_full)

lemma mark_free_spec:
  assumes "alloc_inv a"
  shows "alloc_inv (mark_free f a)"
    and "free_set (mark_free f a) =
      (if frame_index f < MAX_FRAMES then insert (frame_index f) (free_set a) else free_set a)"
    and "total_frames (mark_free f a) = total_frames a"
    and "next_search (mark_free f a) = next_search a"
proof -
  let ?i = "frame_index f"
  have bit: "?i \<in> free_set a \<longleftrightarrow> \<not> bit (bitmap a ! (?i div 64)) (?i mod 64)" if "?i < MAX_FRAMES"
    using that by (simp add: free_bits_def)
  show fs: "free_set (mark_free f a) =
      (if ?i < MAX_FRAMES then insert ?i (free_set a) else free_set a)"
    using assms bit
    by (auto simp: mark_free_def Let_def alloc_inv_def and_two_power_eq_0_iff free_bits_clear
        simp del: unat_number)
  show "alloc_inv (mark_free f a)"
    using assms bit fs
    by (auto simp: mark_free_def Let_def alloc_inv_def and_two_power_eq_0_iff
        simp del: unat_number split: if_splits)
qed (simp_all add: mark_free_def Let_def)

lemma mark_used_spec:
  assumes "alloc_inv a"
  shows "alloc_inv (mark_used f a)"
    and "free_set (mark_used f a) = free_set a - {frame_index f}"
    and "total_frames (mark_used f a) = total_frames a"
    and "next_search (mark_used f a) = next_search a"
proof -
  let ?i = "frame_index f"
  have bit: "?i \<in> free_set a \<longleftrightarrow> ?i < MAX_FRAMES \<and> \<not> bit (bitmap a ! (?i div 64)) (?i mod 64)"
    by (simp add: free_bits_def)
  show fs: "free_set (mark_used f a) = free_set a - {?i}"
    using assms bit
    by (auto simp: mark_used_def Let_def alloc_inv_def and_two_power_eq_0_iff free_bits_set
        simp del: unat_number split: if_splits)
  show "alloc_inv (mark_used f a)"
    using assms bit fs
    by (auto simp: mark_used_def Let_def alloc_inv_def and_two_power_eq_0_iff card_Diff_singleton
        simp del: unat_number split: if_splits)
qed (simp_all add: mark_used_def Let_def)

lemma deallocate_frame_spec:
  assumes "alloc_inv a"
  shows "alloc_inv (deallocate_frame f a)"
    and "free_set (deallocate_frame f a) =
      (if frame_index f < MAX_FRAMES then insert (frame_index f) (free_set a) else free_set a)"
    and "total_frames (deallocate_frame f a) = total_frames a"
  using mark_free_spec [OF assms, of f]
  by (auto simp: deallocate_frame_def Let_def alloc_inv_def simp del: unat_number)

abbreviation scan_word :: "BitmapFrameAllocator \<Rightarrow> nat \<Rightarrow> nat" where
  "scan_word a k \<equiv> (next_search a + k) mod BITMAP_WORDS"

definition take_bit_at :: "nat \<Rightarrow> BitmapFrameAllocator \<Rightarrow> BitmapFrameAllocator" where
  "take_bit_at i a =
    a\<lparr>bitmap := (bitmap a)[i div 64 := bitmap a ! (i div 64) OR 2 ^ (i mod 64)],
      free_frames := free_frames a - 1, next_search := i div 64\<rparr>"

lemma allocate_scan_cases:
  "(\<exists>k. offset \<le> k \<and> k < BITMAP_WORDS \<and> bitmap a ! scan_word a k \<noteq> u64_MAX \<and>
      (\<forall>j. offset \<le> j \<and> j < k \<longrightarrow> bitmap a ! scan_word a j = u64_MAX) \<and>
      (let i = scan_word a k * 64 + trailing_zeros (NOT (bitmap a ! scan_word a k)) in
       allocate_scan offset a = (Some (Frame (of_nat i * Frame_SIZE)), take_bit_at i a))) \<or>
   (\<forall>k. offset \<le> k \<and> k < BITMAP_WORDS \<longrightarrow> bitmap a ! scan_word a k = u64_MAX) \<and>
     allocate_scan offset a = (None, a)"
proof (induction offset a rule: allocate_scan.induct)
  case (1 offset a)
  let ?w = "bitmap a ! scan_word a offset"
  show ?case
  proof (cases "offset < BITMAP_WORDS \<and> ?w = u64_MAX")
    case True
    then have "allocate_scan offset a = allocate_scan (offset + 1) a"
      by (subst allocate_scan.simps) (simp add: Let_def)
    moreover have "(\<forall>j. offset \<le> j \<and> j < k \<longrightarrow> bitmap a ! scan_word a j = u64_MAX) \<longleftrightarrow>
        (\<forall>j. offset + 1 \<le> j \<and> j < k \<longrightarrow> bitmap a ! scan_word a j = u64_MAX)" for k
      using True by (metis Suc_eq_plus1 Suc_leD le_antisym not_less_eq_eq)
    ultimately show ?thesis
      using 1 True by (smt (verit, ccfv_threshold) Suc_eq_plus1 Suc_leD not_less_eq_eq le_antisym)
  next
    case False
    show ?thesis
    proof (cases "offset < BITMAP_WORDS")
      case True
      with False have ne: "?w \<noteq> u64_MAX" by simp
      then obtain n where "n < 64" "\<not> bit ?w n" by (auto simp: ne_u64_MAX_iff)
      then have "bit (NOT ?w) n" by (simp add: bit_not_iff)
      then have tz: "trailing_zeros (NOT ?w) < 64"
        using trailing_zeros_props(1) [of "NOT ?w" n] by simp
      have "allocate_scan offset a =
          (let i = scan_word a offset * 64 + trailing_zeros (NOT ?w) in
           (Some (Frame (of_nat i * Frame_SIZE)), take_bit_at i a))"
        using True ne tz by (subst allocate_scan.simps) (simp add: Let_def take_bit_at_def)
      then show ?thesis using True ne
        by (intro disjI1 exI [of _ offset]) (auto simp: Let_def)
    next
      case False
      then show ?thesis by (auto simp: allocate_scan.simps [of offset a])
    qed
  qed
qed

lemma scan_reaches_every_word:
  assumes "w < BITMAP_WORDS" "next_search a < BITMAP_WORDS"
  obtains k where "k < BITMAP_WORDS" "scan_word a k = w"
proof
  let ?k = "(w + (BITMAP_WORDS - next_search a)) mod BITMAP_WORDS"
  show "?k < BITMAP_WORDS" by (simp add: BITMAP_WORDS_pos)
  show "scan_word a ?k = w" using assms by (simp add: mod_add_right_eq)
qed

lemma free_bits_empty_iff:
  assumes "length bm = BITMAP_WORDS"
  shows "free_bits bm = {} \<longleftrightarrow> (\<forall>w < BITMAP_WORDS. bm ! w = u64_MAX)"
proof
  assume empty: "free_bits bm = {}"
  show "\<forall>w < BITMAP_WORDS. bm ! w = u64_MAX"
  proof (rule ccontr)
    assume "\<not> ?thesis"
    then obtain w n where w: "w < BITMAP_WORDS" "n < 64" "\<not> bit (bm ! w) n"
      by (auto simp: ne_u64_MAX_iff)
    then have "w * 64 + n \<in> free_bits bm" by (simp add: free_bits_def MAX_FRAMES_words)
    with empty show False by simp
  qed
qed (auto simp: free_bits_def frame_word_less)

lemma take_bit_at_spec:
  assumes "alloc_inv a" "i \<in> free_set a"
  shows "alloc_inv (take_bit_at i a)" and "free_set (take_bit_at i a) = free_set a - {i}"
proof -
  have i: "i < MAX_FRAMES" using assms(2) by (simp add: free_bits_def)
  show fs: "free_set (take_bit_at i a) = free_set a - {i}"
    using assms i by (simp add: take_bit_at_def alloc_inv_def free_bits_set)
  show "alloc_inv (take_bit_at i a)"
    using assms i fs frame_word_less [OF i]
    by (simp add: take_bit_at_def alloc_inv_def card_Diff_singleton)
qed

lemma unat_frame_address:
  assumes "i < MAX_FRAMES"
  shows "unat (of_nat i * Frame_SIZE) = i * 4096"
proof -
  have "i < 8388608" using assms by (simp add: kconst)
  then have "unat (of_nat i :: u64) = i" by (simp add: unat_of_nat)
  with \<open>i < 8388608\<close> show ?thesis by (simp add: unat_word_ariths)
qed

lemma allocate_frame_cases:
  assumes "alloc_inv a"
  obtains (none) "free_set a = {}" "allocate_frame a = (None, a)"
  | (some) i where "i \<in> free_set a"
      "allocate_frame a = (Some (Frame (of_nat i * Frame_SIZE)), take_bit_at i a)"
proof (cases "free_set a = {}")
  case True
  then have "free_frames a = 0" using assms by (simp add: alloc_inv_def)
  with True show ?thesis by (intro none) (simp_all add: allocate_frame_def)
next
  case False
  from assms have inv: "length (bitmap a) = BITMAP_WORDS" "next_search a < BITMAP_WORDS"
    "free_frames a \<noteq> 0"
    using False by (simp_all add: alloc_inv_def)
  from False obtain w where "w < BITMAP_WORDS" "bitmap a ! w \<noteq> u64_MAX"
    using free_bits_empty_iff [OF inv(1)] by blast
  then obtain k where "k < BITMAP_WORDS" "bitmap a ! scan_word a k \<noteq> u64_MAX"
    using scan_reaches_every_word [of w a] inv(2) by metis
  then obtain k where k: "bitmap a ! scan_word a k \<noteq> u64_MAX"
    and res: "let i = scan_word a k * 64 + trailing_zeros (NOT (bitmap a ! scan_word a k)) in
       allocate_scan 0 a = (Some (Frame (of_nat i * Frame_SIZE)), take_bit_at i a)"
    using allocate_scan_cases [of 0 a] by auto
  define w where "w = bitmap a ! scan_word a k"
  from k obtain n where "n < 64" "\<not> bit w n" by (auto simp: ne_u64_MAX_iff w_def)
  then have "bit (NOT w) n" by (simp add: bit_not_iff)
  note tz = trailing_zeros_props [OF this]
  define i where "i = scan_word a k * 64 + trailing_zeros (NOT w)"
  have "scan_word a k < BITMAP_WORDS" by (simp add: BITMAP_WORDS_pos)
  then have "i < MAX_FRAMES" using tz(1) by (simp add: i_def MAX_FRAMES_words)
  moreover have "i div 64 = scan_word a k" "i mod 64 = trailing_zeros (NOT w)"
    using tz(1) by (simp_all add: i_def)
  ultimately have "i \<in> free_set a"
    using tz(2) by (simp add: free_bits_def w_def bit_not_iff)
  moreover have "allocate_frame a = (Some (Frame (of_nat i * Frame_SIZE)), take_bit_at i a)"
    using res inv(3) by (simp add: allocate_frame_def i_def w_def Let_def)
  ultimately show ?thesis by (rule some)
qed

lemma allocate_frame_Some:
  assumes "alloc_inv a" "allocate_frame a = (Some f, a')"
  shows "alloc_inv a'" "frame_index f \<in> free_set a" "free_set a' = free_set a - {frame_index f}"
    "4096 dvd unat (start_address f)" "total_frames a' = total_frames a"
    "free_frames a = Suc (free_frames a')"
proof -
  from assms obtain i where i: "i \<in> free_set a" "f = Frame (of_nat i * Frame_SIZE)"
    "a' = take_bit_at i a"
    by (cases a rule: allocate_frame_cases) auto
  then have "unat (start_address f) = i * 4096"
    by (simp add: free_bits_def unat_frame_address)
  then have idx: "frame_index f = i" and dvd: "4096 dvd unat (start_address f)" by simp_all
  show "4096 dvd unat (start_address f)" by (rule dvd)
  show inv': "alloc_inv a'" and fs: "free_set a' = free_set a - {frame_index f}"
    and mem: "frame_index f \<in> free_set a"
    using i take_bit_at_spec [OF assms(1)] idx by simp_all
  show "total_frames a' = total_frames a" by (simp add: i(3) take_bit_at_def)
  show "free_frames a = Suc (free_frames a')"
    using inv' assms(1) fs card_Suc_Diff1 [OF finite_free_bits mem] by (simp add: alloc_inv_def)
qed

lemma allocate_frame_None:
  assumes "alloc_inv a"
  shows "fst (allocate_frame a) = None \<longleftrightarrow> free_set a = {}"
    and "fst (allocate_frame a) = None \<Longrightarrow> snd (allocate_frame a) = a"
  using assms by (cases a rule: allocate_frame_cases; auto)+

section \<open>Populating the bitmap from the memory map\<close>

definition region_frames :: "MemoryRegion \<Rightarrow> nat set" where
  "region_frames r = {i. unat (region_start r) \<le> i * 4096 \<and> (i + 1) * 4096 \<le> unat (region_end r)}"

definition usable_frames :: "MemoryRegion list \<Rightarrow> nat set" where
  "usable_frames rs = (\<Union>r \<in> {r \<in> set rs. region_kind r = Usable}. region_frames r)"

definition starts_below_top :: "MemoryRegion list \<Rightarrow> bool" where
  "starts_below_top rs =
    list_all (\<lambda>r. region_kind r = Usable \<longrightarrow> unat (region_start r) + 4095 < 2 ^ 64) rs"

lemma init_clear_bit_spec:
  assumes "alloc_inv a" "i < MAX_FRAMES"
  shows "alloc_inv (init_clear_bit i a)" and "free_set (init_clear_bit i a) = insert i (free_set a)"
    and "total_frames (init_clear_bit i a) + free_frames a = total_frames a + free_frames (init_clear_bit i a)"
proof -
  have bit: "i \<in> free_set a \<longleftrightarrow> \<not> bit (bitmap a ! (i div 64)) (i mod 64)"
    using assms(2) by (simp add: free_bits_def)
  show fs: "free_set (init_clear_bit i a) = insert i (free_set a)"
    using assms bit
    by (auto simp: init_clear_bit_def alloc_inv_def and_two_power_eq_0_iff free_bits_clear)
  show "alloc_inv (init_clear_bit i a)"
    using assms bit fs
    by (auto simp: init_clear_bit_def alloc_inv_def and_two_power_eq_0_iff split: if_splits)
qed (simp add: init_clear_bit_def)

lemma init_frames_spec:
  assumes "alloc_inv a" "4096 dvd unat addr" "4096 dvd unat end_addr" "addr \<le> end_addr"
    "addr = end_addr \<Longrightarrow> unat addr \<le> MAX_FRAMES * 4096"
    "init_frames addr end_addr a = (r, a')"
  shows "alloc_inv a' \<and>
    free_set a' = free_set a \<union> {i. unat addr \<le> i * 4096 \<and> (i + 1) * 4096 \<le> unat end_addr \<and> i < MAX_FRAMES} \<and>
    total_frames a' + free_frames a = total_frames a + free_frames a' \<and>
    r = (if MAX_FRAMES * 4096 < unat end_addr then Err BitmapTooSmall else Ok ())"
  using assms
proof (induction addr end_addr a arbitrary: r a' rule: init_frames.induct)
  case (1 addr end_addr a)
  from 1(3,4) obtain m n where mn: "unat addr = m * 4096" "unat end_addr = n * 4096"
    by (metis dvd_def mult.commute)
  have le: "m \<le> n" using 1(5) mn by (simp add: word_le_nat_alt)
  have top: "n * 4096 < 2 ^ 64" using mn(2) unat_less_power [of end_addr] by simp
  have "m < n \<or> m \<le> MAX_FRAMES" using 1(6) le mn
    by (cases "m = n") (auto simp: word_unat_eq_iff)
  then have "(m + 1) * 4096 < 2 ^ 64" using top by (auto simp: kconst)
  then have add: "unat (addr + Frame_SIZE) = (m + 1) * 4096"
    using mn(1) by (simp add: unat_word_ariths)
  then have guard: "addr + Frame_SIZE \<le> end_addr \<longleftrightarrow> m < n"
    using mn(2) by (auto simp: word_le_nat_alt)
  note step = init_frames.simps [of addr end_addr a]
  consider (stop) "m = n" "n \<le> MAX_FRAMES" | (toobig) "m < n" "MAX_FRAMES \<le> m" | (go) "m < n" "m < MAX_FRAMES"
    using le \<open>m < n \<or> m \<le> MAX_FRAMES\<close> by linarith
  then show ?case
  proof cases
    case stop
    then have "r = Ok ()" "a' = a" using 1(7) guard by (simp_all add: step)
    with stop 1(2) mn show ?thesis by auto
  next
    case toobig
    then have "r = Err BitmapTooSmall" "a' = a" using 1(7) guard mn(1) by (simp_all add: step)
    with toobig 1(2) mn show ?thesis by auto
  next
    case go
    note clear = init_clear_bit_spec [OF 1(2) go(2)]
    have rec: "init_frames (addr + Frame_SIZE) end_addr (init_clear_bit m a) = (r, a')"
      using 1(7) guard go mn(1) by (simp add: step)
    have "alloc_inv a' \<and>
        free_set a' = free_set (init_clear_bit m a) \<union>
          {i. unat (addr + Frame_SIZE) \<le> i * 4096 \<and> (i + 1) * 4096 \<le> unat end_addr \<and> i < MAX_FRAMES} \<and>
        total_frames a' + free_frames (init_clear_bit m a) =
          total_frames (init_clear_bit m a) + free_frames a' \<and>
        r = (if MAX_FRAMES * 4096 < unat end_addr then Err BitmapTooSmall else Ok ())"
    proof (rule 1(1) [of m])
      show "addr + Frame_SIZE = end_addr \<Longrightarrow> unat (addr + Frame_SIZE) \<le> MAX_FRAMES * 4096"
        using add go(2) by simp
    qed (use guard go mn add clear rec in \<open>simp_all add: word_le_nat_alt\<close>)
    moreover have "insert m {i. (m + 1) * 4096 \<le> i * 4096 \<and> (i + 1) * 4096 \<le> n * 4096 \<and> i < MAX_FRAMES} =
        {i. m * 4096 \<le> i * 4096 \<and> (i + 1) * 4096 \<le> n * 4096 \<and> i < MAX_FRAMES}"
      using go by auto
    ultimately show ?thesis using clear(2,3) mn add by auto
  qed
qed

lemma usable_frames_simps:
  "usable_frames [] = {}"
  "usable_frames (r # rs) =
    (if region_kind r = Usable then region_frames r \<union> usable_frames rs else usable_frames rs)"
  by (auto simp: usable_frames_def)

lemma aligned_region:
  assumes "unat (region_start r) + 4095 < 2 ^ 64"
  defines "start \<equiv> align_up (region_start r) Frame_SIZE"
    and "end_addr \<equiv> align_down (region_end r) Frame_SIZE"
  shows "4096 dvd unat start" "4096 dvd unat end_addr"
    "region_frames r = {i. unat start \<le> i * 4096 \<and> (i + 1) * 4096 \<le> unat end_addr}"
    "end_addr \<le> start \<longleftrightarrow> region_frames r = {}"
proof -
  have s: "unat start = (unat (region_start r) + 4095) div 4096 * 4096"
    using unat_align_up [of 12 "region_start r"] assms(1) by (simp add: start_def Frame_SIZE_power)
  have e: "unat end_addr = unat (region_end r) div 4096 * 4096"
    using unat_align_down [of "region_end r" 12] by (simp add: end_addr_def Frame_SIZE_power)
  show "4096 dvd unat start" "4096 dvd unat end_addr" by (simp_all add: s e)
  have lo: "unat start \<le> i * 4096 \<longleftrightarrow> unat (region_start r) \<le> i * 4096" for i
    using div_mult_ceil(3) [of 4096 "i * 4096" "unat (region_start r)"] s by simp
  have hi: "(i + 1) * 4096 \<le> unat end_addr \<longleftrightarrow> (i + 1) * 4096 \<le> unat (region_end r)" for i
    by (simp only: e mult_le_cancel2) (simp add: less_eq_div_iff_mult_less_eq)
  show fr: "region_frames r = {i. unat start \<le> i * 4096 \<and> (i + 1) * 4096 \<le> unat end_addr}"
    unfolding region_frames_def lo hi by simp
  have "(\<exists>i. unat start \<le> i * 4096 \<and> (i + 1) * 4096 \<le> unat end_addr) \<longleftrightarrow> unat start < unat end_addr"
    unfolding s e by (auto intro: exI [of _ "(unat (region_start r) + 4095) div 4096"])
  then show "end_addr \<le> start \<longleftrightarrow> region_frames r = {}"
    unfolding fr by (auto simp: word_le_nat_alt)
qed

lemma frame_range_bounded_iff:
  fixes s e M :: nat
  assumes "4096 dvd s" "4096 dvd e" "s < e"
  shows "M * 4096 < e \<longleftrightarrow> \<not> {i. s \<le> i * 4096 \<and> (i + 1) * 4096 \<le> e} \<subseteq> {..<M}"
proof -
  from assms obtain m n where mn: "s = m * 4096" "e = n * 4096" "m < n"
    by (metis dvd_def mult.commute mult_less_cancel1)
  then have "n - 1 \<in> {i. s \<le> i * 4096 \<and> (i + 1) * 4096 \<le> e}" by auto
  then show ?thesis using mn by (fastforce simp: subset_iff)
qed

lemma init_frames_region:
  assumes "alloc_inv a" "unat (region_start r) + 4095 < 2 ^ 64" "region_frames r \<noteq> {}"
    "init_frames (align_up (region_start r) Frame_SIZE) (align_down (region_end r) Frame_SIZE) a = (q, b)"
  shows "alloc_inv b" "free_set b = free_set a \<union> (region_frames r \<inter> {..<MAX_FRAMES})"
    "total_frames b + free_frames a = total_frames a + free_frames b"
    "q = (if region_frames r \<subseteq> {..<MAX_FRAMES} then Ok () else Err BitmapTooSmall)"
proof -
  let ?start = "align_up (region_start r) Frame_SIZE"
  let ?stop = "align_down (region_end r) Frame_SIZE"
  note al = aligned_region [OF assms(2)]
  have go: "unat ?start < unat ?stop" using al(4) assms(3) by (simp add: word_le_nat_alt)
  have "?start \<le> ?stop" "?start \<noteq> ?stop" using go by (auto simp: word_le_nat_alt)
  then have spec: "alloc_inv b \<and>
      free_set b = free_set a \<union> {i. unat ?start \<le> i * 4096 \<and> (i + 1) * 4096 \<le> unat ?stop \<and> i < MAX_FRAMES} \<and>
      total_frames b + free_frames a = total_frames a + free_frames b \<and>
      q = (if MAX_FRAMES * 4096 < unat ?stop then Err BitmapTooSmall else Ok ())"
    by (intro init_frames_spec [OF assms(1) al(1,2) _ _ assms(4)]) simp_all
  moreover have "{i. unat ?start \<le> i * 4096 \<and> (i + 1) * 4096 \<le> unat ?stop \<and> i < MAX_FRAMES} =
      region_frames r \<inter> {..<MAX_FRAMES}"
    unfolding al(3) by blast
  moreover have "MAX_FRAMES * 4096 < unat ?stop \<longleftrightarrow> \<not> region_frames r \<subseteq> {..<MAX_FRAMES}"
    using frame_range_bounded_iff [OF al(1,2) go, of MAX_FRAMES] by (simp only: al(3))
  ultimately show "alloc_inv b" "free_set b = free_set a \<union> (region_frames r \<inter> {..<MAX_FRAMES})"
    "total_frames b + free_frames a = total_frames a + free_frames b"
    "q = (if region_frames r \<subseteq> {..<MAX_FRAMES} then Ok () else Err BitmapTooSmall)"
    by auto
qed

lemma init_regions_spec:
  assumes "alloc_inv a" "starts_below_top rs" "init_regions rs any_usable a = (res, a')"
  shows "alloc_inv a' \<and> total_frames a' + free_frames a = total_frames a + free_frames a' \<and>
    free_set a' \<subseteq> free_set a \<union> usable_frames rs \<and>
    (if usable_frames rs \<subseteq> {..<MAX_FRAMES}
     then res = Ok (any_usable \<or> usable_frames rs \<noteq> {}) \<and> free_set a' = free_set a \<union> usable_frames rs
     else res = Err BitmapTooSmall)"
  using assms
proof (induction rs any_usable a rule: init_regions.induct)
  case (1 any_usable a)
  then show ?case by (simp add: usable_frames_simps)
next
  case (2 r rs any_usable a)
  let ?start = "align_up (region_start r) Frame_SIZE"
  let ?stop = "align_down (region_end r) Frame_SIZE"
  have below: "starts_below_top rs" using 2(5) by (simp add: starts_below_top_def)
  consider (other) "region_kind r \<noteq> Usable" | (empty) "region_kind r = Usable" "?stop \<le> ?start"
    | (go) "region_kind r = Usable" "\<not> ?stop \<le> ?start" by blast
  then show ?case
  proof cases
    case other
    then show ?thesis using 2(1) [OF other 2(4) below] 2(6) by (simp add: usable_frames_simps)
  next
    case empty
    then have "region_frames r = {}" using aligned_region(4) [of r] 2(5) by (simp add: starts_below_top_def)
    with empty show ?thesis
      using 2(2) [OF _ refl refl empty(2) 2(4) below] 2(6) by (simp add: usable_frames_simps)
  next
    case go
    then have top: "unat (region_start r) + 4095 < 2 ^ 64" using 2(5) by (simp add: starts_below_top_def)
    have ne: "region_frames r \<noteq> {}" using aligned_region(4) [OF top] go(2) by simp
    obtain q b where fr: "init_frames ?start ?stop a = (q, b)" by fastforce
    note b = init_frames_region [OF 2(4) top ne fr]
    show ?thesis
    proof (cases "region_frames r \<subseteq> {..<MAX_FRAMES}")
      case False
      then have "res = Err BitmapTooSmall" "a' = b"
        using 2(6) go fr b(4) by (simp_all add: Let_def)
      with False b go show ?thesis by (auto simp: usable_frames_simps)
    next
      case True
      have rest: "init_regions rs True b = (res, a')"
        using 2(6) go fr b(4) True by (simp add: Let_def)
      have "free_set b = free_set a \<union> region_frames r" using b(2) True by blast
      then show ?thesis
        using 2(3) [OF _ refl refl go(2) fr [symmetric] _ b(1) below rest] b go True ne
        by (auto simp: usable_frames_simps)
    qed
  qed
qed

section \<open>The contract of a frame pool\<close>

text \<open>
  What the users of the allocator rely on, as the documentation of the two traits states it: a
  frame handed out was free and is not free any more, \<open>None\<close> means exhaustion, and a frame
  returned becomes free again. \<open>pool_exec\<close> runs a client that allocates and returns only
  frames it holds.
\<close>

datatype 'f pool_op = Alloc | Dealloc 'f

fun pool_exec ::
  "('s \<Rightarrow> 'f option \<times> 's) \<Rightarrow> ('f \<Rightarrow> 's \<Rightarrow> 's) \<Rightarrow> 'f pool_op list \<Rightarrow> 's \<times> 'f list \<Rightarrow> ('s \<times> 'f list) option"
where
  "pool_exec al de [] (s, held) = Some (s, held)"
| "pool_exec al de (Alloc # ops) (s, held) =
    (case al s of
       (None, s') \<Rightarrow> pool_exec al de ops (s', held)
     | (Some f, s') \<Rightarrow> pool_exec al de ops (s', f # held))"
| "pool_exec al de (Dealloc f # ops) (s, held) =
    (if f \<in> set held then pool_exec al de ops (de f s, remove1 f held) else None)"

locale frame_pool =
  fixes alloc :: "'s \<Rightarrow> 'f option \<times> 's"
    and dealloc :: "'f \<Rightarrow> 's \<Rightarrow> 's"
    and inv :: "'s \<Rightarrow> bool"
    and free :: "'s \<Rightarrow> 'f set"
    and owned :: "'f \<Rightarrow> bool"
  assumes alloc_Some: "inv s \<Longrightarrow> alloc s = (Some f, s') \<Longrightarrow>
      inv s' \<and> f \<in> free s \<and> free s' = free s - {f} \<and> owned f"
    and alloc_None: "inv s \<Longrightarrow> alloc s = (None, s') \<Longrightarrow> s' = s \<and> free s = {}"
    and dealloc_owned: "inv s \<Longrightarrow> owned f \<Longrightarrow>
      inv (dealloc f s) \<and> free (dealloc f s) = insert f (free s)"
begin

definition held_ok :: "'f set \<Rightarrow> 's \<times> 'f list \<Rightarrow> bool" where
  "held_ok all = (\<lambda>(s, held). inv s \<and> distinct held \<and> set held \<inter> free s = {} \<and>
    (\<forall>f \<in> set held. owned f) \<and> set held \<union> free s = all)"

lemma held_ok_alloc:
  "held_ok all (s, held) \<Longrightarrow> alloc s = (Some f, s') \<Longrightarrow> held_ok all (s', f # held)"
  unfolding held_ok_def prod.case
  using alloc_Some [of s f s'] by (elim conjE) (simp, blast)

lemma held_ok_dealloc:
  "held_ok all (s, held) \<Longrightarrow> f \<in> set held \<Longrightarrow> held_ok all (dealloc f s, remove1 f held)"
  unfolding held_ok_def prod.case
  using dealloc_owned [of s f] by (elim conjE) (simp add: set_remove1_eq, blast)

lemma exec_conserves:
  "pool_exec alloc dealloc ops (s, held) = Some (s', held') \<Longrightarrow> held_ok all (s, held) \<Longrightarrow>
    held_ok all (s', held')"
proof (induction ops arbitrary: s held)
  case (Cons op ops)
  show ?case
  proof (cases op)
    case Alloc
    obtain r s1 where al: "alloc s = (r, s1)" by fastforce
    have "inv s" using Cons.prems(2) by (simp add: held_ok_def)
    show ?thesis
    proof (cases r)
      case None
      then have "s1 = s" using alloc_None \<open>inv s\<close> al by simp
      then show ?thesis using Cons.prems al None Alloc by (intro Cons.IH [of s held]) simp_all
    next
      case (Some f)
      then show ?thesis using Cons.prems al Alloc held_ok_alloc [of all s held f s1]
        by (intro Cons.IH [of s1 "f # held"]) simp_all
    qed
  next
    case (Dealloc f)
    then have "f \<in> set held" using Cons.prems(1) by (simp split: if_splits)
    then show ?thesis using Cons.prems Dealloc held_ok_dealloc [of all s held f]
      by (intro Cons.IH [of "dealloc f s" "remove1 f held"]) simp_all
  qed
qed simp

lemma exec_from_start:
  assumes "inv s" "pool_exec alloc dealloc ops (s, []) = Some (s', held)"
  shows "distinct held" "set held \<inter> free s' = {}" "set held \<union> free s' = free s" "inv s'"
  using exec_conserves [OF assms(2), of "free s"] assms(1) by (simp_all add: held_ok_def)

end

definition free_frame_set :: "BitmapFrameAllocator \<Rightarrow> Frame set" where
  "free_frame_set a = {f. frame_index f \<in> free_set a \<and> 4096 dvd unat (start_address f)}"

definition owned_frame :: "Frame \<Rightarrow> bool" where
  "owned_frame f \<longleftrightarrow> frame_index f < MAX_FRAMES \<and> 4096 dvd unat (start_address f)"

lemma aligned_frame_eqI:
  assumes "4096 dvd unat (start_address f)" "4096 dvd unat (start_address g)"
    "frame_index f = frame_index g"
  shows "f = g"
proof -
  have "unat (start_address f) = unat (start_address g)"
    using assms by (metis dvd_div_mult_self unat_number)
  then show ?thesis by (cases f; cases g) (simp add: word_unat_eq_iff)
qed

interpretation fp: frame_pool allocate_frame deallocate_frame alloc_inv free_frame_set owned_frame
proof (unfold_locales, goal_cases)
  case (1 s f s')
  note al = allocate_frame_Some [OF 1]
  from al(2) have "frame_index f < MAX_FRAMES" by (simp add: free_bits_def)
  moreover note dvd = al(4)
  moreover have "free_frame_set s' = free_frame_set s - {f}"
    using al(3) dvd aligned_frame_eqI [of _ f] by (auto simp: free_frame_set_def simp del: unat_number)
  ultimately show ?case
    using al(1,2) by (simp add: free_frame_set_def owned_frame_def del: unat_number)
next
  case (2 s s')
  then show ?case using allocate_frame_None [OF 2(1)] by (auto simp: free_frame_set_def)
next
  case (3 s f)
  then have "free_frame_set (deallocate_frame f s) = insert f (free_frame_set s)"
    using deallocate_frame_spec(2) [OF 3(1), of f] aligned_frame_eqI [of _ f]
    by (auto simp: free_frame_set_def owned_frame_def simp del: unat_number)
  then show ?case using deallocate_frame_spec(1) [OF 3(1)] by simp
qed

section \<open>Properties\<close>

text \<open>C3: whatever sequence of allocations and deallocations of held frames a client performs, the
  frames it holds are pairwise distinct, none of them is marked free, and held and free frames
  together are exactly the frames that were free at the start: no frame is handed out twice or
  lost.\<close>

theorem frames_never_shared_or_lost:
  assumes "alloc_inv a" "pool_exec allocate_frame deallocate_frame ops (a, []) = Some (a', held)"
  shows "distinct held \<and> set held \<inter> free_frame_set a' = {} \<and>
    set held \<union> free_frame_set a' = free_frame_set a \<and> alloc_inv a'"
  using fp.exec_from_start [OF assms] by blast

definition one_frame_free :: BitmapFrameAllocator where
  "one_frame_free = mark_free (Frame 0x3000) BitmapFrameAllocator_new"

lemma one_frame_free_facts:
  "alloc_inv one_frame_free" "free_set one_frame_free = {3}"
  using mark_free_spec [OF new_inv, of "Frame 0x3000"]
  by (simp_all add: one_frame_free_def new_free_set kconst)

lemma one_frame_free_alloc:
  obtains a' where "allocate_frame one_frame_free = (Some (Frame 0x3000), a')" "free_set a' = {}"
    "alloc_inv a'"
  using one_frame_free_facts(1)
proof (cases rule: allocate_frame_cases)
  case (some i)
  then have "i = 3" by (simp add: one_frame_free_facts)
  with some have "allocate_frame one_frame_free = (Some (Frame 0x3000), take_bit_at 3 one_frame_free)"
    by (simp add: kconst)
  then show ?thesis
    using take_bit_at_spec [of one_frame_free 3] one_frame_free_facts by (intro that) auto
qed (use one_frame_free_facts in auto)

theorem frames_never_shared_or_lost_witness:
  "\<exists>a'. alloc_inv one_frame_free \<and>
    pool_exec allocate_frame deallocate_frame [Alloc, Alloc] (one_frame_free, []) =
      Some (a', [Frame 0x3000]) \<and>
    set [Frame 0x3000] \<union> free_frame_set a' = free_frame_set one_frame_free"
proof -
  obtain a' where a': "allocate_frame one_frame_free = (Some (Frame 0x3000), a')" "free_set a' = {}"
    "alloc_inv a'"
    by (rule one_frame_free_alloc)
  from a'(3) have "allocate_frame a' = (None, a')"
    by (cases rule: allocate_frame_cases) (use a'(2) in auto)
  with a'(1) have "pool_exec allocate_frame deallocate_frame [Alloc, Alloc] (one_frame_free, []) =
      Some (a', [Frame 0x3000])" by simp
  with frames_never_shared_or_lost [OF one_frame_free_facts(1) this] show ?thesis
    using one_frame_free_facts(1) by blast
qed

text \<open>C4: \<open>allocate_frame\<close> returns \<open>None\<close> exactly when no frame is free, and then changes
  nothing; otherwise it returns a frame that was free, page aligned and below 32 GiB, removes
  exactly that frame from the free frames, and keeps the counters and the invariant right.\<close>

theorem allocate_frame_correct:
  assumes "alloc_inv a"
  shows "case allocate_frame a of
      (None, a') \<Rightarrow> free_set a = {} \<and> a' = a
    | (Some f, a') \<Rightarrow>
        frame_index f \<in> free_set a \<and> 4096 dvd unat (start_address f) \<and>
        start_address f < MAX_PHYSICAL_BYTES \<and> free_set a' = free_set a - {frame_index f} \<and>
        free_frames a = free_frames a' + 1 \<and> total_frames a' = total_frames a \<and> alloc_inv a'"
proof (cases "allocate_frame a")
  case (Pair r a')
  show ?thesis
  proof (cases r)
    case None
    then show ?thesis using allocate_frame_None [OF assms] Pair by simp
  next
    case (Some f)
    note al = allocate_frame_Some [OF assms Pair [unfolded Some]]
    from al(2) have "frame_index f < 8388608" by (simp add: free_bits_def kconst)
    then have "start_address f < MAX_PHYSICAL_BYTES"
      by (simp add: word_less_nat_alt kconst div_less_iff_less_mult)
    then show ?thesis using al Pair Some by simp
  qed
qed

theorem allocate_frame_correct_witness:
  "\<exists>a'. allocate_frame one_frame_free = (Some (Frame 0x3000), a') \<and> free_set a' = {} \<and> alloc_inv a'"
proof -
  obtain a' where a': "allocate_frame one_frame_free = (Some (Frame 0x3000), a')"
    by (rule one_frame_free_alloc)
  with allocate_frame_correct [OF one_frame_free_facts(1)] show ?thesis
    by (simp add: one_frame_free_facts(2))
qed

lemma allocator_init_spec:
  assumes "starts_below_top rs" "allocator_init rs frame_statics_boot = (res, s)"
  shows "INITIALIZED s" "alloc_inv (FRAME_ALLOCATOR s)"
    "total_frames (FRAME_ALLOCATOR s) = free_frames (FRAME_ALLOCATOR s)"
    "free_set (FRAME_ALLOCATOR s) \<subseteq> usable_frames rs"
    "res = (if \<not> usable_frames rs \<subseteq> {..<MAX_FRAMES} then Err BitmapTooSmall
            else if usable_frames rs = {} then Err NoUsableRegions else Ok ())"
    "usable_frames rs \<subseteq> {..<MAX_FRAMES} \<Longrightarrow> free_set (FRAME_ALLOCATOR s) = usable_frames rs"
proof -
  obtain q a where q: "init_regions rs False BitmapFrameAllocator_new = (q, a)" by fastforce
  have s: "s = \<lparr>FRAME_ALLOCATOR = a, INITIALIZED = True\<rparr>"
    "res = (case q of Inl e \<Rightarrow> Err e | Inr any \<Rightarrow> if any then Ok () else Err NoUsableRegions)"
    using assms(2) q by (auto simp: allocator_init_def frame_statics_boot_def Let_def split: sum.splits if_splits)
  have "free_frames BitmapFrameAllocator_new = 0" "total_frames BitmapFrameAllocator_new = 0"
    by (simp_all add: BitmapFrameAllocator_new_def)
  note facts = this new_free_set init_regions_spec [OF new_inv assms(1) q]
  show "INITIALIZED s" "alloc_inv (FRAME_ALLOCATOR s)"
    "total_frames (FRAME_ALLOCATOR s) = free_frames (FRAME_ALLOCATOR s)"
    "free_set (FRAME_ALLOCATOR s) \<subseteq> usable_frames rs"
    "res = (if \<not> usable_frames rs \<subseteq> {..<MAX_FRAMES} then Err BitmapTooSmall
            else if usable_frames rs = {} then Err NoUsableRegions else Ok ())"
    "usable_frames rs \<subseteq> {..<MAX_FRAMES} \<Longrightarrow> free_set (FRAME_ALLOCATOR s) = usable_frames rs"
    using facts s by (simp_all split: if_splits)
qed

text \<open>C5: populating the bitmap from the boot memory map makes free exactly the frames that lie
  completely inside a usable region, counts them in both counters, and reports
  \<open>NoUsableRegions\<close> when there is none and \<open>BitmapTooSmall\<close> when one of them lies above
  the 32 GiB cap; a second call fails with \<open>AlreadyInitialized\<close>.\<close>

theorem allocator_init_exact:
  assumes "starts_below_top rs" "allocator_init rs frame_statics_boot = (res, s)"
  shows "INITIALIZED s \<and> alloc_inv (FRAME_ALLOCATOR s) \<and>
    total_frames (FRAME_ALLOCATOR s) = free_frames (FRAME_ALLOCATOR s) \<and>
    free_set (FRAME_ALLOCATOR s) \<subseteq> usable_frames rs \<and>
    res = (if \<not> usable_frames rs \<subseteq> {..<MAX_FRAMES} then Err BitmapTooSmall
           else if usable_frames rs = {} then Err NoUsableRegions else Ok ()) \<and>
    (usable_frames rs \<subseteq> {..<MAX_FRAMES} \<longrightarrow>
       free_set (FRAME_ALLOCATOR s) = usable_frames rs \<and>
       stats s = (card (usable_frames rs), card (usable_frames rs))) \<and>
    allocator_init rs' s = (Err AlreadyInitialized, s)"
  using allocator_init_spec [OF assms]
  by (auto simp: alloc_inv_def stats_def allocator_init_def split: if_splits)

definition example_map :: "MemoryRegion list" where
  "example_map =
    [\<lparr>region_start = 0, region_end = 0x9000, region_kind = Reserved\<rparr>,
     \<lparr>region_start = 0x1F800, region_end = 0x22400, region_kind = Usable\<rparr>]"

lemma example_map_frames: "usable_frames example_map = {32, 33}"
proof -
  have "i = 32 \<or> i = 33" if "129024 \<le> i * 4096" "(i + 1) * 4096 \<le> 140288" for i :: nat
    using that by simp linarith
  then have "129024 \<le> i * 4096 \<and> (i + 1) * 4096 \<le> 140288 \<longleftrightarrow> i = 32 \<or> i = 33" for i :: nat
    by auto
  then show ?thesis
    by (simp add: usable_frames_simps example_map_def region_frames_def set_eq_iff)
qed

theorem allocator_init_exact_witness:
  "starts_below_top example_map \<and>
    fst (allocator_init example_map frame_statics_boot) = Ok () \<and>
    free_set (FRAME_ALLOCATOR (snd (allocator_init example_map frame_statics_boot))) = {32, 33}"
proof -
  have b: "starts_below_top example_map" by (simp add: starts_below_top_def example_map_def)
  have "{32, 33} \<subseteq> {..<MAX_FRAMES}" by (simp add: kconst)
  then show ?thesis
    using allocator_init_exact [OF b surjective_pairing] b by (simp add: example_map_frames)
qed

text \<open>Returning an allocated frame undoes the allocation: the free frames and both counters are
  those from before, and returning the same frame once more changes neither.\<close>

theorem alloc_dealloc_round_trip:
  assumes "alloc_inv a" "allocate_frame a = (Some f, a')"
  shows "free_set (deallocate_frame f a') = free_set a \<and>
    free_frames (deallocate_frame f a') = free_frames a \<and>
    total_frames (deallocate_frame f a') = total_frames a \<and>
    free_frames (deallocate_frame f (deallocate_frame f a')) = free_frames a \<and>
    alloc_inv (deallocate_frame f (deallocate_frame f a'))"
proof -
  note al = allocate_frame_Some [OF assms]
  note d1 = deallocate_frame_spec [OF al(1), of f]
  note d2 = deallocate_frame_spec [OF d1(1), of f]
  have "frame_index f < MAX_FRAMES" using al(2) by (simp add: free_bits_def)
  then have fs: "free_set (deallocate_frame f a') = free_set a"
    "free_set (deallocate_frame f (deallocate_frame f a')) = free_set a"
    using al(2,3) d1(2) d2(2) by (simp_all add: insert_absorb del: unat_number)
  then show ?thesis using assms(1) al d1 d2 by (simp add: alloc_inv_def)
qed

theorem alloc_dealloc_round_trip_example:
  "\<exists>a'. allocate_frame one_frame_free = (Some (Frame 0x3000), a') \<and> free_set a' = {} \<and>
    free_set (deallocate_frame (Frame 0x3000) a') = {3}"
proof -
  obtain a' where a': "allocate_frame one_frame_free = (Some (Frame 0x3000), a')" "free_set a' = {}"
    by (rule one_frame_free_alloc)
  with alloc_dealloc_round_trip [OF one_frame_free_facts(1) a'(1)] show ?thesis
    by (simp add: one_frame_free_facts(2))
qed

end
