(* ===== verification/Paging.thy ===== *)
theory Paging
  imports Frame_Allocator
begin

text \<open>
  The four-level page tables, \<open>memory/paging.rs\<close>: the flag and entry types, the walk that
  creates missing tables, \<open>map\<close>, \<open>unmap\<close>, \<open>translate\<close> and the TLB maintenance.

  The state is what the code reaches: the quadwords of the window through which all physical
  memory is mapped (by virtual address), the registers and statics the module reads, the frame
  allocator, and the TLB as the set of translations the processor has cached (the 36-bit
  page number to frame base and global flag). \<open>invlpg\<close> drops the entry of one page, reloading \<open>CR3\<close>
  drops every entry that is not global. A failed \<open>assert!\<close> is \<open>None\<close>.

  \<open>entry_at\<close> reads an entry by its path of table indices; \<open>pt_wf\<close> says that distinct
  paths lead to distinct tables and that no table is a free frame. The lemmas reduce every
  operation to its effect on \<open>entry_at\<close>, and from there to its effect on \<open>translate\<close>.
\<close>

section \<open>Flags and entries\<close>

definition PHYS_ADDR_MASK :: u64 where
  [kconst]: "PHYS_ADDR_MASK = 0x000FFFFFFFFFF000"

datatype PageFlags = PageFlags u64

definition PRESENT :: PageFlags where "PRESENT = PageFlags (push_bit 0 1)"
definition WRITABLE :: PageFlags where "WRITABLE = PageFlags (push_bit 1 1)"
definition USER :: PageFlags where "USER = PageFlags (push_bit 2 1)"
definition WRITE_THROUGH :: PageFlags where "WRITE_THROUGH = PageFlags (push_bit 3 1)"
definition NO_CACHE :: PageFlags where "NO_CACHE = PageFlags (push_bit 4 1)"
definition ACCESSED :: PageFlags where "ACCESSED = PageFlags (push_bit 5 1)"
definition DIRTY :: PageFlags where "DIRTY = PageFlags (push_bit 6 1)"
definition HUGE_PAGE :: PageFlags where "HUGE_PAGE = PageFlags (push_bit 7 1)"
definition GLOBAL :: PageFlags where "GLOBAL = PageFlags (push_bit 8 1)"
definition NO_EXECUTE :: PageFlags where "NO_EXECUTE = PageFlags (push_bit 63 1)"

primrec bits :: "PageFlags \<Rightarrow> u64" where
  "bits (PageFlags b) = b"

definition PageFlags_empty :: PageFlags where
  "PageFlags_empty = PageFlags 0"

definition from_bits_truncate :: "u64 \<Rightarrow> PageFlags" where
  "from_bits_truncate b = PageFlags (b AND NOT PHYS_ADDR_MASK)"

definition contains :: "PageFlags \<Rightarrow> PageFlags \<Rightarrow> bool" where
  "contains self other \<longleftrightarrow> bits self AND bits other = bits other"

definition flags_or :: "PageFlags \<Rightarrow> PageFlags \<Rightarrow> PageFlags" where
  "flags_or self rhs = PageFlags (bits self OR bits rhs)"

definition flags_and :: "PageFlags \<Rightarrow> PageFlags \<Rightarrow> PageFlags" where
  "flags_and self rhs = PageFlags (bits self AND bits rhs)"

datatype PageTableEntry = PageTableEntry u64

primrec entry_bits :: "PageTableEntry \<Rightarrow> u64" where
  "entry_bits (PageTableEntry e) = e"

definition PageTableEntry_empty :: PageTableEntry where
  "PageTableEntry_empty = PageTableEntry 0"

definition is_present :: "PageTableEntry \<Rightarrow> bool" where
  "is_present e \<longleftrightarrow> entry_bits e AND 1 \<noteq> 0"

definition frame_addr :: "PageTableEntry \<Rightarrow> u64" where
  "frame_addr e = entry_bits e AND PHYS_ADDR_MASK"

definition flags :: "PageTableEntry \<Rightarrow> PageFlags" where
  "flags e = PageFlags (entry_bits e AND NOT PHYS_ADDR_MASK)"

definition entry_set :: "u64 \<Rightarrow> PageFlags \<Rightarrow> PageTableEntry" where
  "entry_set addr fl = PageTableEntry ((addr AND PHYS_ADDR_MASK) OR bits fl)"

datatype MapError = AlreadyMapped | NotMapped | OutOfFrames | HugePageConflict | NotInitialized

section \<open>The machine state of the module\<close>

record paging =
  phys_mem :: "u64 \<Rightarrow> u64"
  cr3 :: u64
  PHYSICAL_MEMORY_OFFSET :: u64
  frame_alloc :: frame_statics
  tlb :: "u64 \<Rightarrow> (u64 \<times> bool) option"

definition paging_init :: "u64 \<Rightarrow> paging \<Rightarrow> (MemoryInitError + unit) \<times> paging" where
  "paging_init physical_memory_offset s =
    (if physical_memory_offset = u64_MAX then (Err PagingNotReady, s)
     else (Ok (), s\<lparr>PHYSICAL_MEMORY_OFFSET := physical_memory_offset\<rparr>))"

definition phys_offset :: "paging \<Rightarrow> MapError + u64" where
  "phys_offset s =
    (let v = PHYSICAL_MEMORY_OFFSET s in if v = u64_MAX then Err NotInitialized else Ok v)"

definition phys_to_virt :: "u64 \<Rightarrow> paging \<Rightarrow> MapError + u64" where
  "phys_to_virt phys s = (case phys_offset s of Inl e \<Rightarrow> Err e | Inr off \<Rightarrow> Ok (off + phys))"

definition active_l4 :: "paging \<Rightarrow> MapError + u64" where
  "active_l4 s = phys_to_virt (cr3 s AND PHYS_ADDR_MASK) s"

definition split_indices :: "u64 \<Rightarrow> nat \<times> nat \<times> nat \<times> nat \<times> u64" where
  "split_indices virt =
    (unat (drop_bit 39 virt AND 0x1FF), unat (drop_bit 30 virt AND 0x1FF),
     unat (drop_bit 21 virt AND 0x1FF), unat (drop_bit 12 virt AND 0x1FF), virt AND 0xFFF)"

definition entry_ptr :: "u64 \<Rightarrow> nat \<Rightarrow> u64" where
  "entry_ptr table index = table + 8 * of_nat index"

definition read_entry :: "u64 \<Rightarrow> nat \<Rightarrow> paging \<Rightarrow> PageTableEntry" where
  "read_entry table index s = PageTableEntry (phys_mem s (entry_ptr table index))"

definition write_entry :: "u64 \<Rightarrow> nat \<Rightarrow> PageTableEntry \<Rightarrow> paging \<Rightarrow> paging" where
  "write_entry table index e s =
    s\<lparr>phys_mem := (phys_mem s)(entry_ptr table index := entry_bits e)\<rparr>"

definition write_empty_table :: "u64 \<Rightarrow> paging \<Rightarrow> paging" where
  "write_empty_table table s =
    s\<lparr>phys_mem := (\<lambda>a. if a - table < 4096 then entry_bits PageTableEntry_empty else phys_mem s a)\<rparr>"

definition tlb_page :: "u64 \<Rightarrow> u64" where
  "tlb_page virt = take_bit 36 (drop_bit 12 virt)"

definition flush_tlb :: "u64 \<Rightarrow> paging \<Rightarrow> paging" where
  "flush_tlb virt s = s\<lparr>tlb := (tlb s)(tlb_page virt := None)\<rparr>"

definition flush_tlb_all :: "paging \<Rightarrow> paging" where
  "flush_tlb_all s =
    s\<lparr>tlb := (\<lambda>page. case tlb s page of Some (pa, True) \<Rightarrow> Some (pa, True) | _ \<Rightarrow> None)\<rparr>"

section \<open>Walking and changing the tables\<close>

definition next_table_or_create ::
  "u64 \<Rightarrow> nat \<Rightarrow> PageFlags \<Rightarrow> paging \<Rightarrow> (MapError + u64) \<times> paging" where
  "next_table_or_create table index parent_flags s =
    (let entry = read_entry table index s in
     then_try
       (if is_present entry then
          (if contains (flags entry) HUGE_PAGE then (Err HugePageConflict, s) else (Ok (), s))
        else
          case alloc_frame (frame_alloc s) of
            (None, fs) \<Rightarrow> (Err OutOfFrames, s\<lparr>frame_alloc := fs\<rparr>)
          | (Some frame, fs) \<Rightarrow>
              let s1 = s\<lparr>frame_alloc := fs\<rparr>; new_table_pa = start_address frame in
              then_try (phys_to_virt new_table_pa s1, s1) (\<lambda>new_table_va s1.
                let s2 = write_empty_table new_table_va s1;
                    intermediate_flags =
                      flags_or (flags_or PRESENT WRITABLE) (flags_and parent_flags USER)
                in (Ok (), write_entry table index (entry_set new_table_pa intermediate_flags) s2)))
       (\<lambda>_ s'. (phys_to_virt (frame_addr (read_entry table index s')) s', s')))"

definition next_table :: "u64 \<Rightarrow> nat \<Rightarrow> paging \<Rightarrow> MapError + u64" where
  "next_table table index s =
    (let entry = read_entry table index s in
     if \<not> is_present entry then Err NotMapped
     else if contains (flags entry) HUGE_PAGE then Err HugePageConflict
     else phys_to_virt (frame_addr entry) s)"

definition map_page ::
  "u64 \<Rightarrow> u64 \<Rightarrow> PageFlags \<Rightarrow> paging \<Rightarrow> ((MapError + unit) \<times> paging) option" where
  "map_page virt phys flags0 s =
    (if virt AND 0xFFF \<noteq> 0 \<or> phys AND 0xFFF \<noteq> 0 then None
     else
       let flags1 = flags_or flags0 PRESENT; (l4i, l3i, l2i, l1i, _) = split_indices virt in
       Some (
         then_try (active_l4 s, s) (\<lambda>l4_table s.
         then_try (next_table_or_create l4_table l4i flags1 s) (\<lambda>l3_table s.
         then_try (next_table_or_create l3_table l3i flags1 s) (\<lambda>l2_table s.
         then_try (next_table_or_create l2_table l2i flags1 s) (\<lambda>l1_table s.
           if is_present (read_entry l1_table l1i s) then (Err AlreadyMapped, s)
           else (Ok (), flush_tlb virt (write_entry l1_table l1i (entry_set phys flags1) s))))))))"

definition unmap :: "u64 \<Rightarrow> paging \<Rightarrow> ((MapError + u64) \<times> paging) option" where
  "unmap virt s =
    (if virt AND 0xFFF \<noteq> 0 then None
     else
       let (l4i, l3i, l2i, l1i, _) = split_indices virt in
       Some (
         then_try (active_l4 s, s) (\<lambda>l4_table s.
         then_try (next_table l4_table l4i s, s) (\<lambda>l3_table s.
         then_try (next_table l3_table l3i s, s) (\<lambda>l2_table s.
         then_try (next_table l2_table l2i s, s) (\<lambda>l1_table s.
           let entry = read_entry l1_table l1i s in
           if \<not> is_present entry then (Err NotMapped, s)
           else (Ok (frame_addr entry),
                 flush_tlb virt (write_entry l1_table l1i PageTableEntry_empty s))))))))"

definition translate :: "u64 \<Rightarrow> paging \<Rightarrow> u64 option" where
  "translate virt s =
    (let (l4i, l3i, l2i, l1i, off) = split_indices virt; offset = PHYSICAL_MEMORY_OFFSET s in
     if offset = u64_MAX then None
     else
       let e4 = read_entry (offset + (cr3 s AND PHYS_ADDR_MASK)) l4i s in
       if \<not> is_present e4 then None
       else
         let e3 = read_entry (offset + frame_addr e4) l3i s in
         if \<not> is_present e3 then None
         else if contains (flags e3) HUGE_PAGE then Some (frame_addr e3 OR (virt AND (push_bit 30 1 - 1)))
         else
           let e2 = read_entry (offset + frame_addr e3) l2i s in
           if \<not> is_present e2 then None
           else if contains (flags e2) HUGE_PAGE then Some (frame_addr e2 OR (virt AND (push_bit 21 1 - 1)))
           else
             let e1 = read_entry (offset + frame_addr e2) l1i s in
             if \<not> is_present e1 then None else Some (frame_addr e1 OR off))"

section \<open>Bits of addresses and entries\<close>

lemma bit_PHYS_ADDR_MASK [simp]: "bit PHYS_ADDR_MASK n \<longleftrightarrow> 12 \<le> n \<and> n < 52"
proof -
  have eq: "PHYS_ADDR_MASK = push_bit 12 (mask 40)"
    by (simp add: PHYS_ADDR_MASK_def mask_eq_exp_minus_1)
  show ?thesis unfolding eq by (auto simp: bit_push_bit_iff bit_mask_iff)
qed

definition frame_base :: "u64 \<Rightarrow> bool" where
  "frame_base pa \<longleftrightarrow> pa AND PHYS_ADDR_MASK = pa"

definition addr_free :: "PageFlags \<Rightarrow> bool" where
  "addr_free fl \<longleftrightarrow> bits fl AND PHYS_ADDR_MASK = 0"

lemma frame_base_mask [simp]: "frame_base (x AND PHYS_ADDR_MASK)"
  by (simp add: frame_base_def and.assoc)

lemma frame_base_frame_addr [simp]: "frame_base (frame_addr e)"
  by (simp add: frame_addr_def)

lemma low_bits_clear:
  fixes w :: u64
  assumes "2 ^ k dvd unat w" "n < k"
  shows "\<not> bit w n"
proof -
  from assms(1) have "w AND mask k = 0" by (simp add: and_mask_dvd_nat)
  then have "\<not> bit (w AND mask k) n" by simp
  with assms(2) show ?thesis using bit_imp_le_length [of w n] by (auto simp: bit_and_iff bit_mask_iff)
qed

lemma high_bits_clear:
  fixes w :: u64
  assumes "unat w < 2 ^ k" "k \<le> n"
  shows "\<not> bit w n"
proof -
  have "unat w < 2 ^ n" using assms by (meson less_le_trans one_le_numeral power_increasing)
  then have "\<not> bit (unat w) n" by (simp add: bit_iff_odd)
  then show ?thesis by (auto simp: bit_unsigned_iff dest: bit_imp_le_length)
qed

lemma frame_baseI:
  assumes "4096 dvd unat pa" "unat pa < 2 ^ 52"
  shows "frame_base pa"
  unfolding frame_base_def
proof (rule bit_word_eqI)
  fix n
  have "bit pa n \<Longrightarrow> 12 \<le> n \<and> n < 52"
    using low_bits_clear [of 12 pa n] high_bits_clear [of pa 52 n] assms by fastforce
  then show "bit (pa AND PHYS_ADDR_MASK) n = bit pa n" by (auto simp: bit_and_iff)
qed

lemma frame_base_dvd:
  assumes "frame_base pa"
  shows "4096 dvd unat pa"
proof -
  have "pa AND mask 12 = 0"
    by (subst assms [unfolded frame_base_def, symmetric])
      (rule bit_word_eqI, auto simp: bit_and_iff bit_mask_iff)
  then show ?thesis using and_mask_dvd_nat [of 12 pa] by simp
qed

lemma frame_base_less: "frame_base pa \<Longrightarrow> unat pa < 2 ^ 52"
  using word_and_le1 [of pa PHYS_ADDR_MASK]
  by (simp add: frame_base_def word_le_nat_alt PHYS_ADDR_MASK_def)

lemma frame_addr_entry_set [simp]:
  "addr_free fl \<Longrightarrow> frame_addr (entry_set pa fl) = pa AND PHYS_ADDR_MASK"
  by (simp add: frame_addr_def entry_set_def addr_free_def and.assoc bit.conj_disj_distrib2)

lemma is_present_iff: "is_present e \<longleftrightarrow> bit (entry_bits e) 0"
  using and_two_power_eq_0_iff [of "entry_bits e" 0] by (simp add: is_present_def)

lemma is_present_entry_set [simp]: "is_present (entry_set pa fl) \<longleftrightarrow> bit (bits fl) 0"
  by (simp add: is_present_iff entry_set_def bit_or_iff bit_and_iff)

lemma huge_iff: "contains (flags e) HUGE_PAGE \<longleftrightarrow> bit (entry_bits e) 7"
  unfolding contains_def flags_def HUGE_PAGE_def bits.simps push_bit_of_1
  by (subst and_two_power_eq_iff) (simp_all add: bit_and_iff bit_not_iff)

lemma huge_entry_set: "contains (flags (entry_set pa fl)) HUGE_PAGE \<longleftrightarrow> bit (bits fl) 7"
  by (simp add: huge_iff entry_set_def bit_or_iff bit_and_iff)

lemma not_present_empty [simp]: "\<not> is_present (PageTableEntry 0)"
  by (simp add: is_present_def)

section \<open>Tables by their path\<close>

abbreviation free_frames_of :: "paging \<Rightarrow> nat set" where
  "free_frames_of s \<equiv> free_set (FRAME_ALLOCATOR (frame_alloc s))"

fun descend :: "paging \<Rightarrow> u64 \<Rightarrow> nat list \<Rightarrow> u64 option" where
  "descend s t [] = Some t"
| "descend s t (i # p) =
    (let e = read_entry (PHYSICAL_MEMORY_OFFSET s + t) i s in
     if is_present e \<and> \<not> contains (flags e) HUGE_PAGE then descend s (frame_addr e) p else None)"

abbreviation table_at :: "paging \<Rightarrow> nat list \<Rightarrow> u64 option" where
  "table_at s p \<equiv> descend s (cr3 s AND PHYS_ADDR_MASK) p"

definition entry_at :: "paging \<Rightarrow> nat list \<Rightarrow> nat \<Rightarrow> PageTableEntry option" where
  "entry_at s p i = map_option (\<lambda>t. read_entry (PHYSICAL_MEMORY_OFFSET s + t) i s) (table_at s p)"

definition valid_path :: "nat list \<Rightarrow> bool" where
  "valid_path p \<longleftrightarrow> length p \<le> 3 \<and> (\<forall>i \<in> set p. i < 512)"

definition pt_wf :: "paging \<Rightarrow> bool" where
  "pt_wf s \<longleftrightarrow>
    PHYSICAL_MEMORY_OFFSET s \<noteq> u64_MAX \<and> alloc_inv (FRAME_ALLOCATOR (frame_alloc s)) \<and>
    (\<forall>p q t. valid_path p \<longrightarrow> valid_path q \<longrightarrow> table_at s p = Some t \<longrightarrow> table_at s q = Some t \<longrightarrow> p = q) \<and>
    (\<forall>p t. valid_path p \<longrightarrow> table_at s p = Some t \<longrightarrow> unat t div 4096 \<notin> free_frames_of s) \<and>
    (\<forall>i < 512. \<forall>e. entry_at s [] i = Some e \<longrightarrow> is_present e \<longrightarrow> \<not> contains (flags e) HUGE_PAGE)"

lemma descend_snoc:
  "descend s t (p @ [i]) =
    (case descend s t p of None \<Rightarrow> None
     | Some t' \<Rightarrow>
         let e = read_entry (PHYSICAL_MEMORY_OFFSET s + t') i s in
         if is_present e \<and> \<not> contains (flags e) HUGE_PAGE then Some (frame_addr e) else None)"
  by (induction p arbitrary: t) (auto simp: Let_def)

lemma table_at_snoc:
  "table_at s (p @ [i]) =
    (case entry_at s p i of None \<Rightarrow> None
     | Some e \<Rightarrow> if is_present e \<and> \<not> contains (flags e) HUGE_PAGE then Some (frame_addr e) else None)"
  by (simp add: descend_snoc entry_at_def Let_def split: option.splits)

lemma table_at_frame_base: "table_at s p = Some t \<Longrightarrow> frame_base t"
proof (induction p rule: rev_induct)
  case (snoc i p)
  then show ?case by (auto simp: table_at_snoc split: option.splits if_splits)
qed auto

lemma valid_path_snoc [simp]: "valid_path (p @ [i]) \<longleftrightarrow> valid_path p \<and> length p < 3 \<and> i < 512"
  by (auto simp: valid_path_def)

lemma valid_path_Nil [simp]: "valid_path []"
  by (simp add: valid_path_def)

lemma unat_entry_offset:
  assumes "frame_base t" "i < 512"
  shows "unat (t + 8 * of_nat i) = unat t + 8 * i"
proof -
  have i: "unat (8 * of_nat i :: u64) = 8 * i"
    using assms(2) by (simp add: unat_word_ariths unat_of_nat)
  show ?thesis
    using frame_base_less [OF assms(1)] assms(2) by (simp add: unat_word_ariths(1) i)
qed

lemma entry_ptr_inj:
  assumes "frame_base t" "frame_base t'" "i < 512" "j < 512"
  shows "entry_ptr (off + t) i = entry_ptr (off + t') j \<longleftrightarrow> t = t' \<and> i = j"
proof
  assume "entry_ptr (off + t) i = entry_ptr (off + t') j"
  then have "t + 8 * of_nat i = t' + 8 * of_nat j" by (simp add: entry_ptr_def algebra_simps)
  then have eq: "unat t + 8 * i = unat t' + 8 * j"
    using assms by (metis unat_entry_offset)
  obtain m n where "unat t = 4096 * m" "unat t' = 4096 * n"
    using assms(1,2) by (meson dvdE frame_base_dvd)
  moreover have "(4096 * k + 8 * l) div 4096 = k" if "l < 512" for k l :: nat
    using that by simp
  ultimately have "m = n" using eq assms(3,4) by metis
  with \<open>unat t = 4096 * m\<close> \<open>unat t' = 4096 * n\<close> show "t = t' \<and> i = j" using eq by (simp add: word_unat_eq_iff)
qed auto

lemma entry_ptr_in_table:
  assumes "frame_base t" "frame_base t'" "i < 512"
  shows "entry_ptr (off + t) i - (off + t') < 4096 \<longleftrightarrow> t = t'"
proof -
  have diff: "entry_ptr (off + t) i - (off + t') = (t + 8 * of_nat i) - t'"
    by (simp add: entry_ptr_def algebra_simps)
  obtain m n where mn: "unat t = 4096 * m" "unat t' = 4096 * n"
    using assms(1,2) by (meson dvdE frame_base_dvd)
  note off = unat_entry_offset [OF assms(1,3)]
  consider "n < m" | "m = n" | "m < n" by linarith
  then show ?thesis
  proof cases
    case 1
    then have "4096 \<le> unat ((t + 8 * of_nat i) - t')"
      using mn off by (simp add: unat_sub_if')
    with 1 mn show ?thesis by (auto simp: diff word_less_nat_alt)
  next
    case 2
    then show ?thesis using mn off assms(3)
      by (simp add: diff word_less_nat_alt unat_sub_if' word_unat_eq_iff)
  next
    case 3
    then have "unat t + 8 * i < unat t'" using mn assms(3) by simp
    then have "4096 \<le> unat ((t + 8 * of_nat i) - t')"
      using off frame_base_less [OF assms(2)] by (simp add: unat_sub_if')
    with 3 mn show ?thesis by (auto simp: diff word_less_nat_alt)
  qed
qed

section \<open>Effect of one store on the tables\<close>

lemma table_at_cong:
  assumes "cr3 s' = cr3 s" "PHYSICAL_MEMORY_OFFSET s' = PHYSICAL_MEMORY_OFFSET s"
    and "\<And>r j r' t. q = r @ j # r' \<Longrightarrow> table_at s r = Some t \<Longrightarrow>
      phys_mem s' (entry_ptr (PHYSICAL_MEMORY_OFFSET s + t) j) =
      phys_mem s (entry_ptr (PHYSICAL_MEMORY_OFFSET s + t) j)"
  shows "table_at s' q = table_at s q"
  using assms(3)
proof (induction q rule: rev_induct)
  case Nil
  then show ?case by (simp add: assms)
next
  case (snoc i q)
  have eq: "table_at s' q = table_at s q" by (rule snoc.IH) (auto intro: snoc.prems)
  show ?case
  proof (cases "table_at s q")
    case (Some t)
    then have "read_entry (PHYSICAL_MEMORY_OFFSET s + t) i s' = read_entry (PHYSICAL_MEMORY_OFFSET s + t) i s"
      using snoc.prems [of q i "[]" t] by (simp add: read_entry_def)
    then show ?thesis using eq Some by (simp add: descend_snoc assms(2))
  qed (use eq in \<open>simp add: descend_snoc\<close>)
qed

lemma entry_at_cong:
  assumes "table_at s' q = table_at s q" "PHYSICAL_MEMORY_OFFSET s' = PHYSICAL_MEMORY_OFFSET s"
    and "\<And>t. table_at s q = Some t \<Longrightarrow>
      phys_mem s' (entry_ptr (PHYSICAL_MEMORY_OFFSET s + t) j) =
      phys_mem s (entry_ptr (PHYSICAL_MEMORY_OFFSET s + t) j)"
  shows "entry_at s' q j = entry_at s q j"
  using assms by (cases "table_at s q") (simp_all add: entry_at_def read_entry_def)

lemma pt_wf_inj:
  "pt_wf s \<Longrightarrow> valid_path p \<Longrightarrow> valid_path q \<Longrightarrow> table_at s p = Some t \<Longrightarrow> table_at s q = Some t \<Longrightarrow> p = q"
  unfolding pt_wf_def by blast

lemma valid_path_append: "valid_path (r @ j # r') \<Longrightarrow> valid_path r \<and> j < 512"
  by (auto simp: valid_path_def)

lemma write_entry_mem:
  assumes "pt_wf s" "valid_path p" "table_at s p = Some t" "i < 512"
    and "valid_path q" "table_at s q = Some t'" "j < 512" "(q, j) \<noteq> (p, i)"
  shows "phys_mem (write_entry (PHYSICAL_MEMORY_OFFSET s + t) i e s) (entry_ptr (PHYSICAL_MEMORY_OFFSET s + t') j) =
    phys_mem s (entry_ptr (PHYSICAL_MEMORY_OFFSET s + t') j)"
proof -
  have "\<not> (t' = t \<and> j = i)" using pt_wf_inj [OF assms(1,2,5,3)] assms(6,8) by blast
  then show ?thesis
    using entry_ptr_inj table_at_frame_base assms(3,4,6,7) by (auto simp: write_entry_def)
qed

lemma write_entry_table_at:
  assumes "pt_wf s" "valid_path p" "table_at s p = Some t" "i < 512"
    and "valid_path q" "\<And>r. q \<noteq> p @ i # r"
  shows "table_at (write_entry (PHYSICAL_MEMORY_OFFSET s + t) i e s) q = table_at s q"
proof (rule table_at_cong)
  fix r j r' t'
  assume q: "q = r @ j # r'" and r: "table_at s r = Some t'"
  then have "valid_path r" "j < 512" "(r, j) \<noteq> (p, i)"
    using assms(5,6) valid_path_append by blast+
  then show "phys_mem (write_entry (PHYSICAL_MEMORY_OFFSET s + t) i e s)
      (entry_ptr (PHYSICAL_MEMORY_OFFSET s + t') j) =
      phys_mem s (entry_ptr (PHYSICAL_MEMORY_OFFSET s + t') j)"
    by (intro write_entry_mem [OF assms(1-4) _ r])
qed (simp_all add: write_entry_def)

lemma write_entry_entry_at:
  assumes "pt_wf s" "valid_path p" "table_at s p = Some t" "i < 512"
    and "valid_path q" "\<And>r. q \<noteq> p @ i # r" "j < 512"
  shows "entry_at (write_entry (PHYSICAL_MEMORY_OFFSET s + t) i e s) q j =
    (if (q, j) = (p, i) then Some e else entry_at s q j)"
proof (cases "(q, j) = (p, i)")
  case True
  then have "table_at (write_entry (PHYSICAL_MEMORY_OFFSET s + t) i e s) q = Some t"
    using write_entry_table_at [OF assms(1-6)] assms(3) by simp
  with True show ?thesis
    by (cases e) (simp add: entry_at_def read_entry_def write_entry_def)
next
  case False
  have "entry_at (write_entry (PHYSICAL_MEMORY_OFFSET s + t) i e s) q j = entry_at s q j"
    using write_entry_table_at [OF assms(1-6)] write_entry_mem [OF assms(1-5) _ assms(7) False]
    by (intro entry_at_cong) (simp_all add: write_entry_def)
  with False show ?thesis by auto
qed

lemma empty_table_mem:
  assumes "frame_base f" "table_at s q = Some t" "t \<noteq> f" "j < 512"
  shows "phys_mem (write_empty_table (PHYSICAL_MEMORY_OFFSET s + f) s) (entry_ptr (PHYSICAL_MEMORY_OFFSET s + t) j) =
    phys_mem s (entry_ptr (PHYSICAL_MEMORY_OFFSET s + t) j)"
  using entry_ptr_in_table [OF table_at_frame_base [OF assms(2)] assms(1,4)] assms(3)
  by (simp add: write_empty_table_def)

lemma empty_table_at:
  assumes "frame_base f" "valid_path q" "\<And>p. valid_path p \<Longrightarrow> table_at s p \<noteq> Some f"
  shows "table_at (write_empty_table (PHYSICAL_MEMORY_OFFSET s + f) s) q = table_at s q"
proof (rule table_at_cong)
  fix r j r' t
  assume "q = r @ j # r'" and r: "table_at s r = Some t"
  then have "valid_path r" "j < 512" using assms(2) valid_path_append by blast+
  then show "phys_mem (write_empty_table (PHYSICAL_MEMORY_OFFSET s + f) s)
      (entry_ptr (PHYSICAL_MEMORY_OFFSET s + t) j) =
      phys_mem s (entry_ptr (PHYSICAL_MEMORY_OFFSET s + t) j)"
    using r assms(3) by (intro empty_table_mem [OF assms(1) r]) auto
qed (simp_all add: write_empty_table_def)

lemma empty_table_entry_at:
  assumes "frame_base f" "valid_path q" "\<And>p. valid_path p \<Longrightarrow> table_at s p \<noteq> Some f" "j < 512"
  shows "entry_at (write_empty_table (PHYSICAL_MEMORY_OFFSET s + f) s) q j = entry_at s q j"
proof (rule entry_at_cong)
  show "table_at (write_empty_table (PHYSICAL_MEMORY_OFFSET s + f) s) q = table_at s q"
    by (rule empty_table_at [OF assms(1-3)])
  fix t assume t: "table_at s q = Some t"
  then show "phys_mem (write_empty_table (PHYSICAL_MEMORY_OFFSET s + f) s)
      (entry_ptr (PHYSICAL_MEMORY_OFFSET s + t) j) =
      phys_mem s (entry_ptr (PHYSICAL_MEMORY_OFFSET s + t) j)"
    using assms(2-4) by (intro empty_table_mem [OF assms(1) t]) auto
qed (simp add: write_empty_table_def)

section \<open>Translation through the paths\<close>

definition virt_path :: "u64 \<Rightarrow> nat list" where
  "virt_path v = (let (l4i, l3i, l2i, l1i, off) = split_indices v in [l4i, l3i, l2i, l1i])"

definition same_page :: "u64 \<Rightarrow> u64 \<Rightarrow> bool" where
  "same_page v w \<longleftrightarrow> virt_path v = virt_path w"

definition leaf_entry :: "u64 \<Rightarrow> paging \<Rightarrow> PageTableEntry option" where
  "leaf_entry v s = (let (l4i, l3i, l2i, l1i, off) = split_indices v in entry_at s [l4i, l3i, l2i] l1i)"

definition l3_result :: "paging \<Rightarrow> u64 \<Rightarrow> nat \<Rightarrow> nat \<Rightarrow> nat \<Rightarrow> nat \<Rightarrow> u64 option" where
  "l3_result s v a b c d =
    (case entry_at s [a] b of None \<Rightarrow> None
     | Some e3 \<Rightarrow>
         if \<not> is_present e3 then None
         else if contains (flags e3) HUGE_PAGE then Some (frame_addr e3 OR (v AND (push_bit 30 1 - 1)))
         else case entry_at s [a, b] c of None \<Rightarrow> None
         | Some e2 \<Rightarrow>
             if \<not> is_present e2 then None
             else if contains (flags e2) HUGE_PAGE then Some (frame_addr e2 OR (v AND (push_bit 21 1 - 1)))
             else case entry_at s [a, b, c] d of None \<Rightarrow> None
             | Some e1 \<Rightarrow> if \<not> is_present e1 then None else Some (frame_addr e1 OR (v AND 0xFFF)))"

lemma unat_and_1FF: "unat (w AND 0x1FF) < 512" for w :: u64
  using word_and_le1 [of w "0x1FF"] by (simp add: word_le_nat_alt)

lemma split_indices_less:
  "split_indices v = (a, b, c, d, off) \<Longrightarrow> a < 512 \<and> b < 512 \<and> c < 512 \<and> d < 512"
  by (auto simp: split_indices_def unat_and_1FF)

lemma translate_by_entries:
  assumes "pt_wf s" "split_indices v = (a, b, c, d, off)"
  shows "translate v s = l3_result s v a b c d"
proof -
  let ?o = "PHYSICAL_MEMORY_OFFSET s"
  note lt = split_indices_less [OF assms(2)]
  have off: "off = v AND 0xFFF" using assms(2) by (simp add: split_indices_def)
  have o: "?o \<noteq> u64_MAX" using assms(1) by (simp add: pt_wf_def)
  let ?e4 = "read_entry (?o + (cr3 s AND PHYS_ADDR_MASK)) a s"
  have "is_present ?e4 \<Longrightarrow> \<not> contains (flags ?e4) HUGE_PAGE"
    using assms(1) lt by (simp add: pt_wf_def entry_at_def)
  then show ?thesis
    by (auto simp: translate_def assms(2) o l3_result_def entry_at_def Let_def off)
qed

lemma l3_result_cong:
  assumes "entry_at s' [a] b = entry_at s [a] b" "entry_at s' [a, b] c = entry_at s [a, b] c"
    "entry_at s' [a, b, c] d = entry_at s [a, b, c] d"
  shows "l3_result s' v a b c d = l3_result s v a b c d"
  unfolding l3_result_def assms by (rule refl)

text \<open>The same walk as an \<open>unmap\<close> or \<open>map\<close> performs it, up to the last table.\<close>

lemma next_table_at:
  assumes "pt_wf s" "table_at s p = Some t"
  shows "next_table (PHYSICAL_MEMORY_OFFSET s + t) i s =
    (case entry_at s p i of
       None \<Rightarrow> Err NotMapped
     | Some e \<Rightarrow> if \<not> is_present e then Err NotMapped
         else if contains (flags e) HUGE_PAGE then Err HugePageConflict
         else Ok (PHYSICAL_MEMORY_OFFSET s + frame_addr e))"
  using assms by (simp add: next_table_def entry_at_def Let_def phys_to_virt_def phys_offset_def pt_wf_def)

lemma active_l4_at:
  assumes "pt_wf s"
  shows "active_l4 s = Ok (PHYSICAL_MEMORY_OFFSET s + (cr3 s AND PHYS_ADDR_MASK))"
  using assms by (simp add: active_l4_def phys_to_virt_def phys_offset_def pt_wf_def Let_def)

section \<open>Walking with creation\<close>

lemma pt_wf_table_not_free:
  "pt_wf s \<Longrightarrow> valid_path p \<Longrightarrow> table_at s p = Some t \<Longrightarrow> unat t div 4096 \<notin> free_frames_of s"
  unfolding pt_wf_def by blast

lemma alloc_frame_facts:
  assumes "pt_wf s" "alloc_frame (frame_alloc s) = (Some f, fs)"
  shows "frame_base (start_address f)" "alloc_inv (FRAME_ALLOCATOR fs)"
    "free_set (FRAME_ALLOCATOR fs) = free_frames_of s - {frame_index f}"
    "frame_index f \<in> free_frames_of s"
    "\<And>p. valid_path p \<Longrightarrow> table_at s p \<noteq> Some (start_address f)"
proof -
  obtain a where al: "allocate_frame (FRAME_ALLOCATOR (frame_alloc s)) = (Some f, a)"
    and fs: "fs = (frame_alloc s)\<lparr>FRAME_ALLOCATOR := a\<rparr>"
    using assms(2) by (auto simp: alloc_frame_def split: prod.splits)
  have inv: "alloc_inv (FRAME_ALLOCATOR (frame_alloc s))" using assms(1) by (simp add: pt_wf_def)
  note some = allocate_frame_Some [OF inv al]
  have "unat (start_address f) div 4096 < 8388608"
    using some(2) by (simp add: free_bits_def kconst)
  then show "frame_base (start_address f)"
    by (intro frame_baseI some(4)) (simp add: div_less_iff_less_mult)
  show "alloc_inv (FRAME_ALLOCATOR fs)" "free_set (FRAME_ALLOCATOR fs) = free_frames_of s - {frame_index f}"
    "frame_index f \<in> free_frames_of s"
    using some fs by simp_all
  then show "\<And>p. valid_path p \<Longrightarrow> table_at s p \<noteq> Some (start_address f)"
    using pt_wf_table_not_free [OF assms(1)] by auto
qed

definition created :: "nat list \<Rightarrow> nat \<Rightarrow> PageTableEntry \<Rightarrow> paging \<Rightarrow> paging \<Rightarrow> bool" where
  "created p i e s s' \<longleftrightarrow>
    (\<forall>q j. valid_path q \<longrightarrow> j < 512 \<longrightarrow>
       entry_at s' q j =
         (if (q, j) = (p, i) then Some e else if q = p @ [i] then Some (PageTableEntry 0)
          else entry_at s q j)) \<and>
    (\<forall>q. valid_path q \<longrightarrow> table_at s' q = (if q = p @ [i] then Some (frame_addr e) else table_at s q))"

lemma descend_append:
  "descend s t (p @ q) = (case descend s t p of None \<Rightarrow> None | Some t' \<Rightarrow> descend s t' q)"
  by (induction p arbitrary: t) (simp_all add: Let_def)

lemma descend_frame_alloc [simp]: "descend (s\<lparr>frame_alloc := fs\<rparr>) t q = descend s t q"
  by (induction q arbitrary: t) (simp_all add: read_entry_def Let_def)

lemma entry_at_frame_alloc [simp]: "entry_at (s\<lparr>frame_alloc := fs\<rparr>) q j = entry_at s q j"
  by (simp add: entry_at_def read_entry_def)

lemma pt_wf_cong:
  assumes "pt_wf s" "PHYSICAL_MEMORY_OFFSET s' = PHYSICAL_MEMORY_OFFSET s"
    "\<And>q. valid_path q \<Longrightarrow> table_at s' q = table_at s q"
    "\<And>j. j < 512 \<Longrightarrow> entry_at s' [] j = entry_at s [] j"
    "alloc_inv (FRAME_ALLOCATOR (frame_alloc s'))" "free_frames_of s' \<subseteq> free_frames_of s"
  shows "pt_wf s'"
  unfolding pt_wf_def
proof (intro conjI allI impI)
  show "PHYSICAL_MEMORY_OFFSET s' \<noteq> u64_MAX" using assms(1,2) by (simp add: pt_wf_def)
  show "p = q" if "valid_path p" "valid_path q" "table_at s' p = Some t" "table_at s' q = Some t" for p q t
    using pt_wf_inj [OF assms(1) that(1,2)] that assms(3) by simp
  show "unat t div 4096 \<notin> free_frames_of s'" if "valid_path p" "table_at s' p = Some t" for p t
    using pt_wf_table_not_free [OF assms(1) that(1)] that assms(3,6) by auto
  show "\<not> contains (flags e) HUGE_PAGE" if "i < 512" "entry_at s' [] i = Some e" "is_present e" for i e
    using assms(1,4) that by (simp add: pt_wf_def)
qed (rule assms(5))

lemma create_created:
  assumes wf: "pt_wf s" and p: "valid_path p" "length p < 3" "table_at s p = Some t" "i < 512"
    and absent: "table_at s (p @ [i]) = None"
    and f: "frame_base f" "\<And>q. valid_path q \<Longrightarrow> table_at s q \<noteq> Some f"
    and e: "is_present e" "\<not> contains (flags e) HUGE_PAGE" "frame_addr e = f"
  shows "created p i e s
    (write_entry (PHYSICAL_MEMORY_OFFSET s + t) i e (write_empty_table (PHYSICAL_MEMORY_OFFSET s + f) s))"
    (is "created p i e s ?s3")
proof -
  let ?s2 = "write_empty_table (PHYSICAL_MEMORY_OFFSET s + f) s"
  have o2: "PHYSICAL_MEMORY_OFFSET ?s2 = PHYSICAL_MEMORY_OFFSET s" "cr3 ?s2 = cr3 s"
    "frame_alloc ?s2 = frame_alloc s"
    by (simp_all add: write_empty_table_def)
  have t2: "table_at ?s2 q = table_at s q" if "valid_path q" for q
    using f that by (intro empty_table_at) auto
  have e2: "entry_at ?s2 q j = entry_at s q j" if "valid_path q" "j < 512" for q j
    using f that by (intro empty_table_entry_at) auto
  have wf2: "pt_wf ?s2"
    by (rule pt_wf_cong [OF wf o2(1)]) (use wf t2 e2 o2 in \<open>simp_all add: pt_wf_def\<close>)
  have p2: "table_at ?s2 p = Some t" using t2 [OF p(1)] p(3) by simp
  have entry3: "entry_at ?s3 q j = (if (q, j) = (p, i) then Some e else entry_at s q j)"
    if "valid_path q" "j < 512" "\<And>r. q \<noteq> p @ i # r" for q j
    using write_entry_entry_at [OF wf2 p(1) p2 p(4) that(1,3,2)] e2 [OF that(1,2)] by (simp add: o2)
  have table3: "table_at ?s3 q = table_at s q" if "valid_path q" "\<And>r. q \<noteq> p @ i # r" for q
    using write_entry_table_at [OF wf2 p(1) p2 p(4) that] t2 [OF that(1)] by (simp add: o2)
  have new: "table_at ?s3 (p @ [i]) = Some f"
    using entry3 [of p i] p(1,4) e by (simp add: table_at_snoc)
  have "f \<noteq> t" using f(2) p(1,3) by blast
  then have zero: "read_entry (PHYSICAL_MEMORY_OFFSET s + f) j ?s3 = PageTableEntry 0" if "j < 512" for j
    using entry_ptr_inj [OF f(1) table_at_frame_base [OF p(3)] that p(4)]
      entry_ptr_in_table [OF f(1) f(1) that]
    by (simp add: read_entry_def write_entry_def write_empty_table_def PageTableEntry_empty_def)
  have below3: "table_at ?s3 (p @ i # j # r) = None" if "j < 512" for j r
    using descend_append [of ?s3 _ "p @ [i]" "j # r"] new zero [OF that]
    by (simp add: write_entry_def write_empty_table_def)
  have below: "table_at s (p @ i # r) = None" for r
    using descend_append [of s _ "p @ [i]" r] absent by simp
  have "(\<forall>j < 512. entry_at ?s3 q j = (if (q, j) = (p, i) then Some e else if q = p @ [i]
        then Some (PageTableEntry 0) else entry_at s q j)) \<and>
      table_at ?s3 q = (if q = p @ [i] then Some (frame_addr e) else table_at s q)"
    if q: "valid_path q" for q
  proof -
    consider (other) "\<And>r. q \<noteq> p @ i # r" | (here) "q = p @ [i]" | (deep) j' r where "q = p @ i # j' # r"
      by (metis list.exhaust)
    then show ?thesis
    proof cases
      case other
      then have "q \<noteq> p @ [i]" by blast
      then show ?thesis using entry3 [OF q _ other] table3 [OF q other] by simp
    next
      case here
      then show ?thesis using new zero e(3)
        by (simp add: entry_at_def write_entry_def write_empty_table_def)
    next
      case (deep j' r)
      then have "j' < 512" using q by (simp add: valid_path_def)
      with deep show ?thesis using below3 [of j' r] below [of "j' # r"] by (simp add: entry_at_def)
    qed
  qed
  then show ?thesis by (simp add: created_def)
qed

lemma created_pt_wf:
  assumes wf: "pt_wf s" and c: "created p i e s s'"
    and p: "valid_path (p @ [i])" and e: "is_present e" "\<not> contains (flags e) HUGE_PAGE"
    and fresh: "\<And>q. valid_path q \<Longrightarrow> table_at s q \<noteq> Some (frame_addr e)"
    and s': "PHYSICAL_MEMORY_OFFSET s' = PHYSICAL_MEMORY_OFFSET s"
      "alloc_inv (FRAME_ALLOCATOR (frame_alloc s'))"
      "free_frames_of s' \<subseteq> free_frames_of s - {unat (frame_addr e) div 4096}"
  shows "pt_wf s'"
  unfolding pt_wf_def
proof (intro conjI allI impI)
  have tab: "table_at s' q = (if q = p @ [i] then Some (frame_addr e) else table_at s q)"
    if "valid_path q" for q using c that by (simp add: created_def)
  show "PHYSICAL_MEMORY_OFFSET s' \<noteq> u64_MAX" using wf s'(1) by (simp add: pt_wf_def)
  show "q = r" if "valid_path q" "valid_path r" "table_at s' q = Some t" "table_at s' r = Some t" for q r t
    using pt_wf_inj [OF wf that(1,2)] that tab fresh [OF that(1)] fresh [OF that(2)]
    by (auto split: if_splits)
  show "unat t div 4096 \<notin> free_frames_of s'" if "valid_path q" "table_at s' q = Some t" for q t
    using pt_wf_table_not_free [OF wf that(1)] that tab s'(3) by (auto split: if_splits)
  show "\<not> contains (flags x) HUGE_PAGE" if "j < 512" "entry_at s' [] j = Some x" "is_present x" for j x
  proof -
    have "entry_at s' [] j = (if ([], j) = (p, i) then Some e else entry_at s [] j)"
      using c that(1) by (simp add: created_def)
    then show ?thesis using wf that e by (auto simp: pt_wf_def split: if_splits)
  qed
qed (rule s'(2))

lemma created_translate:
  assumes "pt_wf s" "pt_wf s'" "created p i e s s'" "valid_path (p @ [i])"
    and "\<not> contains (flags e) HUGE_PAGE" "\<And>e0. entry_at s p i = Some e0 \<Longrightarrow> \<not> is_present e0"
  shows "translate v s' = translate v s"
proof -
  obtain a b c d off where ix: "split_indices v = (a, b, c, d, off)" by (cases "split_indices v")
  note lt = split_indices_less [OF ix]
  have en: "entry_at s' q j = (if (q, j) = (p, i) then Some e else if q = p @ [i]
      then Some (PageTableEntry 0) else entry_at s q j)" if "valid_path q" "j < 512" for q j
    using assms(3) that by (simp add: created_def)
  have v: "valid_path [a]" "valid_path [a, b]" "valid_path [a, b, c]"
    using lt by (simp_all add: valid_path_def)
  have absent: "table_at s (p @ [i]) = None"
    using assms(6) by (auto simp: table_at_snoc split: option.splits)
  then have deep: "entry_at s (p @ i # r) j = None" for r j
    using descend_append [of s _ "p @ [i]" r] by (simp add: entry_at_def)
  have "length p < 3" using assms(4) by simp
  then have "length p = 0 \<or> length p = 1 \<or> length p = 2" by linarith
  then consider "p = []" | x where "p = [x]" | x y where "p = [x, y]"
    by (auto simp: length_Suc_conv numeral_2_eq_2)
  then have "l3_result s' v a b c d = l3_result s v a b c d"
  proof cases
    case 1
    show ?thesis
    proof (cases "a = i")
      case True
      then show ?thesis using deep [of "[]"] en [OF v(1)] lt 1 by (simp add: l3_result_def)
    next
      case False
      then show ?thesis using en v lt 1 by (intro l3_result_cong) simp_all
    qed
  next
    case (2 x)
    show ?thesis
    proof (cases "a = x \<and> b = i")
      case True
      then show ?thesis using en [OF v(1)] en [OF v(2)] lt 2 assms(5,6)
        by (auto simp: l3_result_def split: option.split)
    next
      case False
      then show ?thesis using en v lt 2 by (intro l3_result_cong) auto
    qed
  next
    case (3 x y)
    show ?thesis
    proof (cases "a = x \<and> b = y \<and> c = i")
      case True
      then show ?thesis using en [OF v(1)] en [OF v(2)] en [OF v(3)] lt 3 assms(5,6)
        by (auto simp: l3_result_def split: option.split)
    next
      case False
      then show ?thesis using en v lt 3 by (intro l3_result_cong) auto
    qed
  qed
  then show ?thesis
    by (simp add: translate_by_entries [OF assms(1) ix] translate_by_entries [OF assms(2) ix])
qed
definition new_tables :: "paging \<Rightarrow> paging \<Rightarrow> bool" where
  "new_tables s s' \<longleftrightarrow> (\<forall>q t. valid_path q \<longrightarrow> table_at s' q = Some t \<longrightarrow>
    table_at s q = Some t \<or> unat t div 4096 \<in> free_frames_of s - free_frames_of s')"

lemma new_tables_refl: "new_tables s s"
  by (simp add: new_tables_def)

lemma new_tables_trans:
  assumes "new_tables s s'" "new_tables s' s''" "free_frames_of s' \<subseteq> free_frames_of s"
    "free_frames_of s'' \<subseteq> free_frames_of s'"
  shows "new_tables s s''"
  using assms unfolding new_tables_def by blast

definition walk_step :: "nat \<Rightarrow> paging \<Rightarrow> paging \<Rightarrow> bool" where
  "walk_step n s s' \<longleftrightarrow>
    cr3 s' = cr3 s \<and> PHYSICAL_MEMORY_OFFSET s' = PHYSICAL_MEMORY_OFFSET s \<and> tlb s' = tlb s \<and>
    pt_wf s' \<and> (\<forall>v. translate v s' = translate v s) \<and>
    free_frames_of s' \<subseteq> free_frames_of s \<and> card (free_frames_of s) \<le> card (free_frames_of s') + n \<and>
    (\<forall>q j e. valid_path q \<longrightarrow> j < 512 \<longrightarrow> entry_at s q j = Some e \<longrightarrow> is_present e \<longrightarrow> entry_at s' q j = Some e) \<and>
    new_tables s s'"

lemma walk_step_refl: "pt_wf s \<Longrightarrow> walk_step n s s"
  by (simp add: walk_step_def new_tables_refl)

lemma walk_step_trans: "walk_step m s s' \<Longrightarrow> walk_step n s' s'' \<Longrightarrow> walk_step (m + n) s s''"
  unfolding walk_step_def by (elim conjE, intro conjI) (auto intro: new_tables_trans)

lemma walk_step_mono: "walk_step m s s' \<Longrightarrow> m \<le> n \<Longrightarrow> walk_step n s s'"
  unfolding walk_step_def by auto

lemma bit_flag_consts:
  "bit (bits PRESENT) n \<longleftrightarrow> n = 0" "bit (bits WRITABLE) n \<longleftrightarrow> n = 1" "bit (bits USER) n \<longleftrightarrow> n = 2"
  unfolding PRESENT_def WRITABLE_def USER_def bits.simps push_bit_of_1 bit_two_power by auto

lemma bit_flags_ops:
  "bit (bits (flags_or x y)) n \<longleftrightarrow> bit (bits x) n \<or> bit (bits y) n"
  "bit (bits (flags_and x y)) n \<longleftrightarrow> bit (bits x) n \<and> bit (bits y) n"
  by (simp_all add: flags_or_def flags_and_def bit_or_iff bit_and_iff)

lemma addr_free_iff: "addr_free fl \<longleftrightarrow> (\<forall>n. 12 \<le> n \<longrightarrow> n < 52 \<longrightarrow> \<not> bit (bits fl) n)"
proof (intro iffI allI impI)
  fix n :: nat
  assume "addr_free fl" "12 \<le> n" "n < 52"
  moreover from this(1) have "\<not> bit (bits fl AND PHYS_ADDR_MASK) n" by (simp add: addr_free_def)
  ultimately show "\<not> bit (bits fl) n" by (simp add: bit_and_iff)
next
  assume "\<forall>n. 12 \<le> n \<longrightarrow> n < 52 \<longrightarrow> \<not> bit (bits fl) n"
  then show "addr_free fl" unfolding addr_free_def by (intro bit_word_eqI) (auto simp: bit_and_iff)
qed

definition intermediate :: "PageFlags \<Rightarrow> PageFlags" where
  "intermediate pf = flags_or (flags_or PRESENT WRITABLE) (flags_and pf USER)"

lemma intermediate_facts:
  "addr_free (intermediate pf)" "bit (bits (intermediate pf)) 0" "\<not> bit (bits (intermediate pf)) 7"
  by (simp_all add: intermediate_def addr_free_iff bit_flags_ops bit_flag_consts)

lemma alloc_frame_None:
  assumes "pt_wf s" "alloc_frame (frame_alloc s) = (None, fs)"
  shows "fs = frame_alloc s" "free_frames_of s = {}"
proof -
  have "alloc_inv (FRAME_ALLOCATOR (frame_alloc s))" using assms(1) by (simp add: pt_wf_def)
  note none = allocate_frame_None [OF this]
  from assms(2) show "fs = frame_alloc s" "free_frames_of s = {}"
    using none by (auto simp: alloc_frame_def split: prod.splits)
qed

lemma create_step:
  fixes pf :: PageFlags
  assumes wf: "pt_wf s" and p: "valid_path (p @ [i])" "table_at s p = Some t"
    and absent: "entry_at s p i = Some e0" "\<not> is_present e0"
    and al: "alloc_frame (frame_alloc s) = (Some f, fs)"
  defines "e \<equiv> entry_set (start_address f) (intermediate pf)"
  defines "s' \<equiv> write_entry (PHYSICAL_MEMORY_OFFSET s + t) i e
    (write_empty_table (PHYSICAL_MEMORY_OFFSET s + start_address f) (s\<lparr>frame_alloc := fs\<rparr>))"
  shows "walk_step 1 s s'" "table_at s' (p @ [i]) = Some (start_address f)"
    "entry_at s' p i = Some e" "frame_addr e = start_address f"
proof -
  let ?s1 = "s\<lparr>frame_alloc := fs\<rparr>"
  note fr = alloc_frame_facts [OF wf al]
  have e: "is_present e" "\<not> contains (flags e) HUGE_PAGE" "frame_addr e = start_address f"
    using intermediate_facts [of pf] fr(1) by (simp_all add: e_def huge_entry_set frame_base_def)
  have s': "PHYSICAL_MEMORY_OFFSET s' = PHYSICAL_MEMORY_OFFSET s" "cr3 s' = cr3 s" "tlb s' = tlb s"
    "frame_alloc s' = fs"
    by (simp_all add: s'_def write_entry_def write_empty_table_def)
  have wf1: "pt_wf ?s1"
    by (rule pt_wf_cong [OF wf]) (use fr in auto)
  have "created p i e ?s1 s'"
    unfolding s'_def
    using create_created [OF wf1, of p t i "start_address f" e] p absent e fr
    by (simp add: table_at_snoc)
  then have cre: "created p i e s s'" by (simp add: created_def)
  have wf': "pt_wf s'"
    by (rule created_pt_wf [OF wf cre p(1) e(1,2)]) (use fr s' e in simp_all)
  have "card (free_frames_of s) \<le> card (free_frames_of s') + 1"
    using s'(4) fr(3) by (cases "card (free_frames_of s)") (simp_all add: card_Diff_singleton_if)
  moreover have "entry_at s' q j = Some x"
    if "valid_path q" "j < 512" "entry_at s q j = Some x" "is_present x" for q j x
  proof -
    have "table_at s (p @ [i]) = None" using absent by (simp add: table_at_snoc)
    then have "q \<noteq> p @ [i]" using that(3) by (auto simp: entry_at_def)
    moreover have "(q, j) \<noteq> (p, i)" using that(3,4) absent by auto
    ultimately show ?thesis using cre that by (auto simp: created_def)
  qed
  moreover have "new_tables s s'"
    using cre e(3) s'(4) fr(3,4) unfolding new_tables_def created_def by (auto split: if_splits)
  ultimately show "walk_step 1 s s'"
    unfolding walk_step_def
    using s' wf' fr(3) created_translate [OF wf wf' cre p(1) e(2)] absent by auto
  show "table_at s' (p @ [i]) = Some (start_address f)" "entry_at s' p i = Some e"
    using cre p(1) e(3) by (simp_all add: created_def)
  show "frame_addr e = start_address f" by (rule e(3))
qed

lemma next_table_or_create_cases:
  assumes wf: "pt_wf s" and p: "valid_path (p @ [i])" "table_at s p = Some t"
    and res: "next_table_or_create (PHYSICAL_MEMORY_OFFSET s + t) i pf s = (r, s')"
  obtains (ok) t' where "r = Ok (PHYSICAL_MEMORY_OFFSET s + t')" "walk_step 1 s s'" "table_at s' (p @ [i]) = Some t'"
  | (huge) e where "r = Err HugePageConflict" "s' = s" "entry_at s p i = Some e" "is_present e"
      "contains (flags e) HUGE_PAGE"
  | (full) e where "r = Err OutOfFrames" "s' = s" "free_frames_of s = {}" "entry_at s p i = Some e"
      "\<not> is_present e"
proof -
  let ?o = "PHYSICAL_MEMORY_OFFSET s"
  define e where "e = read_entry (?o + t) i s"
  have ent: "entry_at s p i = Some e" using p(2) by (simp add: entry_at_def e_def)
  have ptv: "phys_to_virt x u = Ok (?o + x)" if "PHYSICAL_MEMORY_OFFSET u = ?o" for x u
    using that wf by (simp add: phys_to_virt_def phys_offset_def pt_wf_def)
  note step = next_table_or_create_def [of "?o + t" i pf s, folded e_def, unfolded Let_def]
  show thesis
  proof (cases "is_present e")
    case present: True
    show thesis
    proof (cases "contains (flags e) HUGE_PAGE")
      case True
      then show thesis using res present ent by (intro huge) (simp_all add: step)
    next
      case False
      then have "r = Ok (?o + frame_addr e)" "s' = s"
        using res present by (auto simp: step ptv e_def [symmetric])
      then show thesis using False present ent walk_step_refl [OF wf]
        by (intro ok [of "frame_addr e"]) (simp_all add: table_at_snoc)
    qed
  next
    case absent: False
    obtain m fs where al: "alloc_frame (frame_alloc s) = (m, fs)" by fastforce
    show thesis
    proof (cases m)
      case None
      then have "fs = frame_alloc s" "free_frames_of s = {}" using al alloc_frame_None [OF wf] by simp_all
      then show thesis using res absent ent al None by (intro full [of e]) (simp_all add: step)
    next
      case (Some f)
      note cs = create_step [where pf = pf, OF wf p ent absent al [unfolded Some]]
      let ?s1 = "s\<lparr>frame_alloc := fs\<rparr>"
      let ?e = "entry_set (start_address f) (intermediate pf)"
      let ?s3 = "write_entry (?o + t) i ?e (write_empty_table (?o + start_address f) ?s1)"
      have o3: "PHYSICAL_MEMORY_OFFSET ?s3 = ?o"
        by (simp add: write_entry_def write_empty_table_def)
      have rd: "read_entry (?o + t) i ?s3 = ?e"
        by (cases ?e) (simp add: read_entry_def write_entry_def)
      have "r = Ok (?o + start_address f)" "s' = ?s3"
        using res absent al Some cs(4) rd ptv [of ?s1] ptv [OF o3]
        by (simp_all add: step intermediate_def [symmetric])
      then show thesis using cs by (intro ok [of "start_address f"]) simp_all
    qed
  qed
qed

section \<open>What the walk says about the translation\<close>

lemma entry_at_parent:
  assumes "entry_at s (p @ [i]) j = Some e"
  obtains e' where "entry_at s p i = Some e'" "is_present e'" "\<not> contains (flags e') HUGE_PAGE"
proof -
  from assms obtain t where "table_at s (p @ [i]) = Some t" by (auto simp: entry_at_def)
  then show thesis by (auto simp: table_at_snoc intro: that split: option.splits if_splits)
qed

lemma translate_at_levels:
  assumes "pt_wf s" and ix: "split_indices v = (a, b, c, d, off)"
  shows "entry_at s [] a = Some e \<Longrightarrow> \<not> is_present e \<Longrightarrow> translate v s = None"
    and "entry_at s [a] b = Some e \<Longrightarrow> \<not> is_present e \<Longrightarrow> translate v s = None"
    and "entry_at s [a, b] c = Some e \<Longrightarrow> \<not> is_present e \<Longrightarrow> translate v s = None"
    and "entry_at s [a] b = Some e \<Longrightarrow> is_present e \<Longrightarrow> contains (flags e) HUGE_PAGE \<Longrightarrow> translate v s \<noteq> None"
    and "entry_at s [a, b] c = Some e \<Longrightarrow> is_present e \<Longrightarrow> contains (flags e) HUGE_PAGE \<Longrightarrow> translate v s \<noteq> None"
    and "entry_at s [a, b, c] d = Some e \<Longrightarrow>
      translate v s = (if is_present e then Some (frame_addr e OR (v AND 0xFFF)) else None)"
proof -
  note tr = translate_by_entries [OF assms]
  have p1: "\<exists>e'. entry_at s [a] b = Some e' \<and> is_present e' \<and> \<not> contains (flags e') HUGE_PAGE"
    if "entry_at s [a, b] c = Some x" for x
    using that entry_at_parent [of s "[a]" b c x] by auto
  have p2: "\<exists>e'. entry_at s [a, b] c = Some e' \<and> is_present e' \<and> \<not> contains (flags e') HUGE_PAGE"
    if "entry_at s [a, b, c] d = Some x" for x
    using that entry_at_parent [of s "[a, b]" c d x] by auto
  show "entry_at s [] a = Some e \<Longrightarrow> \<not> is_present e \<Longrightarrow> translate v s = None"
    using table_at_snoc [of s "[]" a] by (simp add: tr l3_result_def entry_at_def)
  show "entry_at s [a] b = Some e \<Longrightarrow> \<not> is_present e \<Longrightarrow> translate v s = None"
    by (simp add: tr l3_result_def)
  show "entry_at s [a] b = Some e \<Longrightarrow> is_present e \<Longrightarrow> contains (flags e) HUGE_PAGE \<Longrightarrow> translate v s \<noteq> None"
    by (simp add: tr l3_result_def)
  show "entry_at s [a, b] c = Some e \<Longrightarrow> \<not> is_present e \<Longrightarrow> translate v s = None"
    using p1 by (auto simp: tr l3_result_def)
  show "entry_at s [a, b] c = Some e \<Longrightarrow> is_present e \<Longrightarrow> contains (flags e) HUGE_PAGE \<Longrightarrow> translate v s \<noteq> None"
    using p1 by (auto simp: tr l3_result_def)
  show "entry_at s [a, b, c] d = Some e \<Longrightarrow>
      translate v s = (if is_present e then Some (frame_addr e OR (v AND 0xFFF)) else None)"
    using p1 p2 by (force simp: tr l3_result_def)
qed

lemma pt_wf_l4_not_huge:
  "pt_wf s \<Longrightarrow> i < 512 \<Longrightarrow> entry_at s [] i = Some e \<Longrightarrow> is_present e \<Longrightarrow> \<not> contains (flags e) HUGE_PAGE"
  by (simp add: pt_wf_def)

text \<open>Changing one entry of a last-level table changes the translation of that page only.\<close>

lemma leaf_write:
  fixes e :: PageTableEntry
  assumes wf: "pt_wf s" and ix: "split_indices v = (a, b, c, d, off)"
    and t: "table_at s [a, b, c] = Some t"
  defines "s' \<equiv> write_entry (PHYSICAL_MEMORY_OFFSET s + t) d e s"
  shows "pt_wf s'"
    and "translate w s' =
      (if same_page v w then (if is_present e then Some (frame_addr e OR (w AND 0xFFF)) else None)
       else translate w s)"
    and "valid_path q \<Longrightarrow> j < 512 \<Longrightarrow>
      entry_at s' q j = (if (q, j) = ([a, b, c], d) then Some e else entry_at s q j)"
    and "valid_path q \<Longrightarrow> table_at s' q = table_at s q"
proof -
  note lt = split_indices_less [OF ix]
  have p: "valid_path [a, b, c]" using lt by (simp add: valid_path_def)
  have nx: "q \<noteq> [a, b, c] @ d # r" if "valid_path q" for q r
    using that by (auto simp: valid_path_def)
  have tab: "table_at s' q = table_at s q" if "valid_path q" for q
    unfolding s'_def using nx that lt by (intro write_entry_table_at [OF wf p t]) auto
  then show "valid_path q \<Longrightarrow> table_at s' q = table_at s q" .
  have ent: "entry_at s' q j = (if (q, j) = ([a, b, c], d) then Some e else entry_at s q j)"
    if "valid_path q" "j < 512" for q j
    unfolding s'_def using nx that lt by (intro write_entry_entry_at [OF wf p t]) auto
  then show "valid_path q \<Longrightarrow> j < 512 \<Longrightarrow>
      entry_at s' q j = (if (q, j) = ([a, b, c], d) then Some e else entry_at s q j)" .
  show wf': "pt_wf s'"
    by (rule pt_wf_cong [OF wf _ tab])
      (use ent wf in \<open>auto simp: s'_def write_entry_def pt_wf_def\<close>)
  show "translate w s' =
      (if same_page v w then (if is_present e then Some (frame_addr e OR (w AND 0xFFF)) else None)
       else translate w s)"
  proof (cases "same_page v w")
    case True
    then obtain off' where ix': "split_indices w = (a, b, c, d, off')"
      using ix by (cases "split_indices w") (auto simp: same_page_def virt_path_def)
    show ?thesis using translate_at_levels(6) [OF wf' ix'] ent [OF p] lt True by simp
  next
    case False
    obtain a' b' c' d' off' where ix': "split_indices w = (a', b', c', d', off')"
      by (cases "split_indices w")
    have "([a', b', c'], d') \<noteq> ([a, b, c], d)"
      using False ix ix' by (auto simp: same_page_def virt_path_def)
    then have "l3_result s' w a' b' c' d' = l3_result s w a' b' c' d'"
      using split_indices_less [OF ix'] by (intro l3_result_cong) (subst ent; auto simp: valid_path_def)+
    with False show ?thesis by (simp add: translate_by_entries [OF _ ix'] wf wf')
  qed
qed

section \<open>The operations\<close>

definition walk_to_l1 ::
  "PageFlags \<Rightarrow> nat \<Rightarrow> nat \<Rightarrow> nat \<Rightarrow> paging \<Rightarrow> (MapError + u64) \<times> paging" where
  "walk_to_l1 fl a b c s =
    then_try (active_l4 s, s) (\<lambda>l4 s. then_try (next_table_or_create l4 a fl s) (\<lambda>l3 s.
      then_try (next_table_or_create l3 b fl s) (\<lambda>l2 s. next_table_or_create l2 c fl s)))"

definition walk_failed :: "u64 \<Rightarrow> paging \<Rightarrow> paging \<Rightarrow> MapError \<Rightarrow> bool" where
  "walk_failed v s s' e \<longleftrightarrow> walk_step 3 s s' \<and>
    (e = OutOfFrames \<and> translate v s = None \<and> free_frames_of s' = {} \<or>
     (e = AlreadyMapped \<or> e = HugePageConflict) \<and> translate v s \<noteq> None)"

lemma walk_step_facts:
  assumes "walk_step n s s'"
  shows "pt_wf s'" "PHYSICAL_MEMORY_OFFSET s' = PHYSICAL_MEMORY_OFFSET s" "translate v s' = translate v s"
  using assms by (auto simp: walk_step_def)

lemma translate_on_path:
  assumes wf: "pt_wf s" and ix: "split_indices v = (a, b, c, d, off)"
    and p: "p @ [i] \<in> {[a], [a, b], [a, b, c]}" and e: "entry_at s p i = Some e"
  shows "\<not> is_present e \<Longrightarrow> translate v s = None"
    and "is_present e \<Longrightarrow> contains (flags e) HUGE_PAGE \<Longrightarrow> translate v s \<noteq> None"
proof -
  note lv = translate_at_levels [OF wf ix]
  have "p = [] \<and> i = a \<or> p = [a] \<and> i = b \<or> p = [a, b] \<and> i = c"
    using p by (auto simp: append_eq_Cons_conv)
  then show "\<not> is_present e \<Longrightarrow> translate v s = None"
    "is_present e \<Longrightarrow> contains (flags e) HUGE_PAGE \<Longrightarrow> translate v s \<noteq> None"
    using e lv(1-5) pt_wf_l4_not_huge [OF wf] split_indices_less [OF ix] by blast+
qed

lemma walk_level:
  assumes w: "walk_step n s s1" "n < 3" and ix: "split_indices v = (a, b, c, d, off)"
    and p: "p @ [i] \<in> {[a], [a, b], [a, b, c]}" "table_at s1 p = Some t"
    and res: "next_table_or_create (PHYSICAL_MEMORY_OFFSET s + t) i fl s1 = (r, s')"
  obtains (fail) e where "r = Err e" "walk_failed v s s' e"
  | (go) t' where "r = Ok (PHYSICAL_MEMORY_OFFSET s + t')" "walk_step (Suc n) s s'" "table_at s' (p @ [i]) = Some t'"
proof -
  note f = walk_step_facts [OF w(1)]
  have "valid_path (p @ [i])"
    using p(1) split_indices_less [OF ix] by (auto simp: valid_path_def)
  moreover note tp = translate_on_path [OF f(1) ix p(1)]
  have w3: "walk_step 3 s s1" using w walk_step_mono by simp
  from f(1) calculation p(2) res [folded f(2)] show thesis
  proof (cases rule: next_table_or_create_cases)
    case (ok t')
    then show thesis using walk_step_trans [OF w(1) ok(2)] f(2) by (intro go) simp_all
  next
    case (huge e)
    then show thesis using tp(2) [OF huge(3)] f(3) w3 by (intro fail [of HugePageConflict]) (simp_all add: walk_failed_def)
  next
    case (full e)
    then show thesis using tp(1) [OF full(4)] f(3) w3 by (intro fail [of OutOfFrames]) (simp_all add: walk_failed_def)
  qed
qed

lemma walk_to_l1_spec:
  assumes wf: "pt_wf s" and ix: "split_indices v = (a, b, c, d, off)"
    and res: "walk_to_l1 fl a b c s = (r, s')"
  shows "case r of Inl e \<Rightarrow> walk_failed v s s' e
    | Inr va \<Rightarrow> walk_step 3 s s' \<and> (\<exists>t. va = PHYSICAL_MEMORY_OFFSET s + t \<and> table_at s' [a, b, c] = Some t)"
proof -
  let ?o = "PHYSICAL_MEMORY_OFFSET s"
  let ?root = "cr3 s AND PHYS_ADDR_MASK"
  have w0: "walk_step 0 s s" by (rule walk_step_refl [OF wf])
  have chain: "then_try (next_table_or_create (?o + ?root) a fl s) (\<lambda>l3 s.
      then_try (next_table_or_create l3 b fl s) (\<lambda>l2 s. next_table_or_create l2 c fl s)) = (r, s')"
    using res by (simp add: walk_to_l1_def active_l4_at [OF wf])
  obtain r1 s1 where n1: "next_table_or_create (?o + ?root) a fl s = (r1, s1)" by fastforce
  show ?thesis
  proof (rule walk_level [OF w0 _ ix _ _ n1, of "[]"], simp_all del: descend.simps(2))
    fix e assume "r1 = Err e" "walk_failed v s s1 e"
    then show ?thesis using chain n1 by auto
  next
    fix t3 assume r1: "r1 = Ok (?o + t3)" and w1: "walk_step (Suc 0) s s1"
      and t3: "table_at s1 [a] = Some t3"
    obtain r2 s2 where n2: "next_table_or_create (?o + t3) b fl s1 = (r2, s2)" by fastforce
    show ?thesis
    proof (rule walk_level [OF w1 _ ix _ t3 n2], simp_all del: descend.simps(2))
      fix e assume "r2 = Err e" "walk_failed v s s2 e"
      then show ?thesis using chain n1 n2 r1 by auto
    next
      fix t2 assume r2: "r2 = Ok (?o + t2)" and w2: "walk_step (Suc (Suc 0)) s s2"
        and t2: "table_at s2 [a, b] = Some t2"
      then have n3: "next_table_or_create (?o + t2) c fl s2 = (r, s')" using chain n1 n2 r1 by simp
      show ?thesis
        by (rule walk_level [OF w2 _ ix _ t2 n3]) (simp_all add: numeral_3_eq_3 del: descend.simps(2))
    qed
  qed
qed

lemma descend_tlb [simp]: "descend (s\<lparr>tlb := m\<rparr>) t q = descend s t q"
  by (induction q arbitrary: t) (simp_all add: read_entry_def Let_def)

lemma translate_frame_irrelevant [simp]:
  "translate v (s\<lparr>tlb := m\<rparr>) = translate v s" "pt_wf (s\<lparr>tlb := m\<rparr>) = pt_wf s"
  "entry_at (s\<lparr>tlb := m\<rparr>) q j = entry_at s q j"
proof -
  have r: "read_entry t i (s\<lparr>tlb := m\<rparr>) = read_entry t i s" for t i by (simp add: read_entry_def)
  have c: "cr3 (s\<lparr>tlb := m\<rparr>) = cr3 s" "PHYSICAL_MEMORY_OFFSET (s\<lparr>tlb := m\<rparr>) = PHYSICAL_MEMORY_OFFSET s"
    by simp_all
  show "translate v (s\<lparr>tlb := m\<rparr>) = translate v s" unfolding translate_def r c by (rule refl)
  show e: "entry_at (s\<lparr>tlb := m\<rparr>) q j = entry_at s q j" for q j by (simp add: entry_at_def r)
  show "pt_wf (s\<lparr>tlb := m\<rparr>) = pt_wf s" by (simp add: pt_wf_def e)
qed

definition map_ok :: "u64 \<Rightarrow> u64 \<Rightarrow> PageFlags \<Rightarrow> paging \<Rightarrow> paging \<Rightarrow> bool" where
  "map_ok virt phys fl s s' \<longleftrightarrow> translate virt s = None \<and>
    leaf_entry virt s' = Some (entry_set phys (flags_or fl PRESENT)) \<and>
    (\<forall>w. translate w s' = (if same_page virt w then Some (phys OR (w AND 0xFFF)) else translate w s))"

lemma map_page_spec:
  assumes wf: "pt_wf s" and fl: "addr_free fl" and phys: "frame_base phys"
    and res: "map_page virt phys fl s = Some (r, s')"
  shows "pt_wf s'" "cr3 s' = cr3 s" "PHYSICAL_MEMORY_OFFSET s' = PHYSICAL_MEMORY_OFFSET s"
    "free_frames_of s' \<subseteq> free_frames_of s" "card (free_frames_of s) \<le> card (free_frames_of s') + 3"
    "r = Ok () \<Longrightarrow> map_ok virt phys fl s s' \<and> tlb s' = (tlb s)(tlb_page virt := None)"
    "r = Err e \<Longrightarrow> walk_failed virt s s' e"
    "valid_path p \<Longrightarrow> j < 512 \<Longrightarrow> entry_at s p j = Some x \<Longrightarrow> is_present x \<Longrightarrow> entry_at s' p j = Some x"
    "new_tables s s'"
proof -
  obtain a b c d off where ix: "split_indices virt = (a, b, c, d, off)" by (cases "split_indices virt")
  define fl1 where "fl1 = flags_or fl PRESENT"
  obtain q s1 where w: "walk_to_l1 fl1 a b c s = (q, s1)" by fastforce
  have "map_page virt phys fl s = Some (then_try (walk_to_l1 fl1 a b c s) (\<lambda>l1_table s.
      if is_present (read_entry l1_table d s) then (Err AlreadyMapped, s)
      else (Ok (), flush_tlb virt (write_entry l1_table d (entry_set phys fl1) s))))"
    unfolding map_page_def walk_to_l1_def then_try_assoc ix Let_def prod.case fl1_def
    using res by (simp add: map_page_def split: if_splits)
  then have eq: "(r, s') = then_try (q, s1) (\<lambda>l1_table s.
      if is_present (read_entry l1_table d s) then (Err AlreadyMapped, s)
      else (Ok (), flush_tlb virt (write_entry l1_table d (entry_set phys fl1) s)))"
    using res w by simp
  note spec = walk_to_l1_spec [OF wf ix w]
  have "pt_wf s' \<and> cr3 s' = cr3 s \<and> PHYSICAL_MEMORY_OFFSET s' = PHYSICAL_MEMORY_OFFSET s \<and>
    free_frames_of s' \<subseteq> free_frames_of s \<and> card (free_frames_of s) \<le> card (free_frames_of s') + 3 \<and>
    (r = Ok () \<longrightarrow> map_ok virt phys fl s s' \<and> tlb s' = (tlb s)(tlb_page virt := None)) \<and>
    (\<forall>e. r = Err e \<longrightarrow> walk_failed virt s s' e) \<and>
    (\<forall>p j x. valid_path p \<longrightarrow> j < 512 \<longrightarrow> entry_at s p j = Some x \<longrightarrow> is_present x \<longrightarrow> entry_at s' p j = Some x) \<and>
    new_tables s s'"
  proof (cases q)
    case (Inl e)
    then have "r = Err e" "s' = s1" using eq by simp_all
    then show ?thesis using spec Inl by (simp add: walk_failed_def walk_step_def)
  next
    case (Inr va)
    with spec obtain t where ws: "walk_step 3 s s1" and va: "va = PHYSICAL_MEMORY_OFFSET s1 + t"
      and t: "table_at s1 [a, b, c] = Some t" by (auto simp: walk_step_def)
    note f = walk_step_facts [OF ws]
    let ?e = "read_entry va d s1"
    have leaf: "entry_at s1 [a, b, c] d = Some ?e" using t va by (simp add: entry_at_def)
    note tr = translate_at_levels(6) [OF f(1) ix leaf]
    show ?thesis
    proof (cases "is_present ?e")
      case True
      then have "r = Err AlreadyMapped" "s' = s1" using eq Inr by simp_all
      then show ?thesis using ws tr True f(3) by (simp add: walk_failed_def walk_step_def)
    next
      case False
      then have r: "r = Ok ()" and s': "s' = flush_tlb virt (write_entry va d (entry_set phys fl1) s1)"
        using eq Inr by simp_all
      have "addr_free fl1" "bit (bits fl1) 0"
        using fl by (simp_all add: fl1_def addr_free_iff bit_flags_ops bit_flag_consts)
      moreover have "leaf_entry virt s' = Some (entry_set phys fl1)"
        using leaf_write(3) [where e = "entry_set phys fl1", OF f(1) ix t] split_indices_less [OF ix]
        by (simp add: leaf_entry_def ix s' flush_tlb_def va valid_path_def)
      ultimately have "map_ok virt phys fl s s'" "pt_wf s'"
        using leaf_write(1,2) [where e = "entry_set phys fl1", OF f(1) ix t] tr False f(3) phys
        by (simp_all add: map_ok_def s' flush_tlb_def va frame_base_def fl1_def)
      moreover have "entry_at s' p j = Some x"
        if "valid_path p" "j < 512" "entry_at s p j = Some x" "is_present x" for p j x
      proof -
        have "entry_at s1 p j = Some x" using ws that unfolding walk_step_def by blast
        then show ?thesis
          using leaf_write(3) [where e = "entry_set phys fl1", OF f(1) ix t that(1,2)] leaf False that(4)
          by (auto simp: s' flush_tlb_def va)
      qed
      moreover have "new_tables s s'"
      proof -
        have "new_tables s s1" using ws by (simp add: walk_step_def)
        moreover have "table_at s' q = table_at s1 q" if "valid_path q" for q
          using leaf_write(4) [where e = "entry_set phys fl1", OF f(1) ix t that]
          by (simp add: s' flush_tlb_def va)
        moreover have "free_frames_of s' = free_frames_of s1"
          by (simp add: s' flush_tlb_def write_entry_def)
        ultimately show ?thesis by (simp add: new_tables_def)
      qed
      ultimately show ?thesis using r s' ws by (simp add: walk_step_def flush_tlb_def write_entry_def)
    qed
  qed
  then show "pt_wf s'" "cr3 s' = cr3 s" "PHYSICAL_MEMORY_OFFSET s' = PHYSICAL_MEMORY_OFFSET s"
    "free_frames_of s' \<subseteq> free_frames_of s" "card (free_frames_of s) \<le> card (free_frames_of s') + 3"
    "r = Ok () \<Longrightarrow> map_ok virt phys fl s s' \<and> tlb s' = (tlb s)(tlb_page virt := None)"
    "r = Err e \<Longrightarrow> walk_failed virt s s' e"
    "valid_path p \<Longrightarrow> j < 512 \<Longrightarrow> entry_at s p j = Some x \<Longrightarrow> is_present x \<Longrightarrow> entry_at s' p j = Some x"
    "new_tables s s'"
    by blast+
qed

lemma map_page_total:
  "virt AND 0xFFF = 0 \<Longrightarrow> phys AND 0xFFF = 0 \<Longrightarrow> \<exists>r s'. map_page virt phys fl s = Some (r, s')"
  by (simp add: map_page_def split_indices_def Let_def surj_pair)

definition lookup_failed :: "u64 \<Rightarrow> paging \<Rightarrow> MapError \<Rightarrow> bool" where
  "lookup_failed v s e \<longleftrightarrow>
    e = NotMapped \<and> translate v s = None \<or>
    e = HugePageConflict \<and> translate v s \<noteq> None \<and> leaf_entry v s = None"

lemma next_table_level:
  assumes wf: "pt_wf s" and ix: "split_indices v = (a, b, c, d, off)"
    and p: "p @ [i] \<in> {[a], [a, b], [a, b, c]}" "table_at s p = Some t"
  obtains (fail) e where "next_table (PHYSICAL_MEMORY_OFFSET s + t) i s = Err e" "lookup_failed v s e"
  | (go) t' where "next_table (PHYSICAL_MEMORY_OFFSET s + t) i s = Ok (PHYSICAL_MEMORY_OFFSET s + t')"
      "table_at s (p @ [i]) = Some t'"
proof -
  obtain e where e: "entry_at s p i = Some e" using p(2) by (simp add: entry_at_def)
  note nt = next_table_at [OF wf p(2), of i] and tp = translate_on_path [OF wf ix p(1) e]
  show thesis
  proof (cases "is_present e \<and> \<not> contains (flags e) HUGE_PAGE")
    case True
    then show thesis using e nt by (intro go [of "frame_addr e"]) (simp_all add: table_at_snoc)
  next
    case False
    show thesis
    proof (cases "is_present e")
      case True
      have "table_at s (p @ [i]) = None" using False e by (simp add: table_at_snoc)
      moreover have "\<exists>q. [a, b, c] = (p @ [i]) @ q"
        using p(1) by (elim insertE emptyE) (simp_all only: append.simps, simp_all)
      ultimately have "table_at s [a, b, c] = None"
        using descend_append [of s _ "p @ [i]"] by (metis option.simps(4))
      then have "leaf_entry v s = None" by (simp add: leaf_entry_def ix entry_at_def del: descend.simps(2))
      then show thesis using False True e nt tp(2)
        by (intro fail [of HugePageConflict]) (simp_all add: lookup_failed_def)
    next
      case False
      then show thesis using e nt tp(1) by (intro fail [of NotMapped]) (simp_all add: lookup_failed_def)
    qed
  qed
qed

definition find_l1 :: "nat \<Rightarrow> nat \<Rightarrow> nat \<Rightarrow> paging \<Rightarrow> (MapError + u64) \<times> paging" where
  "find_l1 a b c s =
    then_try (active_l4 s, s) (\<lambda>l4 s. then_try (next_table l4 a s, s) (\<lambda>l3 s.
      then_try (next_table l3 b s, s) (\<lambda>l2 s. (next_table l2 c s, s))))"

lemma find_l1_spec:
  assumes wf: "pt_wf s" and ix: "split_indices v = (a, b, c, d, off)"
  obtains (fail) e where "find_l1 a b c s = (Err e, s)" "lookup_failed v s e"
  | (go) t where "find_l1 a b c s = (Ok (PHYSICAL_MEMORY_OFFSET s + t), s)" "table_at s [a, b, c] = Some t"
proof -
  note fl = find_l1_def [of a b c s] active_l4_at [OF wf]
  have root: "table_at s [] = Some (cr3 s AND PHYS_ADDR_MASK)" by simp
  have p: "[] @ [a] \<in> {[a], [a, b], [a, b, c]}" "[a] @ [b] \<in> {[a], [a, b], [a, b, c]}"
    "[a, b] @ [c] \<in> {[a], [a, b], [a, b, c]}" by simp_all
  from wf ix p(1) root show thesis
  proof (cases rule: next_table_level)
    case (fail e)
    then show thesis by (intro that(1) [of e]) (simp_all add: fl)
  next
    case 1: (go t3)
    from wf ix p(2) 1(2) [simplified append_Nil] show thesis
    proof (cases rule: next_table_level)
      case (fail e)
      then show thesis using 1(1) by (intro that(1) [of e]) (simp_all add: fl)
    next
      case 2: (go t2)
      from wf ix p(3) 2(2) [simplified append_Cons append_Nil] show thesis
      proof (cases rule: next_table_level)
        case (fail e)
        then show thesis using 1(1) 2(1) by (intro that(1) [of e]) (simp_all add: fl)
      next
        case (go t1)
        then show thesis using 1(1) 2(1) by (intro that(2) [of t1]) (simp_all add: fl del: descend.simps(2))
      qed
    qed
  qed
qed

lemma unmap_spec:
  assumes wf: "pt_wf s" and res: "unmap virt s = Some (r, s')"
  shows "r = Ok pa \<Longrightarrow> translate virt s = Some pa \<and> pt_wf s' \<and>
      (\<forall>w. translate w s' = (if same_page virt w then None else translate w s)) \<and>
      tlb s' = (tlb s)(tlb_page virt := None) \<and> frame_alloc s' = frame_alloc s"
    and "r = Err e \<Longrightarrow> s' = s \<and> lookup_failed virt s e"
proof -
  obtain a b c d off where ix: "split_indices virt = (a, b, c, d, off)" by (cases "split_indices virt")
  have al: "virt AND 0xFFF = 0" using res by (simp add: unmap_def split: if_splits)
  have "unmap virt s = Some (then_try (find_l1 a b c s) (\<lambda>l1_table s.
      if \<not> is_present (read_entry l1_table d s) then (Err NotMapped, s)
      else (Ok (frame_addr (read_entry l1_table d s)),
            flush_tlb virt (write_entry l1_table d PageTableEntry_empty s))))"
    unfolding unmap_def find_l1_def then_try_assoc ix Let_def prod.case using al by simp
  then have eq: "(r, s') = then_try (find_l1 a b c s) (\<lambda>l1_table s.
      if \<not> is_present (read_entry l1_table d s) then (Err NotMapped, s)
      else (Ok (frame_addr (read_entry l1_table d s)),
            flush_tlb virt (write_entry l1_table d PageTableEntry_empty s)))"
    using res by simp
  have "(\<forall>pa. r = Ok pa \<longrightarrow> translate virt s = Some pa \<and> pt_wf s' \<and>
      (\<forall>w. translate w s' = (if same_page virt w then None else translate w s)) \<and>
      tlb s' = (tlb s)(tlb_page virt := None) \<and> frame_alloc s' = frame_alloc s) \<and>
    (\<forall>e. r = Err e \<longrightarrow> s' = s \<and> lookup_failed virt s e)"
    using wf ix
  proof (cases rule: find_l1_spec)
    case (fail e)
    then show ?thesis using eq by simp
  next
    case (go t)
    let ?e = "read_entry (PHYSICAL_MEMORY_OFFSET s + t) d s"
    have "entry_at s [a, b, c] d = Some ?e" using go(2) by (simp add: entry_at_def)
    note tr = translate_at_levels(6) [OF wf ix this]
    note lw = leaf_write [where e = PageTableEntry_empty, OF wf ix go(2)]
    show ?thesis
    proof (cases "is_present ?e")
      case True
      then have "r = Ok (frame_addr ?e)"
        "s' = flush_tlb virt (write_entry (PHYSICAL_MEMORY_OFFSET s + t) d PageTableEntry_empty s)"
        using eq go(1) by simp_all
      then show ?thesis using tr True lw al
        by (simp add: flush_tlb_def PageTableEntry_empty_def) (simp add: write_entry_def)
    next
      case False
      then show ?thesis using eq go(1) tr by (simp add: lookup_failed_def)
    qed
  qed
  then show "r = Ok pa \<Longrightarrow> translate virt s = Some pa \<and> pt_wf s' \<and>
      (\<forall>w. translate w s' = (if same_page virt w then None else translate w s)) \<and>
      tlb s' = (tlb s)(tlb_page virt := None) \<and> frame_alloc s' = frame_alloc s"
    "r = Err e \<Longrightarrow> s' = s \<and> lookup_failed virt s e" by blast+
qed

section \<open>The TLB\<close>

lemma index_eq_iff:
  "unat (drop_bit k v AND 0x1FF) = unat (drop_bit k w AND 0x1FF) \<longleftrightarrow> (\<forall>m < 9. bit v (k + m) = bit w (k + m))"
  for v w :: u64
proof -
  have m: "(0x1FF :: u64) = mask 9" by (simp add: mask_eq_exp_minus_1)
  have "(\<forall>n < 64. (P n \<and> n < 9) = (Q n \<and> n < 9)) \<longleftrightarrow> (\<forall>n < 9. P n = Q n)" for P Q :: "nat \<Rightarrow> bool"
  proof
    assume all: "\<forall>n < 64. (P n \<and> n < 9) = (Q n \<and> n < 9)"
    show "\<forall>n < 9. P n = Q n"
    proof (intro allI impI)
      fix n :: nat assume "n < 9"
      then show "P n = Q n" using all [rule_format, of n] by simp
    qed
  qed blast
  then show ?thesis
    unfolding m word_unat_eq_iff [symmetric] word_bits_eq_iff
    by (simp add: bit_and_iff bit_drop_bit_eq bit_mask_iff)
qed

lemma same_page_iff: "same_page v w \<longleftrightarrow> (\<forall>n. 12 \<le> n \<longrightarrow> n < 48 \<longrightarrow> bit v n = bit w n)"
proof -
  have "same_page v w \<longleftrightarrow> (\<forall>k \<in> {39, 30, 21, 12}. \<forall>m < 9. bit v (k + m) = bit w (k + m))"
    by (simp add: same_page_def virt_path_def split_indices_def index_eq_iff)
  also have "\<dots> \<longleftrightarrow> (\<forall>n. 12 \<le> n \<longrightarrow> n < 48 \<longrightarrow> bit v n = bit w n)"
  proof
    assume all: "\<forall>k \<in> {39, 30, 21, 12}. \<forall>m < 9. bit v (k + m) = bit w (k + m)"
    have "bit v n = bit w n" if n: "12 \<le> n" "n < 48" for n
    proof -
      have "\<exists>k \<in> {39, 30, 21, 12}. k \<le> n \<and> n - k < 9" using n by simp linarith
      then obtain k where "k \<in> {39, 30, 21, 12}" "n - k < 9" "k \<le> n" by blast
      with all have "bit v (k + (n - k)) = bit w (k + (n - k))" by blast
      with \<open>k \<le> n\<close> show ?thesis by simp
    qed
    then show "\<forall>n. 12 \<le> n \<longrightarrow> n < 48 \<longrightarrow> bit v n = bit w n" by blast
  qed simp
  finally show ?thesis .
qed

lemma same_page_tlb_page: "same_page v w \<Longrightarrow> tlb_page v = tlb_page w"
  by (rule bit_word_eqI) (auto simp: tlb_page_def same_page_iff bit_take_bit_iff bit_drop_bit_eq)

lemma tlb_page_push: "page < 2 ^ 36 \<Longrightarrow> tlb_page (push_bit 12 page) = page"
proof (rule bit_word_eqI)
  fix n assume "page < 2 ^ 36"
  then have "bit page n \<Longrightarrow> n < 36" using high_bits_clear [of page 36 n] by (force simp: word_less_nat_alt)
  then show "bit (tlb_page (push_bit 12 page)) n = bit page n"
    by (auto simp: tlb_page_def bit_take_bit_iff bit_drop_bit_eq bit_push_bit_iff)
qed

definition tlb_coherent :: "paging \<Rightarrow> bool" where
  "tlb_coherent s \<longleftrightarrow> (\<forall>page pa g. tlb s page = Some (pa, g) \<longrightarrow>
    page < 2 ^ 36 \<and> translate (push_bit 12 page) s = Some pa)"

lemma tlb_coherent_upd:
  assumes "tlb_coherent s" "tlb s' = (tlb s)(tlb_page virt := None)"
    "\<And>w. \<not> same_page virt w \<Longrightarrow> translate w s' = translate w s"
  shows "tlb_coherent s'"
  unfolding tlb_coherent_def
proof (intro allI impI)
  fix page pa g assume hit: "tlb s' page = Some (pa, g)"
  then have page: "page \<noteq> tlb_page virt" "page < 2 ^ 36" "translate (push_bit 12 page) s = Some pa"
    using assms(1,2) by (auto simp: tlb_coherent_def split: if_splits)
  then have "\<not> same_page virt (push_bit 12 page)"
    using same_page_tlb_page [of virt "push_bit 12 page"] tlb_page_push [OF page(2)] by auto
  with page show "page < 2 ^ 36 \<and> translate (push_bit 12 page) s' = Some pa" by (simp add: assms(3))
qed

lemma tlb_coherent_same:
  "tlb_coherent s \<Longrightarrow> tlb s' = tlb s \<Longrightarrow> (\<And>w. translate w s' = translate w s) \<Longrightarrow> tlb_coherent s'"
  by (simp add: tlb_coherent_def)

section \<open>Properties\<close>

text \<open>A concrete well-formed state: an empty root table at frame 1 and four free frames.\<close>

definition four_frames_free :: BitmapFrameAllocator where
  "four_frames_free =
    mark_free (Frame 0x3000) (mark_free (Frame 0x4000) (mark_free (Frame 0x5000)
      (mark_free (Frame 0x6000) BitmapFrameAllocator_new)))"

lemma four_frames_free_facts:
  "alloc_inv four_frames_free" "free_set four_frames_free = {3, 4, 5, 6}"
proof -
  have "frame_index (Frame 0x3000) = 3" "frame_index (Frame 0x4000) = 4" "frame_index (Frame 0x5000) = 5"
    "frame_index (Frame 0x6000) = 6" "6 < MAX_FRAMES"
    by (simp_all add: kconst)
  then show "alloc_inv four_frames_free" "free_set four_frames_free = {3, 4, 5, 6}"
    unfolding four_frames_free_def
    by (auto simp: mark_free_spec new_inv new_free_set simp del: unat_number)
qed

definition empty_space :: paging where
  "empty_space =
    \<lparr>phys_mem = (\<lambda>_. 0), cr3 = 0x1000, PHYSICAL_MEMORY_OFFSET = 0xFFFF800000000000,
     frame_alloc = \<lparr>FRAME_ALLOCATOR = four_frames_free, INITIALIZED = True\<rparr>, tlb = (\<lambda>_. None)\<rparr>"

lemma empty_space_entries: "read_entry t i empty_space = PageTableEntry 0"
  by (simp add: read_entry_def empty_space_def)

lemma empty_space_tables: "table_at empty_space p = (if p = [] then Some 0x1000 else None)"
  by (cases p) (simp_all add: empty_space_entries, simp_all add: empty_space_def PHYS_ADDR_MASK_def)

lemma empty_space_wf: "pt_wf empty_space"
  unfolding pt_wf_def entry_at_def empty_space_tables
  by (auto simp: empty_space_entries four_frames_free_facts) (simp_all add: empty_space_def four_frames_free_facts u64_MAX_def)

lemma empty_space_translate: "translate v empty_space = None"
  by (cases "split_indices v") (simp add: translate_def Let_def empty_space_entries)

lemma map_unmapped_succeeds:
  assumes "pt_wf s" "translate virt s = None" "3 < card (free_frames_of s)"
    and "virt AND 0xFFF = 0" "phys AND 0xFFF = 0" "frame_base phys" "addr_free fl"
  obtains s' where "map_page virt phys fl s = Some (Ok (), s')"
proof -
  obtain r s' where m: "map_page virt phys fl s = Some (r, s')"
    using map_page_total [OF assms(4,5)] by blast
  note spec = map_page_spec [OF assms(1,7,6) m]
  have "free_frames_of s' \<noteq> {}" using spec(5) assms(3) by auto
  then have "r = Ok ()" using spec(7) assms(2) by (cases r) (auto simp: walk_failed_def)
  with m that show thesis by simp
qed

lemma empty_space_free: "free_frames_of empty_space = {3, 4, 5, 6}"
  by (simp add: empty_space_def four_frames_free_facts)

lemma example_map_args:
  "addr_free WRITABLE" "addr_free USER" "frame_base 0x7000"
  by (simp_all add: addr_free_iff bit_flag_consts frame_base_def PHYS_ADDR_MASK_def)

lemma empty_space_map:
  obtains s' where "map_page 0x40001000 0x7000 WRITABLE empty_space = Some (Ok (), s')"
  using map_unmapped_succeeds [of empty_space "0x40001000" "0x7000" WRITABLE]
  by (auto simp: empty_space_wf empty_space_translate empty_space_free example_map_args)

lemma same_page_translate_None:
  assumes "pt_wf s" "same_page v w" "translate v s = None"
  shows "translate w s = None"
proof -
  obtain a b c d off where ix: "split_indices v = (a, b, c, d, off)" by (cases "split_indices v")
  then obtain off' where ix': "split_indices w = (a, b, c, d, off')"
    using assms(2) by (cases "split_indices w") (auto simp: same_page_def virt_path_def)
  show ?thesis
    using assms(3) unfolding translate_by_entries [OF assms(1) ix] translate_by_entries [OF assms(1) ix']
    by (auto simp: l3_result_def split: option.splits if_splits)
qed

lemma unmap_total: "virt AND 0xFFF = 0 \<Longrightarrow> \<exists>r s'. unmap virt s = Some (r, s')"
  by (simp add: unmap_def split_indices_def Let_def surj_pair)

text \<open>C6: \<open>map\<close> installs exactly the requested page. On success the page was not mapped before and
  afterwards every address in it translates to the frame plus its page offset, while every other
  page translates as before; the last-level entry holds the frame, the given flags and \<open>PRESENT\<close>. On failure nothing changes for any address, \<open>AlreadyMapped\<close> or
  \<open>HugePageConflict\<close> mean that the page was mapped, and \<open>OutOfFrames\<close> means that it was
  not and that the frame pool is empty. The tables stay well formed.\<close>

theorem map_page_correct:
  assumes "pt_wf s" "addr_free fl" "frame_base phys" "map_page virt phys fl s = Some (r, s')"
  shows "pt_wf s' \<and>
    (case r of
       Inr _ \<Rightarrow> translate virt s = None \<and>
         leaf_entry virt s' = Some (entry_set phys (flags_or fl PRESENT)) \<and>
         (\<forall>w. translate w s' = (if same_page virt w then Some (phys OR (w AND 0xFFF)) else translate w s))
     | Inl e \<Rightarrow> (\<forall>w. translate w s' = translate w s) \<and>
         (e = OutOfFrames \<and> translate virt s = None \<and> free_frames_of s' = {} \<or>
          (e = AlreadyMapped \<or> e = HugePageConflict) \<and> translate virt s \<noteq> None))"
  using map_page_spec [OF assms]
  by (cases r) (simp_all add: map_ok_def walk_failed_def walk_step_def)

theorem map_page_correct_witness:
  "\<exists>s'. map_page 0x40001000 0x7000 WRITABLE empty_space = Some (Ok (), s') \<and>
    translate 0x40001234 s' = Some 0x7234 \<and> translate 0x40002000 s' = None"
proof -
  note fl = example_map_args(1) and ph = example_map_args(3)
  obtain s' where m: "map_page 0x40001000 0x7000 WRITABLE empty_space = Some (Ok (), s')"
    by (rule empty_space_map)
  have "same_page 0x40001000 0x40001234" "\<not> same_page 0x40001000 0x40002000"
    by (simp_all add: same_page_def virt_path_def split_indices_def)
  with map_page_correct [OF empty_space_wf fl ph m] m show ?thesis
    by (simp add: empty_space_translate)
qed

text \<open>C7: \<open>unmap\<close> of a page returns the frame it was mapped to, removes the translation of exactly
  that page and keeps the tables well formed and the frame pool as it was; it fails with
  \<open>NotMapped\<close> on an unmapped page and with \<open>HugePageConflict\<close> on a page that a larger
  page covers, and then changes nothing.\<close>

theorem unmap_correct:
  assumes "pt_wf s" "unmap virt s = Some (r, s')"
  shows "case r of
      Inr pa \<Rightarrow> translate virt s = Some pa \<and> pt_wf s' \<and> frame_alloc s' = frame_alloc s \<and>
        (\<forall>w. translate w s' = (if same_page virt w then None else translate w s))
    | Inl e \<Rightarrow> s' = s \<and>
        (e = NotMapped \<and> translate virt s = None \<or>
         e = HugePageConflict \<and> translate virt s \<noteq> None \<and> leaf_entry virt s = None)"
  using unmap_spec [OF assms] by (cases r) (simp_all add: lookup_failed_def)

theorem unmap_correct_witness:
  "fst (the (unmap 0x40001000 empty_space)) = Err NotMapped \<and> snd (the (unmap 0x40001000 empty_space)) = empty_space"
proof -
  obtain r s' where u: "unmap 0x40001000 empty_space = Some (r, s')"
    using unmap_total [where virt = "0x40001000" and s = empty_space] by auto
  show ?thesis
    using unmap_correct [OF empty_space_wf u] u by (cases r) (simp_all add: empty_space_translate)
qed

text \<open>A successful \<open>map\<close> followed by \<open>unmap\<close> of the same page succeeds, returns the frame
  that was mapped, and leaves the translation of every address as it was before.\<close>

theorem map_unmap_round_trip:
  assumes "pt_wf s" "addr_free fl" "frame_base phys" "map_page virt phys fl s = Some (Ok (), s')"
  shows "\<exists>s''. unmap virt s' = Some (Ok phys, s'') \<and> (\<forall>w. translate w s'' = translate w s)"
proof -
  note m = map_page_spec(1,6) [OF assms, simplified]
  have al: "virt AND 0xFFF = 0" using assms(4) by (simp add: map_page_def split: if_splits)
  then have tr: "translate virt s' = Some phys"
    using m(2) by (simp add: map_ok_def same_page_def)
  obtain r s'' where u: "unmap virt s' = Some (r, s'')"
    using unmap_total [OF al] by blast
  have "r = Ok phys"
    using unmap_spec [OF m(1) u] tr m(2) by (cases r) (auto simp: lookup_failed_def map_ok_def)
  then show ?thesis
    using unmap_spec(1) [OF m(1) u] m(2) u same_page_translate_None [OF assms(1)]
    by (auto simp: map_ok_def)
qed

theorem map_unmap_round_trip_example:
  "\<exists>s' s''. map_page 0x40001000 0x7000 WRITABLE empty_space = Some (Ok (), s') \<and>
    unmap 0x40001000 s' = Some (Ok 0x7000, s'') \<and> translate 0x40001000 s'' = None"
proof -
  note fl = example_map_args(1) and ph = example_map_args(3)
  obtain s' where m: "map_page 0x40001000 0x7000 WRITABLE empty_space = Some (Ok (), s')"
    by (rule empty_space_map)
  with map_unmap_round_trip [OF empty_space_wf fl ph m] show ?thesis
    by (auto simp: empty_space_translate)
qed

text \<open>C8: the TLB never holds a stale translation: if every cached translation agrees with the tables
  then it still does after \<open>map\<close>, \<open>unmap\<close> (succeeding or failing) and \<open>flush_tlb_all\<close>,
  each of which invalidates exactly what it changes.\<close>

theorem tlb_stays_coherent:
  assumes "pt_wf s" "tlb_coherent s" "addr_free fl" "frame_base phys"
  shows "(\<forall>r s'. map_page virt phys fl s = Some (r, s') \<longrightarrow> tlb_coherent s') \<and>
    (\<forall>r s'. unmap virt s = Some (r, s') \<longrightarrow> tlb_coherent s') \<and>
    tlb_coherent (flush_tlb_all s)"
proof (intro conjI allI impI)
  fix r s' assume m: "map_page virt phys fl s = Some (r, s')"
  note spec = map_page_spec(6,7) [OF assms(1,3,4) m]
  show "tlb_coherent s'"
  proof (cases r)
    case (Inl e)
    then show ?thesis
      using spec(2) by (intro tlb_coherent_same [OF assms(2)]) (auto simp: walk_failed_def walk_step_def)
  next
    case (Inr u)
    then show ?thesis
      using spec(1) by (intro tlb_coherent_upd [OF assms(2)]) (auto simp: map_ok_def)
  qed
next
  fix r s' assume u: "unmap virt s = Some (r, s')"
  show "tlb_coherent s'"
  proof (cases r)
    case (Inl e)
    then show ?thesis using unmap_spec(2) [OF assms(1) u] assms(2) by simp
  next
    case (Inr pa)
    then show ?thesis
      using unmap_spec(1) [OF assms(1) u] by (intro tlb_coherent_upd [OF assms(2)]) auto
  qed
next
  show "tlb_coherent (flush_tlb_all s)"
    using assms(2) unfolding tlb_coherent_def flush_tlb_all_def
    by (auto split: option.splits prod.splits bool.splits)
qed

theorem tlb_stays_coherent_witness:
  "\<exists>s'. map_page 0x40001000 0x7000 WRITABLE empty_space = Some (Ok (), s') \<and> tlb_coherent s'"
proof -
  note fl = example_map_args(1) and ph = example_map_args(3)
  have co: "tlb_coherent empty_space" by (simp add: tlb_coherent_def empty_space_def)
  obtain s' where m: "map_page 0x40001000 0x7000 WRITABLE empty_space = Some (Ok (), s')"
    by (rule empty_space_map)
  with tlb_stays_coherent [OF empty_space_wf co fl ph] show ?thesis by blast
qed

text \<open>\<open>map\<close> never changes an entry that is already present. In particular a table that exists
  without the \<open>USER\<close> bit keeps lacking it, so a page mapped with \<open>USER\<close> below such a table is
  not accessible to user code although \<open>map\<close> reports success.\<close>

theorem map_page_keeps_present_entries:
  assumes "pt_wf s" "addr_free fl" "frame_base phys" "map_page virt phys fl s = Some (r, s')"
    and "valid_path p" "i < 512" "entry_at s p i = Some e" "is_present e" "\<not> contains (flags e) USER"
  shows "entry_at s' p i = Some e \<and> \<not> contains (flags (the (entry_at s' p i))) USER"
  using map_page_spec(8) [OF assms(1-8)] assms(9) by simp

definition kernel_table_entry :: PageTableEntry where
  "kernel_table_entry = entry_set 0x2000 (flags_or PRESENT WRITABLE)"

definition kernel_space :: paging where
  "kernel_space = write_entry (PHYSICAL_MEMORY_OFFSET empty_space + 0x1000) 0 kernel_table_entry
    (write_empty_table (PHYSICAL_MEMORY_OFFSET empty_space + 0x2000) empty_space)"

lemma kernel_table_entry_facts:
  "is_present kernel_table_entry" "\<not> contains (flags kernel_table_entry) HUGE_PAGE"
  "frame_addr kernel_table_entry = 0x2000" "\<not> contains (flags kernel_table_entry) USER"
  by (simp_all add: kernel_table_entry_def entry_set_def is_present_def contains_def flags_def
      frame_addr_def PRESENT_def WRITABLE_def USER_def HUGE_PAGE_def PHYS_ADDR_MASK_def flags_or_def)

lemma kernel_space_facts:
  "created [] 0 kernel_table_entry empty_space kernel_space" "pt_wf kernel_space"
  "translate v kernel_space = None" "entry_at kernel_space [] 0 = Some kernel_table_entry"
proof -
  have "frame_base 0x2000" by (simp add: frame_base_def PHYS_ADDR_MASK_def)
  then show c: "created [] 0 kernel_table_entry empty_space kernel_space"
    unfolding kernel_space_def
    by (intro create_created [OF empty_space_wf])
      (simp_all add: empty_space_tables kernel_table_entry_facts del: descend.simps)
  show wf: "pt_wf kernel_space"
    by (rule created_pt_wf [OF empty_space_wf c])
      (auto simp: kernel_table_entry_facts empty_space_tables kernel_space_def write_entry_def
        write_empty_table_def empty_space_free valid_path_def, simp_all add: empty_space_def four_frames_free_facts)
  show "translate v kernel_space = None"
    using created_translate [OF empty_space_wf wf c] kernel_table_entry_facts(2)
    by (simp add: empty_space_translate entry_at_def empty_space_tables empty_space_entries valid_path_def)
  show "entry_at kernel_space [] 0 = Some kernel_table_entry"
    using c by (simp add: created_def)
qed

theorem map_page_keeps_present_entries_example:
  "\<exists>s'. map_page 0x40001000 0x7000 USER kernel_space = Some (Ok (), s') \<and>
    entry_at s' [] 0 = Some kernel_table_entry \<and> \<not> contains (flags kernel_table_entry) USER"
proof -
  have "free_frames_of kernel_space = {3, 4, 5, 6}"
    by (simp add: kernel_space_def write_entry_def write_empty_table_def empty_space_free)
  then obtain s' where m: "map_page 0x40001000 0x7000 USER kernel_space = Some (Ok (), s')"
    using map_unmapped_succeeds [of kernel_space "0x40001000" "0x7000" USER]
    by (auto simp: kernel_space_facts example_map_args)
  show ?thesis
    using map_page_keeps_present_entries [OF kernel_space_facts(2) example_map_args(2,3) m, of "[]" 0] m
    by (simp add: kernel_space_facts(4) kernel_table_entry_facts)
qed

end
