(* ===== verification/Kernel_Heap.thy ===== *)
theory Kernel_Heap
  imports Memory_Common "HOL-Library.Multiset"
begin

text \<open>
  The kernel heap, \<open>memory/heap.rs\<close>: a first-fit allocator whose free list is threaded through
  the free blocks themselves. The state is the list head and the quadwords of memory; a free
  block at address \<open>a\<close> keeps its size in the quadword at \<open>a\<close> and the pointer to the next free
  block in the quadword at \<open>a + 8\<close>, and 0 is the null pointer. The double pointer \<open>prev\<close> of
  the search loop is the datatype \<open>link\<close>: the head field or the \<open>next\<close> field of a block.

  The loop may not end on a cyclic list, so it is a partial function; the lemmas show that it
  ends on every list the allocator builds. \<open>free_list\<close> relates the memory to the list of
  blocks, and \<open>heap_inv\<close> says that the free blocks and the live allocations together are a
  partition of the heap. Arithmetic is that of a release build: it wraps.
\<close>

section \<open>State\<close>

definition FreeBlock_SIZE :: u64 where
  [kconst]: "FreeBlock_SIZE = 16"

definition FreeBlock_ALIGN :: u64 where
  [kconst]: "FreeBlock_ALIGN = 8"

record LinkedListAllocator =
  head :: u64
  mem :: "u64 \<Rightarrow> u64"

abbreviation block_size :: "u64 \<Rightarrow> LinkedListAllocator \<Rightarrow> u64" where
  "block_size block h \<equiv> mem h block"

abbreviation block_next :: "u64 \<Rightarrow> LinkedListAllocator \<Rightarrow> u64" where
  "block_next block h \<equiv> mem h (block + 8)"

datatype link = HeadLink | NextLink u64

primrec read_link :: "link \<Rightarrow> LinkedListAllocator \<Rightarrow> u64" where
  "read_link HeadLink h = head h"
| "read_link (NextLink block) h = block_next block h"

primrec write_link :: "link \<Rightarrow> u64 \<Rightarrow> LinkedListAllocator \<Rightarrow> LinkedListAllocator" where
  "write_link HeadLink v h = h\<lparr>head := v\<rparr>"
| "write_link (NextLink block) v h = h\<lparr>mem := (mem h)(block + 8 := v)\<rparr>"

section \<open>Operations\<close>

definition LinkedListAllocator_new :: "(u64 \<Rightarrow> u64) \<Rightarrow> LinkedListAllocator" where
  "LinkedListAllocator_new m = \<lparr>head = 0, mem = m\<rparr>"

definition add_free :: "u64 \<Rightarrow> u64 \<Rightarrow> LinkedListAllocator \<Rightarrow> LinkedListAllocator" where
  "add_free addr sz h =
    h\<lparr>mem := (mem h)(addr := sz, addr + 8 := head h), head := addr\<rparr>"

definition LinkedListAllocator_init :: "u64 \<Rightarrow> u64 \<Rightarrow> LinkedListAllocator \<Rightarrow> LinkedListAllocator" where
  "LinkedListAllocator_init start sz h = add_free start sz (h\<lparr>head := 0\<rparr>)"

definition heap_align_up :: "u64 \<Rightarrow> u64 \<Rightarrow> u64" where
  "heap_align_up addr align = (addr + align - 1) AND NOT (align - 1)"

partial_function (option) alloc_loop ::
  "link \<Rightarrow> u64 \<Rightarrow> u64 \<Rightarrow> LinkedListAllocator \<Rightarrow> (u64 \<times> LinkedListAllocator) option" where
  "alloc_loop prev sz align h =
    (let region = read_link prev h in
     if region = 0 then Some (0, h)
     else
       let region_end = region + block_size region h;
           alloc_start = heap_align_up region align in
       case checked_add alloc_start sz of
         None \<Rightarrow> alloc_loop (NextLink region) sz align h
       | Some alloc_end \<Rightarrow>
           if region_end < alloc_end then alloc_loop (NextLink region) sz align h
           else
             let excess = region_end - alloc_end in
             if 0 < excess \<and> excess < FreeBlock_SIZE then alloc_loop (NextLink region) sz align h
             else
               let prefix = alloc_start - region in
               if 0 < prefix \<and> prefix < FreeBlock_SIZE then alloc_loop (NextLink region) sz align h
               else
                 let h1 = write_link prev (block_next region h) h;
                     h2 = (if 0 < prefix then add_free region prefix h1 else h1);
                     h3 = (if 0 < excess then add_free alloc_end excess h2 else h2)
                 in Some (alloc_start, h3))"

definition alloc_inner ::
  "u64 \<Rightarrow> u64 \<Rightarrow> LinkedListAllocator \<Rightarrow> (u64 \<times> LinkedListAllocator) option" where
  "alloc_inner sz align h = alloc_loop HeadLink sz align h"

definition dealloc_inner :: "u64 \<Rightarrow> u64 \<Rightarrow> LinkedListAllocator \<Rightarrow> LinkedListAllocator" where
  "dealloc_inner ptr sz h = add_free ptr sz h"

text \<open>
  \<open>Layout\<close> is the type of \<open>core::alloc\<close>: a size and a power-of-two alignment whose padded size
  does not exceed \<open>isize::MAX\<close>. \<open>align_to\<close> raises the alignment and fails when the padded
  size would exceed that bound; \<open>pad_to_align\<close> rounds the size up to the alignment. A failed
  \<open>expect\<close> is \<open>None\<close>.
\<close>

record Layout =
  layout_size :: u64
  layout_align :: u64

definition isize_MAX :: u64 where
  [kconst]: "isize_MAX = 0x7FFFFFFFFFFFFFFF"

definition align_to :: "u64 \<Rightarrow> Layout \<Rightarrow> Layout option" where
  "align_to align l =
    (let a = max (layout_align l) align in
     if isize_MAX - (a - 1) < layout_size l then None else Some (l\<lparr>layout_align := a\<rparr>))"

definition pad_to_align :: "Layout \<Rightarrow> Layout" where
  "pad_to_align l =
    l\<lparr>layout_size := (layout_size l + (layout_align l - 1)) AND NOT (layout_align l - 1)\<rparr>"

definition size_align :: "Layout \<Rightarrow> (u64 \<times> u64) option" where
  "size_align layout =
    (case align_to FreeBlock_ALIGN layout of
       None \<Rightarrow> None
     | Some l \<Rightarrow>
         let l' = pad_to_align l in Some (max (layout_size l') FreeBlock_SIZE, layout_align l'))"

definition heap_alloc :: "Layout \<Rightarrow> LinkedListAllocator \<Rightarrow> (u64 \<times> LinkedListAllocator) option" where
  "heap_alloc layout a =
    (case size_align layout of None \<Rightarrow> None | Some (sz, align) \<Rightarrow> alloc_inner sz align a)"

definition heap_dealloc :: "u64 \<Rightarrow> Layout \<Rightarrow> LinkedListAllocator \<Rightarrow> LinkedListAllocator option" where
  "heap_dealloc ptr layout a =
    (case size_align layout of None \<Rightarrow> None | Some (sz, _) \<Rightarrow> Some (dealloc_inner ptr sz a))"

section \<open>Free blocks as a list\<close>

type_synonym block = "u64 \<times> u64"

abbreviation lo :: "block \<Rightarrow> nat" where
  "lo b \<equiv> unat (fst b)"

abbreviation hi :: "block \<Rightarrow> nat" where
  "hi b \<equiv> unat (fst b) + unat (snd b)"

definition span :: "block \<Rightarrow> nat set" where
  "span b = {lo b..<hi b}"

fun free_list :: "(u64 \<Rightarrow> u64) \<Rightarrow> u64 \<Rightarrow> block list \<Rightarrow> bool" where
  "free_list m p [] \<longleftrightarrow> p = 0"
| "free_list m p (b # bs) \<longleftrightarrow>
    p = fst b \<and> p \<noteq> 0 \<and> m p = snd b \<and> free_list m (m (p + 8)) bs"

definition block_ok :: "block \<Rightarrow> bool" where
  "block_ok b \<longleftrightarrow> 0 < lo b \<and> 8 dvd lo b \<and> 8 dvd unat (snd b) \<and> 16 \<le> unat (snd b) \<and> hi b < 2 ^ 64"

definition cover :: "nat \<Rightarrow> block list \<Rightarrow> nat" where
  "cover x bs = length (filter (\<lambda>b. x \<in> span b) bs)"

definition heap_rep :: "nat \<Rightarrow> nat \<Rightarrow> LinkedListAllocator \<Rightarrow> block list \<Rightarrow> block list \<Rightarrow> bool" where
  "heap_rep L H h bs live \<longleftrightarrow>
    free_list (mem h) (head h) bs \<and> (\<forall>b \<in> set (bs @ live). block_ok b) \<and>
    (\<forall>x. cover x (bs @ live) = (if L \<le> x \<and> x < H then 1 else 0))"

definition heap_inv :: "nat \<Rightarrow> nat \<Rightarrow> LinkedListAllocator \<Rightarrow> block list \<Rightarrow> bool" where
  "heap_inv L H h live \<longleftrightarrow> (\<exists>bs. heap_rep L H h bs live)"

lemma cover_simps [simp]:
  "cover x [] = 0" "cover x (b # bs) = of_bool (x \<in> span b) + cover x bs"
  "cover x (bs @ cs) = cover x bs + cover x cs"
  by (simp_all add: cover_def)

lemma cover_pos: "b \<in> set bs \<Longrightarrow> x \<in> span b \<Longrightarrow> 0 < cover x bs"
  by (auto simp: cover_def filter_empty_conv)

lemma block_end: "block_ok b \<Longrightarrow> unat (fst b + snd b) = hi b"
  by (simp add: block_ok_def unat_word_ariths)

lemma block_key: "block_ok b \<Longrightarrow> unat (fst b + 8) = lo b + 8"
  by (simp add: block_ok_def unat_word_ariths)

definition keys :: "block \<Rightarrow> u64 set" where
  "keys b = {fst b, fst b + 8}"

lemma keys_in_span: "block_ok b \<Longrightarrow> k \<in> keys b \<Longrightarrow> unat k \<in> span b"
  using block_key [of b] by (auto simp: keys_def span_def block_ok_def)

lemma keys_disjoint: "block_ok b \<Longrightarrow> block_ok c \<Longrightarrow> span b \<inter> span c = {} \<Longrightarrow> keys b \<inter> keys c = {}"
  using keys_in_span by blast

lemma free_list_cong:
  "free_list m p bs \<Longrightarrow> (\<And>b k. b \<in> set bs \<Longrightarrow> k \<in> keys b \<Longrightarrow> m' k = m k) \<Longrightarrow> free_list m' p bs"
proof (induction bs arbitrary: p)
  case (Cons b bs)
  have "m' p = m p" "m' (p + 8) = m (p + 8)"
    using Cons.prems(1) Cons.prems(2) [of b p] Cons.prems(2) [of b "p + 8"] by (simp_all add: keys_def)
  moreover have "free_list m' (m (p + 8)) bs"
    by (rule Cons.IH) (use Cons.prems in auto)
  ultimately show ?case using Cons.prems(1) by auto
qed simp

lemma free_list_upd:
  "free_list m p bs \<Longrightarrow> (\<And>b. b \<in> set bs \<Longrightarrow> k \<notin> keys b) \<Longrightarrow> free_list (m(k := v)) p bs"
  by (erule free_list_cong) auto

lemma add_free_list:
  assumes "free_list (mem h) (head h) bs" "fst b \<noteq> 0" "\<And>c. c \<in> set bs \<Longrightarrow> keys b \<inter> keys c = {}"
  shows "free_list (mem (add_free (fst b) (snd b) h)) (head (add_free (fst b) (snd b) h)) (b # bs)"
proof -
  have "fst b + 8 \<noteq> fst b" by simp
  moreover have "fst b \<notin> keys c" "fst b + 8 \<notin> keys c" if "c \<in> set bs" for c
    using assms(3) [OF that] by (auto simp: keys_def [of b])
  then have "free_list ((mem h)(fst b := snd b, fst b + 8 := head h)) (head h) bs"
    using assms(1) by (intro free_list_upd) blast+
  ultimately show ?thesis using assms(2) by (simp add: add_free_def)
qed

section \<open>The search\<close>

definition fits :: "u64 \<Rightarrow> u64 \<Rightarrow> block \<Rightarrow> bool" where
  "fits sz align b =
    (let alloc_start = heap_align_up (fst b) align in
     case checked_add alloc_start sz of
       None \<Rightarrow> False
     | Some alloc_end \<Rightarrow>
         let excess = fst b + snd b - alloc_end; prefix = alloc_start - fst b in
         \<not> fst b + snd b < alloc_end \<and> \<not> (0 < excess \<and> excess < 16) \<and> \<not> (0 < prefix \<and> prefix < 16))"

definition carve :: "link \<Rightarrow> u64 \<Rightarrow> u64 \<Rightarrow> block \<Rightarrow> LinkedListAllocator \<Rightarrow> LinkedListAllocator" where
  "carve prev sz align b h =
    (let alloc_start = heap_align_up (fst b) align; alloc_end = alloc_start + sz;
         excess = fst b + snd b - alloc_end; prefix = alloc_start - fst b;
         h1 = write_link prev (block_next (fst b) h) h;
         h2 = (if 0 < prefix then add_free (fst b) prefix h1 else h1)
     in if 0 < excess then add_free alloc_end excess h2 else h2)"

lemma alloc_loop_step:
  assumes "free_list (mem h) (read_link prev h) (b # bs)"
  shows "alloc_loop prev sz align h =
    (if fits sz align b then Some (heap_align_up (fst b) align, carve prev sz align b h)
     else alloc_loop (NextLink (fst b)) sz align h)"
proof -
  have b: "read_link prev h = fst b" "fst b \<noteq> 0" "mem h (fst b) = snd b" using assms by auto
  show ?thesis
  proof (cases "checked_add (heap_align_up (fst b) align) sz")
    case None
    then show ?thesis by (simp add: alloc_loop.simps [of prev] b fits_def Let_def)
  next
    case (Some e)
    then have "e = heap_align_up (fst b) align + sz" by (simp add: checked_add_Some)
    then show ?thesis using Some
      by (simp add: alloc_loop.simps [of prev] b fits_def carve_def Let_def FreeBlock_SIZE_def)
  qed
qed

lemma alloc_loop_Nil:
  "free_list (mem h) (read_link prev h) [] \<Longrightarrow> alloc_loop prev sz align h = Some (0, h)"
  by (simp add: alloc_loop.simps)

definition link_after :: "link \<Rightarrow> block list \<Rightarrow> link" where
  "link_after prev bs = (if bs = [] then prev else NextLink (fst (last bs)))"

lemma alloc_loop_skip:
  assumes "free_list (mem h) (read_link prev h) (pre @ bs)" "\<And>b. b \<in> set pre \<Longrightarrow> \<not> fits sz align b"
  shows "alloc_loop prev sz align h = alloc_loop (link_after prev pre) sz align h \<and>
    free_list (mem h) (read_link (link_after prev pre) h) bs"
  using assms
proof (induction pre arbitrary: prev)
  case Nil
  then show ?case by (simp add: link_after_def)
next
  case (Cons b pre)
  have fl: "free_list (mem h) (read_link prev h) (b # (pre @ bs))"
    using Cons.prems(1) by (simp only: append_Cons)
  have "alloc_loop prev sz align h = alloc_loop (NextLink (fst b)) sz align h"
    using alloc_loop_step [OF fl] Cons.prems(2) [of b] by simp
  moreover have "free_list (mem h) (read_link (NextLink (fst b)) h) (pre @ bs)"
    using Cons.prems(1) by auto
  note IH = Cons.IH [OF this Cons.prems(2)]
  have "link_after (NextLink (fst b)) pre = link_after prev (b # pre)"
    by (simp add: link_after_def)
  ultimately show ?case using IH by simp
qed

lemma alloc_inner_cases:
  assumes "free_list (mem h) (head h) bs"
  obtains (none) "\<And>b. b \<in> set bs \<Longrightarrow> \<not> fits sz align b" "alloc_inner sz align h = Some (0, h)"
  | (some) pre b post where "bs = pre @ b # post" "\<And>c. c \<in> set pre \<Longrightarrow> \<not> fits sz align c" "fits sz align b"
      "alloc_inner sz align h =
        Some (heap_align_up (fst b) align, carve (link_after HeadLink pre) sz align b h)"
      "free_list (mem h) (read_link (link_after HeadLink pre) h) (b # post)"
proof (cases "\<exists>b \<in> set bs. fits sz align b")
  case False
  have "alloc_inner sz align h = Some (0, h)"
    unfolding alloc_inner_def
    using alloc_loop_skip [of h HeadLink bs "[]" sz align] alloc_loop_Nil False assms by auto
  with False none show thesis by blast
next
  case True
  then obtain pre b post where bs: "bs = pre @ b # post" "fits sz align b" "\<forall>c \<in> set pre. \<not> fits sz align c"
    using split_list_first_prop [OF True] by blast
  have skip: "alloc_loop HeadLink sz align h = alloc_loop (link_after HeadLink pre) sz align h \<and>
      free_list (mem h) (read_link (link_after HeadLink pre) h) (b # post)"
    using alloc_loop_skip [of h HeadLink pre "b # post" sz align] assms bs
    by (simp del: free_list.simps)
  then show thesis
    using bs alloc_loop_step [of h "link_after HeadLink pre" b post sz align]
    by (intro some [OF bs(1)]) (auto simp: alloc_inner_def)
qed

section \<open>Blocks that cover the heap once\<close>

lemma cover_disjoint:
  assumes "\<And>x. cover x (xs @ b # ys) \<le> 1" "c \<in> set xs \<union> set ys"
  shows "span b \<inter> span c = {}"
proof (rule ccontr)
  assume "span b \<inter> span c \<noteq> {}"
  then obtain x where x: "x \<in> span b" "x \<in> span c" by blast
  then have "0 < cover x xs + cover x ys" using assms(2) cover_pos [of c xs x] cover_pos [of c ys x] by auto
  with assms(1) [of x] x(1) show False by simp
qed

lemma free_list_unlink:
  assumes "free_list m p (q @ c # b # post)"
    "\<And>d. d \<in> set q \<union> set post \<Longrightarrow> keys c \<inter> keys d = {}"
    "m' = m(fst c + 8 := m (fst b + 8))"
  shows "free_list m' p (q @ c # post)"
  using assms(1,2)
proof (induction q arbitrary: p)
  case Nil
  then have "free_list m (m (fst b + 8)) post" by auto
  then have "free_list m' (m (fst b + 8)) post"
    unfolding assms(3) using Nil.prems(2) by (intro free_list_upd) (auto simp: keys_def [of c])
  moreover have "m' (fst c) = m (fst c)" "m' (fst c + 8) = m (fst b + 8)" by (simp_all add: assms(3))
  ultimately show ?case using Nil.prems(1) by auto
next
  case (Cons d q)
  have "free_list m' (m (fst d + 8)) (q @ c # post)"
    using Cons.prems by (intro Cons.IH) auto
  moreover have "fst c + 8 \<noteq> fst d" "fst c + 8 \<noteq> fst d + 8"
    using Cons.prems(2) [of d] by (auto simp: keys_def)
  then have "m' (fst d) = m (fst d)" "m' (fst d + 8) = m (fst d + 8)" by (simp_all add: assms(3))
  ultimately show ?case using Cons.prems(1) by auto
qed

lemma unlink_list:
  assumes "free_list (mem h) (head h) (pre @ b # post)" "\<And>x. cover x (pre @ b # post) \<le> 1"
    "\<And>c. c \<in> set (pre @ b # post) \<Longrightarrow> block_ok c"
  shows "free_list (mem (write_link (link_after HeadLink pre) (block_next (fst b) h) h))
    (head (write_link (link_after HeadLink pre) (block_next (fst b) h) h)) (pre @ post)"
proof (cases pre rule: rev_cases)
  case Nil
  then show ?thesis using assms(1) by (auto simp: link_after_def)
next
  case (snoc q c)
  have "keys c \<inter> keys d = {}" if "d \<in> set q \<union> set post" for d
  proof -
    have "span c \<inter> span d = {}"
      using assms(2) that by (intro cover_disjoint [of q c "b # post"]) (auto simp: snoc)
    then show ?thesis using assms(3) that by (intro keys_disjoint) (auto simp: snoc)
  qed
  then have "free_list ((mem h)(fst c + 8 := mem h (fst b + 8))) (head h) (q @ c # post)"
    using assms(1) by (intro free_list_unlink [of "mem h" "head h" q c b post]) (auto simp: snoc)
  then show ?thesis by (simp add: snoc link_after_def)
qed
section \<open>Placing a request in a block\<close>

definition good_request :: "nat \<Rightarrow> u64 \<Rightarrow> u64 \<Rightarrow> bool" where
  "good_request H sz align \<longleftrightarrow>
    (\<exists>k < 64. 3 \<le> k \<and> align = 2 ^ k) \<and> 8 dvd unat sz \<and> 16 \<le> unat sz \<and> H + unat align \<le> 2 ^ 64"

definition start_of :: "u64 \<Rightarrow> block \<Rightarrow> nat" where
  "start_of align b = (lo b + (unat align - 1)) div unat align * unat align"

definition placeable :: "u64 \<Rightarrow> u64 \<Rightarrow> block \<Rightarrow> bool" where
  "placeable sz align b \<longleftrightarrow>
    (start_of align b + unat sz = hi b \<or> start_of align b + unat sz + 16 \<le> hi b) \<and>
    (start_of align b = lo b \<or> lo b + 16 \<le> start_of align b)"

lemma start_of_facts:
  assumes "good_request H sz align" "block_ok b" "hi b \<le> H"
  shows "unat (heap_align_up (fst b) align) = start_of align b"
    "lo b \<le> start_of align b" "unat align dvd start_of align b" "8 dvd start_of align b"
proof -
  obtain k where k: "k < 64" "3 \<le> k" "align = 2 ^ k" using assms(1) by (auto simp: good_request_def)
  have A: "unat align = 2 ^ k" using k by (simp add: unat_two_power)
  have "lo b + 16 \<le> H" "H + 2 ^ k \<le> 2 ^ 64"
    using assms A by (auto simp: good_request_def block_ok_def)
  then have "lo b + (2 ^ k - 1) < 2 ^ 64" by linarith
  then have "unat (align_up (fst b) (2 ^ k)) = (lo b + (2 ^ k - 1)) div 2 ^ k * 2 ^ k"
    using k(1) by (intro unat_align_up) simp_all
  then show "unat (heap_align_up (fst b) align) = start_of align b"
    by (simp add: heap_align_up_def align_up_def start_of_def k(3) A [unfolded k(3)])
  show "lo b \<le> start_of align b" using div_mult_ceil(1) [of "2 ^ k" "lo b"] by (simp add: start_of_def A)
  show dv: "unat align dvd start_of align b" by (simp add: start_of_def)
  have "(2 :: nat) ^ 3 dvd 2 ^ k" using k(2) by (rule le_imp_power_dvd)
  then show "8 dvd start_of align b" using dv A by (auto intro: dvd_trans)
qed

lemma fits_pieces:
  assumes "good_request H sz align" "block_ok b" "hi b \<le> H"
  defines "s \<equiv> heap_align_up (fst b) align"
  shows "unat (s - fst b) = start_of align b - lo b"
    "start_of align b + unat sz \<le> hi b \<Longrightarrow> unat (s + sz) = start_of align b + unat sz"
    "start_of align b + unat sz \<le> hi b \<Longrightarrow>
      unat (fst b + snd b - (s + sz)) = hi b - (start_of align b + unat sz)"
proof -
  note st = start_of_facts [OF assms(1-3), folded s_def]
  have "fst b \<le> s" using st(1,2) by (simp add: word_le_nat_alt)
  then show "unat (s - fst b) = start_of align b - lo b" using st(1) by (simp add: unat_sub)
  assume le: "start_of align b + unat sz \<le> hi b"
  moreover have "hi b < 2 ^ 64" using assms(2) by (simp add: block_ok_def)
  ultimately show e: "unat (s + sz) = start_of align b + unat sz"
    using st(1) by (simp add: unat_word_ariths)
  have "s + sz \<le> fst b + snd b" using le e block_end [OF assms(2)] by (simp add: word_le_nat_alt)
  then show "unat (fst b + snd b - (s + sz)) = hi b - (start_of align b + unat sz)"
    using e block_end [OF assms(2)] by (simp add: unat_sub)
qed

lemma fits_iff:
  assumes "good_request H sz align" "block_ok b" "hi b \<le> H"
  shows "fits sz align b \<longleftrightarrow> placeable sz align b"
proof -
  let ?s = "heap_align_up (fst b) align"
  note st = start_of_facts [OF assms] and pc = fits_pieces [OF assms]
  have top: "hi b < 2 ^ 64" using assms(2) by (simp add: block_ok_def)
  show ?thesis
  proof (cases "start_of align b + unat sz \<le> hi b")
    case True
    then have "checked_add ?s sz = Some (?s + sz)"
      using st(1) top by (simp add: checked_add_def)
    then show ?thesis
      using True st(2) pc(1) pc(2,3) [OF True] block_end [OF assms(2)]
      by (auto simp: fits_def placeable_def Let_def word_less_nat_alt)
  next
    case False
    then have "\<not> placeable sz align b" by (auto simp: placeable_def)
    moreover have "\<not> fits sz align b"
      using False st(1) block_end [OF assms(2)]
      by (auto simp: fits_def Let_def checked_add_Some word_less_nat_alt split: option.split)
    ultimately show ?thesis by simp
  qed
qed

section \<open>The operations keep the partition\<close>

lemma heap_rep_block:
  assumes "heap_rep L H h bs live" "b \<in> set (bs @ live)"
  shows "block_ok b" "hi b \<le> H" "L \<le> lo b"
proof -
  show ok: "block_ok b" using assms by (simp add: heap_rep_def)
  have "0 < cover x (bs @ live)" if "x \<in> span b" for x using cover_pos [OF assms(2) that] .
  then have in_heap: "L \<le> x \<and> x < H" if "x \<in> span b" for x
    using assms(1) that unfolding heap_rep_def by (metis less_numeral_extra(3))
  have "hi b - 1 \<in> span b" using ok by (auto simp: span_def block_ok_def)
  then have "hi b - 1 < H" using in_heap by blast
  then show "hi b \<le> H" by simp
  show "L \<le> lo b" using in_heap [of "lo b"] ok by (auto simp: span_def block_ok_def)
qed

lemma add_free_rep:
  assumes "free_list (mem h) (head h) bs" "block_ok b" "\<And>c. c \<in> set bs \<Longrightarrow> block_ok c"
    "\<And>c. c \<in> set bs \<Longrightarrow> span b \<inter> span c = {}"
  shows "free_list (mem (add_free (fst b) (snd b) h)) (head (add_free (fst b) (snd b) h)) (b # bs)"
  using assms by (intro add_free_list keys_disjoint) (auto simp: block_ok_def)

definition prefix_part :: "u64 \<Rightarrow> block \<Rightarrow> block list" where
  "prefix_part align b =
    (let s = heap_align_up (fst b) align in if 0 < s - fst b then [(fst b, s - fst b)] else [])"

definition suffix_part :: "u64 \<Rightarrow> u64 \<Rightarrow> block \<Rightarrow> block list" where
  "suffix_part sz align b =
    (let e = heap_align_up (fst b) align + sz; x = fst b + snd b - e in if 0 < x then [(e, x)] else [])"

lemma parts_of_block:
  assumes req: "good_request H sz align" and b: "block_ok b" "hi b \<le> H" and fit: "fits sz align b"
  defines "s \<equiv> heap_align_up (fst b) align"
  shows "c \<in> set (suffix_part sz align b @ prefix_part align b @ [(s, sz)]) \<Longrightarrow> block_ok c"
    and "cover x (suffix_part sz align b @ prefix_part align b @ [(s, sz)]) = of_bool (x \<in> span b)"
    and "unat align dvd unat s"
proof -
  define S where "S = start_of align b"
  note st = start_of_facts [OF req b, folded S_def s_def]
  have pl: "S + unat sz = hi b \<or> S + unat sz + 16 \<le> hi b" "S = lo b \<or> lo b + 16 \<le> S"
    using fit fits_iff [OF req b] by (simp_all add: placeable_def S_def)
  then have le: "S + unat sz \<le> hi b" by auto
  note pre = fits_pieces(1) [OF req b, folded S_def s_def]
  note suf = fits_pieces(2,3) [OF req b, folded S_def s_def, OF le]
  have sz: "8 dvd unat sz" "16 \<le> unat sz" using req by (simp_all add: good_request_def)
  have bo: "0 < lo b" "8 dvd lo b" "8 dvd unat (snd b)" "hi b < 2 ^ 64" using b(1) by (simp_all add: block_ok_def)
  have dv: "8 dvd S - lo b" "8 dvd hi b - (S + unat sz)" "8 dvd S + unat sz"
    using bo sz st(4) by (auto intro: dvd_diff_nat)
  have pp: "prefix_part align b = (if S = lo b then [] else [(fst b, s - fst b)])"
    using pre st(2) by (auto simp: prefix_part_def s_def [symmetric] Let_def word_less_nat_alt)
  have sp: "suffix_part sz align b = (if S + unat sz = hi b then [] else [(s + sz, fst b + snd b - (s + sz))])"
    using suf le by (auto simp: suffix_part_def s_def [symmetric] Let_def word_less_nat_alt)
  show "c \<in> set (suffix_part sz align b @ prefix_part align b @ [(s, sz)]) \<Longrightarrow> block_ok c"
    using pl le bo sz dv st pre suf by (auto simp: pp sp block_ok_def split: if_splits)
  show "cover x (suffix_part sz align b @ prefix_part align b @ [(s, sz)]) = of_bool (x \<in> span b)"
    using pl le sz st(1,2) pre suf by (auto simp: pp sp span_def split: if_splits)
  show "unat align dvd unat s" using st(1,3) by simp
qed

lemma carve_list:
  assumes rep: "heap_rep L H h (pre @ b # post) live" and req: "good_request H sz align"
    and fit: "fits sz align b"
  shows "free_list (mem (carve (link_after HeadLink pre) sz align b h))
    (head (carve (link_after HeadLink pre) sz align b h))
    (suffix_part sz align b @ prefix_part align b @ pre @ post)"
proof -
  let ?s = "heap_align_up (fst b) align"
  note b = heap_rep_block(1,2) [OF rep, of b, simplified]
  note parts = parts_of_block [OF req b fit]
  have ok: "block_ok c" if "c \<in> set (pre @ b # post)" for c using rep that by (auto simp: heap_rep_def)
  have cov: "cover x (pre @ b # post @ live) \<le> 1" for x using rep by (simp add: heap_rep_def)
  have dis: "span b \<inter> span c = {}" if "c \<in> set (pre @ post)" for c
    using cov that by (intro cover_disjoint [of pre b "post @ live"]) auto
  have sub: "span c \<subseteq> span b" if "c \<in> set (suffix_part sz align b @ prefix_part align b)" for c
  proof
    fix x assume "x \<in> span c"
    then have "0 < cover x (suffix_part sz align b @ prefix_part align b @ [(?s, sz)])"
      using cover_pos [OF that, of x] by auto
    then show "x \<in> span b" unfolding parts(2) by (simp split: if_splits)
  qed
  define h1 where "h1 = write_link (link_after HeadLink pre) (block_next (fst b) h) h"
  define h2 where "h2 = (if 0 < ?s - fst b then add_free (fst b) (?s - fst b) h1 else h1)"
  have l1: "free_list (mem h1) (head h1) (pre @ post)"
    unfolding h1_def
  proof (rule unlink_list)
    show "cover x (pre @ b # post) \<le> 1" for x using cov [of x] by simp
  qed (use rep ok in \<open>auto simp: heap_rep_def\<close>)
  have far: "span c \<inter> span d = {}"
    if "c \<in> set (suffix_part sz align b @ prefix_part align b)" "d \<in> set (pre @ post)" for c d
    using sub [OF that(1)] dis [OF that(2)] by blast
  have l2: "free_list (mem h2) (head h2) (prefix_part align b @ pre @ post)"
  proof (cases "0 < ?s - fst b")
    case True
    then have p: "prefix_part align b = [(fst b, ?s - fst b)]" by (simp add: prefix_part_def)
    show ?thesis using add_free_rep [OF l1, of "(fst b, ?s - fst b)"] True ok far parts(1) by (simp add: p h2_def del: free_list.simps)
  next
    case False
    then show ?thesis using l1 by (simp add: prefix_part_def h2_def)
  qed
  let ?e = "?s + sz"
  let ?x = "fst b + snd b - ?e"
  have carve: "carve (link_after HeadLink pre) sz align b h = (if 0 < ?x then add_free ?e ?x h2 else h2)"
    unfolding carve_def h2_def h1_def Let_def by (rule refl)
  show ?thesis
  proof (cases "0 < ?x")
    case True
    then have p: "suffix_part sz align b = [(?e, ?x)]" by (simp add: suffix_part_def Let_def)
    have near: "span (?e, ?x) \<inter> span c = {}" if "c \<in> set (prefix_part align b)" for c
      using parts(2) that by (intro cover_disjoint [of "[]" _ "prefix_part align b @ [(?s, sz)]"]) (simp_all add: p)
    have okX: "block_ok (?e, ?x)" by (rule parts(1)) (simp add: p)
    have okr: "block_ok c" if "c \<in> set (prefix_part align b @ pre @ post)" for c
      using that parts(1) [of c] ok [of c] by auto
    have disr: "span (?e, ?x) \<inter> span c = {}" if "c \<in> set (prefix_part align b @ pre @ post)" for c
      using that near [of c] far [of "(?e, ?x)" c] by (auto simp: p)
    have "free_list (mem (add_free ?e ?x h2)) (head (add_free ?e ?x h2)) ((?e, ?x) # prefix_part align b @ pre @ post)"
      using add_free_rep [OF l2 okX okr disr] by (simp only: fst_conv snd_conv)
    then show ?thesis using True p by (simp add: carve del: free_list.simps)
  next
    case False
    then show ?thesis using l2 by (simp add: carve suffix_part_def Let_def)
  qed
qed

lemma carve_rep:
  assumes rep: "heap_rep L H h (pre @ b # post) live" and req: "good_request H sz align"
    and fit: "fits sz align b"
  shows "heap_rep L H (carve (link_after HeadLink pre) sz align b h)
    (suffix_part sz align b @ prefix_part align b @ pre @ post) ((heap_align_up (fst b) align, sz) # live)"
proof -
  let ?s = "heap_align_up (fst b) align"
  note b = heap_rep_block(1,2) [OF rep, of b, simplified]
  note parts = parts_of_block [OF req b fit]
  have "cover x (pre @ b # post @ live) = (if L \<le> x \<and> x < H then 1 else 0)" for x
    using rep by (simp add: heap_rep_def)
  moreover have "cover x ((suffix_part sz align b @ prefix_part align b @ pre @ post) @ (?s, sz) # live) =
      cover x (pre @ b # post @ live)" for x
    using parts(2) [of x] by simp
  moreover have "block_ok c" if "c \<in> set ((suffix_part sz align b @ prefix_part align b @ pre @ post) @ (?s, sz) # live)" for c
    using that parts(1) [of c] rep by (auto simp: heap_rep_def)
  ultimately show ?thesis
    using carve_list [OF rep req fit] unfolding heap_rep_def by simp
qed

lemma alloc_inner_spec:
  assumes rep: "heap_rep L H h bs live" and req: "good_request H sz align"
  obtains (none) "\<And>b. b \<in> set bs \<Longrightarrow> \<not> placeable sz align b" "alloc_inner sz align h = Some (0, h)"
  | (some) pre b post p h' bs' where "bs = pre @ b # post" "\<And>c. c \<in> set pre \<Longrightarrow> \<not> placeable sz align c"
      "placeable sz align b" "alloc_inner sz align h = Some (p, h')"
      "unat p = start_of align b" "heap_rep L H h' bs' ((p, sz) # live)" "p \<noteq> 0" "unat align dvd unat p"
proof -
  have fl: "free_list (mem h) (head h) bs" using rep by (simp add: heap_rep_def)
  have fit: "fits sz align b \<longleftrightarrow> placeable sz align b" if "b \<in> set bs" for b
    using heap_rep_block(1,2) [OF rep, of b] that by (intro fits_iff [OF req]) auto
  from fl show thesis
  proof (cases rule: alloc_inner_cases [of h bs sz align])
    case none
    then show thesis using fit that(1) by blast
  next
    case (some pre b post)
    let ?p = "heap_align_up (fst b) align"
    have rep': "heap_rep L H h (pre @ b # post) live" using rep some(1) by simp
    note cr = carve_rep [OF rep' req some(3)]
    note b = heap_rep_block(1,2) [OF rep', of b, simplified]
    have "block_ok (?p, sz)" using heap_rep_block(1) [OF cr, of "(?p, sz)"] by simp
    then have "?p \<noteq> 0" by (auto simp: block_ok_def)
    moreover have "\<not> placeable sz align c" if "c \<in> set pre" for c
      using some(1,2) that fit [of c] by auto
    ultimately show thesis
      using start_of_facts(1,3) [OF req b] some fit [of b] cr by (intro that(2) [OF some(1)]) auto
  qed
qed

lemma dealloc_rep:
  assumes "heap_rep L H h bs live" "b \<in> set live"
  shows "heap_rep L H (dealloc_inner (fst b) (snd b) h) (b # bs) (remove1 b live)"
proof -
  from assms(2) obtain l1 l2 where live: "live = l1 @ b # l2" "b \<notin> set l1"
    by (meson split_list_first)
  then have rm: "remove1 b live = l1 @ l2" by (simp add: remove1_append)
  have cov: "cover x ((bs @ l1) @ b # l2) = (if L \<le> x \<and> x < H then 1 else 0)" for x
    using assms(1) live(1) by (simp add: heap_rep_def)
  have dis: "span b \<inter> span c = {}" if "c \<in> set bs" for c
    using cov that by (intro cover_disjoint [of "bs @ l1" b l2]) auto
  have ok: "block_ok c" if "c \<in> set bs \<union> set live" for c using assms(1) that by (auto simp: heap_rep_def)
  have "free_list (mem (dealloc_inner (fst b) (snd b) h)) (head (dealloc_inner (fst b) (snd b) h)) (b # bs)"
    unfolding dealloc_inner_def
    using assms ok dis by (intro add_free_rep) (auto simp: heap_rep_def)
  moreover have "cover x ((b # bs) @ remove1 b live) = (if L \<le> x \<and> x < H then 1 else 0)" for x
    using cov [of x] rm by simp
  ultimately show ?thesis
    using ok live unfolding heap_rep_def rm by auto
qed

lemma init_rep:
  assumes "block_ok (start, sz)"
  shows "heap_rep (unat start) (unat start + unat sz) (LinkedListAllocator_init start sz h) [(start, sz)] []"
proof -
  have "start \<noteq> 0" using assms by (auto simp: block_ok_def)
  then have "free_list (mem (LinkedListAllocator_init start sz h)) (head (LinkedListAllocator_init start sz h)) [(start, sz)]"
    by (simp add: LinkedListAllocator_init_def add_free_def)
  then show ?thesis using assms by (auto simp: heap_rep_def span_def simp del: free_list.simps)
qed

text \<open>A client that writes inside its own allocations does not disturb the allocator.\<close>

lemma client_write_rep:
  assumes "heap_rep L H h bs live" "b \<in> set live" "unat a \<in> span b"
  shows "heap_rep L H (h\<lparr>mem := (mem h)(a := v)\<rparr>) bs live"
proof -
  from assms(2) obtain l1 l2 where live: "live = l1 @ b # l2" by (meson split_list)
  have dis: "span b \<inter> span c = {}" if "c \<in> set bs" for c
    using assms(1) that by (intro cover_disjoint [of "bs @ l1" b l2]) (auto simp: heap_rep_def live)
  have "a \<notin> keys c" if "c \<in> set bs" for c
    using dis [OF that] keys_in_span [of c a] assms that by (auto simp: heap_rep_def)
  then have "free_list ((mem h)(a := v)) (head h) bs"
    using assms(1) by (intro free_list_upd) (auto simp: heap_rep_def)
  then show ?thesis using assms(1) by (simp add: heap_rep_def)
qed

section \<open>Layouts\<close>

definition layout_ok :: "Layout \<Rightarrow> bool" where
  "layout_ok l \<longleftrightarrow> (\<exists>k < 46. layout_align l = 2 ^ k) \<and>
    unat (layout_size l) + max (unat (layout_align l)) 8 \<le> 2 ^ 63"

lemma size_align_spec:
  assumes "layout_ok l"
  obtains sz al where "size_align l = Some (sz, al)" "unat al = max (unat (layout_align l)) 8"
    "unat sz = max ((unat (layout_size l) + (unat al - 1)) div unat al * unat al) 16"
    "\<exists>k < 46. 3 \<le> k \<and> al = 2 ^ k"
proof -
  obtain k where k: "k < 46" "layout_align l = 2 ^ k" using assms by (auto simp: layout_ok_def)
  define K where "K = max k 3"
  have K: "K < 46" "3 \<le> K" using k(1) by (simp_all add: K_def)
  have al: "max (layout_align l) FreeBlock_ALIGN = 2 ^ K"
  proof (cases "k \<le> 3")
    case True
    then have "(2 :: nat) ^ k \<le> 2 ^ 3" by (intro power_increasing) simp_all
    then have "layout_align l \<le> 8" using k by (simp add: word_le_nat_alt unat_two_power)
    with True show ?thesis by (simp add: K_def FreeBlock_ALIGN_def max_def)
  next
    case False
    then have "(2 :: nat) ^ 3 \<le> 2 ^ k" by (intro power_increasing) simp_all
    then have "8 \<le> layout_align l" using k by (simp add: word_le_nat_alt unat_two_power)
    with False k(2) show ?thesis by (simp add: K_def FreeBlock_ALIGN_def max_def)
  qed
  have uK: "unat (2 ^ K :: u64) = 2 ^ K" using K by (simp add: unat_two_power)
  have uA: "2 ^ K = max (unat (layout_align l)) 8"
    using arg_cong [OF al, of unat] uK by (simp add: unat_max FreeBlock_ALIGN_def)
  have room: "unat (layout_size l) + 2 ^ K \<le> 2 ^ 63" using assms uA by (simp add: layout_ok_def)
  have "unat (2 ^ K - 1 :: u64) = 2 ^ K - 1" using K(1) by (simp add: unat_minus_one uK)
  then have "unat (isize_MAX - (2 ^ K - 1)) = 2 ^ 63 - 2 ^ K"
    using room by (simp add: unat_sub_if' isize_MAX_def uK)
  then have at: "align_to FreeBlock_ALIGN l = Some (l\<lparr>layout_align := 2 ^ K\<rparr>)"
    using room by (simp add: align_to_def al Let_def word_less_nat_alt)
  have "unat (align_up (layout_size l) (2 ^ K)) = (unat (layout_size l) + (2 ^ K - 1)) div 2 ^ K * 2 ^ K"
    using room K(1) by (intro unat_align_up) simp_all
  then have "unat (layout_size (pad_to_align (l\<lparr>layout_align := 2 ^ K\<rparr>))) =
      (unat (layout_size l) + (2 ^ K - 1)) div 2 ^ K * 2 ^ K"
    by (simp add: pad_to_align_def align_up_def add_diff_eq)
  then show thesis
    using K uK uA by (intro that) (auto simp: size_align_def at Let_def unat_max FreeBlock_SIZE_def pad_to_align_def)
qed

lemma size_align_request:
  assumes "layout_ok l" "H + 2 ^ 45 \<le> 2 ^ 64"
  obtains sz al where "size_align l = Some (sz, al)" "good_request H sz al"
    "unat (layout_size l) \<le> unat sz" "unat (layout_align l) dvd unat al"
proof -
  obtain sz al k where sa: "size_align l = Some (sz, al)" "unat al = max (unat (layout_align l)) 8"
    "unat sz = max ((unat (layout_size l) + (unat al - 1)) div unat al * unat al) 16"
    "k < 46" "3 \<le> k" "al = 2 ^ k"
    using size_align_spec [OF assms(1)] by metis
  have A: "unat al = 2 ^ k" using sa by (simp add: unat_two_power)
  have "(2 :: nat) ^ 3 dvd 2 ^ k" using sa(5) by (rule le_imp_power_dvd)
  then have "8 dvd unat al" using A by simp
  then have "8 dvd (unat (layout_size l) + (unat al - 1)) div unat al * unat al" by simp
  then have "8 dvd unat sz" unfolding sa(3) by (auto simp: max_def)
  moreover have "16 \<le> unat sz" by (simp add: sa(3))
  moreover have "(2 :: nat) ^ k \<le> 2 ^ 45" using sa(4) by (intro power_increasing) simp_all
  then have "H + unat al \<le> 2 ^ 64" using assms(2) A by simp
  ultimately have req: "good_request H sz al"
    unfolding good_request_def using sa(4-6) by (intro conjI exI [of _ k]) simp_all
  have "unat (layout_size l) \<le> (unat (layout_size l) + (unat al - 1)) div unat al * unat al"
    using A by (intro div_mult_ceil(1)) simp
  then have le: "unat (layout_size l) \<le> unat sz" unfolding sa(3) le_max_iff_disj ..
  obtain j where j: "layout_align l = 2 ^ j" "j < 46" using assms(1) by (auto simp: layout_ok_def)
  then have uj: "unat (layout_align l) = 2 ^ j" by (simp add: unat_two_power)
  have "unat (layout_align l) dvd unat al"
  proof (cases "j \<le> 3")
    case True
    then have "(2 :: nat) ^ j dvd 2 ^ 3" by (rule le_imp_power_dvd)
    then show ?thesis using \<open>8 dvd unat al\<close> by (auto simp: uj intro: dvd_trans)
  next
    case False
    then have "(2 :: nat) ^ 3 \<le> 2 ^ j" by (intro power_increasing) simp_all
    then show ?thesis using sa(2) uj by (simp add: max_def)
  qed
  with sa(1) req le show thesis by (rule that)
qed

section \<open>Runs of the allocator\<close>

text \<open>
  A client of the global allocator: it allocates, frees blocks it holds, and writes quadwords into
  blocks it holds. The state is the allocator and the list of the held blocks with their layouts.
\<close>

datatype heap_op = HAlloc Layout | HFree u64 Layout | HWrite u64 u64

type_synonym client = "LinkedListAllocator \<times> (u64 \<times> Layout) list"

definition held_block :: "u64 \<times> Layout \<Rightarrow> block" where
  "held_block x = (fst x, fst (the (size_align (snd x))))"

fun heap_step :: "heap_op \<Rightarrow> client \<Rightarrow> client option" where
  "heap_step (HAlloc l) (h, held) =
    (case heap_alloc l h of
       None \<Rightarrow> None
     | Some (p, h') \<Rightarrow> Some (h', if p = 0 then held else (p, l) # held))"
| "heap_step (HFree p l) (h, held) =
    (if (p, l) \<in> set held
     then map_option (\<lambda>h'. (h', remove1 (p, l) held)) (heap_dealloc p l h)
     else Some (h, held))"
| "heap_step (HWrite a v) (h, held) =
    Some (if list_ex (\<lambda>x. fst (held_block x) \<le> a \<and> unat a < hi (held_block x)) held
          then h\<lparr>mem := (mem h)(a := v)\<rparr> else h, held)"

fun heap_run :: "heap_op list \<Rightarrow> client \<Rightarrow> client option" where
  "heap_run [] c = Some c"
| "heap_run (op # ops) c = (case heap_step op c of None \<Rightarrow> None | Some c' \<Rightarrow> heap_run ops c')"

primrec op_ok :: "heap_op \<Rightarrow> bool" where
  "op_ok (HAlloc l) = layout_ok l"
| "op_ok (HFree p l) = True"
| "op_ok (HWrite a v) = True"

definition client_inv :: "nat \<Rightarrow> nat \<Rightarrow> client \<Rightarrow> bool" where
  "client_inv L H c \<longleftrightarrow>
    (\<exists>bs. heap_rep L H (fst c) bs (map held_block (snd c))) \<and> (\<forall>x \<in> set (snd c). layout_ok (snd x))"

lemma map_remove1_held:
  "x \<in> set xs \<Longrightarrow> mset (map f (remove1 x xs)) = mset (remove1 (f x) (map f xs))"
  by (simp add: image_mset_Diff)

lemma heap_rep_perm:
  assumes "heap_rep L H h bs live" "mset live' = mset live"
  shows "heap_rep L H h bs live'"
proof -
  have "cover x live' = cover x live" for x
    using assms(2) unfolding cover_def by (metis mset_filter size_mset)
  moreover have "set live' = set live" using assms(2) by (metis set_mset_mset)
  ultimately show ?thesis using assms(1) by (simp add: heap_rep_def)
qed

lemma heap_step_inv:
  assumes inv: "client_inv L H c" and H: "H + 2 ^ 45 \<le> 2 ^ 64" and ok: "op_ok op"
  obtains c' where "heap_step op c = Some c'" "client_inv L H c'"
proof -
  obtain h held where c: "c = (h, held)" by (cases c)
  obtain bs where rep: "heap_rep L H h bs (map held_block held)" and lay: "\<forall>x \<in> set held. layout_ok (snd x)"
    using inv by (auto simp: client_inv_def c)
  show thesis
  proof (cases op)
    case (HAlloc l)
    then have "layout_ok l" using ok by simp
    then obtain sz al where sa: "size_align l = Some (sz, al)" and req: "good_request H sz al"
      using H by (rule size_align_request)
    from rep req show thesis
    proof (cases rule: alloc_inner_spec)
      case none
      then show thesis using HAlloc sa rep lay c
        by (intro that [of "(h, held)"]) (auto simp: heap_alloc_def client_inv_def)
    next
      case (some pre b post p h' bs')
      then have "heap_rep L H h' bs' (map held_block ((p, l) # held))"
        using sa by (simp add: held_block_def)
      then show thesis using HAlloc sa lay c ok some
        by (intro that [of "(h', (p, l) # held)"]) (auto simp: heap_alloc_def client_inv_def)
    qed
  next
    case (HFree p l)
    show thesis
    proof (cases "(p, l) \<in> set held")
      case True
      then have "layout_ok l" using lay by auto
      then obtain sz al where sa: "size_align l = Some (sz, al)"
        using H by (rule size_align_request)
      then have hb: "held_block (p, l) = (p, sz)" by (simp add: held_block_def)
      have "heap_rep L H (dealloc_inner p sz h) ((p, sz) # bs) (remove1 (p, sz) (map held_block held))"
        using dealloc_rep [OF rep, of "(p, sz)"] True hb by force
      then have "heap_rep L H (dealloc_inner p sz h) ((p, sz) # bs) (map held_block (remove1 (p, l) held))"
        by (rule heap_rep_perm) (use map_remove1_held [OF True, of held_block] hb in simp)
      then show thesis using HFree sa lay c True
        by (intro that [of "(dealloc_inner p sz h, remove1 (p, l) held)"])
          (auto simp: heap_dealloc_def client_inv_def dest: notin_set_remove1)
    next
      case False
      then show thesis using HFree inv c by (intro that [of c]) auto
    qed
  next
    case (HWrite a v)
    show thesis
    proof (cases "list_ex (\<lambda>x. fst (held_block x) \<le> a \<and> unat a < hi (held_block x)) held")
      case True
      then obtain x where "x \<in> set held" "unat a \<in> span (held_block x)"
        by (auto simp: list_ex_iff span_def word_le_nat_alt)
      then have "heap_rep L H (h\<lparr>mem := (mem h)(a := v)\<rparr>) bs (map held_block held)"
        by (intro client_write_rep [OF rep, of "held_block x"]) auto
      then show thesis using HWrite True lay c
        by (intro that [of "(h\<lparr>mem := (mem h)(a := v)\<rparr>, held)"]) (auto simp: client_inv_def)
    next
      case False
      then show thesis using HWrite inv c by (intro that [of c]) auto
    qed
  qed
qed

lemma heap_run_inv:
  assumes "client_inv L H c" "H + 2 ^ 45 \<le> 2 ^ 64" "list_all op_ok ops"
  shows "\<exists>c'. heap_run ops c = Some c' \<and> client_inv L H c'"
  using assms
proof (induction ops arbitrary: c)
  case (Cons op ops)
  from Cons.prems have "op_ok op" by simp
  with Cons.prems(1,2) obtain c' where "heap_step op c = Some c'" "client_inv L H c'"
    by (rule heap_step_inv)
  then show ?case using Cons by simp
qed simp

section \<open>Properties\<close>

abbreviation HEAP_LO :: nat where
  "HEAP_LO \<equiv> unat HEAP_START"

abbreviation HEAP_HI :: nat where
  "HEAP_HI \<equiv> unat HEAP_START + HEAP_SIZE"

abbreviation armed_heap :: "LinkedListAllocator \<Rightarrow> LinkedListAllocator" where
  "armed_heap h \<equiv> LinkedListAllocator_init HEAP_START (of_nat HEAP_SIZE) h"

lemma armed_heap_rep: "heap_rep HEAP_LO HEAP_HI (armed_heap h) [(HEAP_START, of_nat HEAP_SIZE)] []"
proof -
  have "block_ok (HEAP_START, of_nat HEAP_SIZE)" by (simp add: block_ok_def kconst)
  moreover have "unat (of_nat HEAP_SIZE :: u64) = HEAP_SIZE" by (simp add: kconst)
  ultimately show ?thesis using init_rep [of HEAP_START "of_nat HEAP_SIZE" h] by simp
qed

text \<open>C9: every run of a client on the freshly armed heap (allocations of valid layouts with
  alignment below \<open>2 ^ 46\<close>, frees of held blocks, writes into held blocks) goes through, and at its
  end the free list is intact and the free blocks and the held blocks together cover every byte of
  the heap exactly once and no byte outside it: held blocks never overlap each other or a free
  block, and no byte is lost.\<close>

theorem heap_run_partitions_heap:
  assumes "list_all op_ok ops"
  shows "\<exists>h held bs. heap_run ops (armed_heap h0, []) = Some (h, held) \<and>
    free_list (mem h) (head h) bs \<and>
    (\<forall>x. cover x (bs @ map held_block held) = (if HEAP_LO \<le> x \<and> x < HEAP_HI then 1 else 0))"
proof -
  have "client_inv HEAP_LO HEAP_HI (armed_heap h0, [])"
    using armed_heap_rep [of h0] by (auto simp: client_inv_def)
  moreover have "HEAP_HI + 2 ^ 45 \<le> 2 ^ 64" by (simp add: kconst)
  ultimately obtain h held bs where "heap_run ops (armed_heap h0, []) = Some (h, held)"
    "heap_rep HEAP_LO HEAP_HI h bs (map held_block held)"
    using heap_run_inv [OF _ _ assms] unfolding client_inv_def by (metis prod.collapse)
  then show ?thesis unfolding heap_rep_def by blast
qed

definition example_ops :: "heap_op list" where
  "example_ops =
    [HAlloc \<lparr>layout_size = 100, layout_align = 16\<rparr>, HWrite HEAP_START 7,
     HAlloc \<lparr>layout_size = 1, layout_align = 1\<rparr>, HFree HEAP_START \<lparr>layout_size = 100, layout_align = 16\<rparr>]"

lemma example_layouts:
  "layout_ok \<lparr>layout_size = 100, layout_align = 16\<rparr>" "layout_ok \<lparr>layout_size = 1, layout_align = 1\<rparr>"
  "layout_ok \<lparr>layout_size = 20, layout_align = 4\<rparr>"
proof -
  have "\<exists>k < 46. (16 :: u64) = 2 ^ k" by (intro exI [of _ 4]) simp
  moreover have "\<exists>k < 46. (1 :: u64) = 2 ^ k" by (intro exI [of _ 0]) simp
  moreover have "\<exists>k < 46. (4 :: u64) = 2 ^ k" by (intro exI [of _ 2]) simp
  ultimately show "layout_ok \<lparr>layout_size = 100, layout_align = 16\<rparr>"
    "layout_ok \<lparr>layout_size = 1, layout_align = 1\<rparr>" "layout_ok \<lparr>layout_size = 20, layout_align = 4\<rparr>"
    unfolding layout_ok_def by simp_all
qed

theorem heap_run_partitions_heap_witness:
  "\<exists>h held bs. heap_run example_ops (armed_heap (LinkedListAllocator_new (\<lambda>_. 0)), []) = Some (h, held) \<and>
    cover HEAP_LO (bs @ map held_block held) = 1"
proof -
  have "list_all op_ok example_ops" by (simp add: example_ops_def example_layouts)
  from heap_run_partitions_heap [OF this, of "LinkedListAllocator_new (\<lambda>_. 0)"]
  obtain h held bs where
    run: "heap_run example_ops (armed_heap (LinkedListAllocator_new (\<lambda>_. 0)), []) = Some (h, held)" and
    cov: "\<forall>x. cover x (bs @ map held_block held) = (if HEAP_LO \<le> x \<and> x < HEAP_HI then 1 else 0)"
    by blast
  have "HEAP_LO < HEAP_HI" by (simp add: kconst)
  then have "cover HEAP_LO (bs @ map held_block held) = 1" using cov [rule_format, of HEAP_LO] by simp
  with run show ?thesis by blast
qed

text \<open>On every heap whose free and live blocks partition it, \<open>alloc_inner\<close> returns. It returns
  null, changing nothing, exactly when no free block can take the request without leaving a piece
  smaller than a header; otherwise it takes the first block of the list that can, at the lowest
  aligned address of that block, and the partition then has the new block among the live ones.\<close>

theorem alloc_inner_first_fit:
  assumes "heap_rep L H h bs live" "good_request H sz align"
  shows "(\<forall>b \<in> set bs. \<not> placeable sz align b) \<and> alloc_inner sz align h = Some (0, h) \<or>
    (\<exists>pre b post p h' bs'. bs = pre @ b # post \<and> (\<forall>c \<in> set pre. \<not> placeable sz align c) \<and>
       placeable sz align b \<and> alloc_inner sz align h = Some (p, h') \<and> p \<noteq> 0 \<and>
       unat p = start_of align b \<and> unat align dvd unat p \<and> heap_rep L H h' bs' ((p, sz) # live))"
  using assms
proof (cases rule: alloc_inner_spec)
  case none
  then show ?thesis by blast
next
  case (some pre b post p h' bs')
  then show ?thesis by blast
qed

lemma example_request:
  "good_request HEAP_HI 64 32" "placeable 64 32 (HEAP_START, of_nat HEAP_SIZE)"
  "start_of 32 (HEAP_START, of_nat HEAP_SIZE) = HEAP_LO"
proof -
  have "\<exists>k < 64. 3 \<le> k \<and> (32 :: u64) = 2 ^ k" by (intro exI [of _ 5]) simp
  then show "good_request HEAP_HI 64 32" by (simp add: good_request_def kconst)
qed (simp_all add: placeable_def start_of_def kconst)

theorem alloc_inner_first_fit_example:
  "\<exists>h' bs'. alloc_inner 64 32 (armed_heap (LinkedListAllocator_new (\<lambda>_. 0))) = Some (HEAP_START, h') \<and>
    heap_rep HEAP_LO HEAP_HI h' bs' [(HEAP_START, 64)]"
proof -
  note req = example_request(1) and pl = example_request(2) and st = example_request(3)
  from alloc_inner_first_fit [OF armed_heap_rep req, of "LinkedListAllocator_new (\<lambda>_. 0)"] pl
  obtain pre b post p h' bs' where *: "[(HEAP_START, of_nat HEAP_SIZE)] = pre @ b # post"
    "alloc_inner 64 32 (armed_heap (LinkedListAllocator_new (\<lambda>_. 0))) = Some (p, h')"
    "unat p = start_of 32 b" "heap_rep HEAP_LO HEAP_HI h' bs' [(p, 64)]" by auto
  then have "b = (HEAP_START, of_nat HEAP_SIZE)" by (cases pre) auto
  then have "p = HEAP_START" using * st by (simp add: word_unat_eq_iff)
  then show ?thesis using * by blast
qed

text \<open>Freeing a live block puts it back on the free list and leaves a partition of the heap in
  which that block is free and every other block is as it was.\<close>

theorem dealloc_inner_returns_block:
  assumes "heap_rep L H h bs live" "(p, sz) \<in> set live"
  shows "heap_rep L H (dealloc_inner p sz h) ((p, sz) # bs) (remove1 (p, sz) live)"
  using dealloc_rep [OF assms] by simp

theorem dealloc_inner_returns_block_example:
  "\<exists>h bs. heap_rep HEAP_LO HEAP_HI h ((HEAP_START, 64) # bs) []"
proof -
  obtain h bs where rep: "heap_rep HEAP_LO HEAP_HI h bs [(HEAP_START, 64)]"
    using armed_heap_rep [of "LinkedListAllocator_new (\<lambda>_. 0)"] example_request(1)
  proof (cases rule: alloc_inner_spec)
    case none
    then show ?thesis using example_request(2) by simp
  next
    case (some pre b post p h' bs')
    then have "b = (HEAP_START, of_nat HEAP_SIZE)" by (cases pre) auto
    then have "p = HEAP_START" using some(5) example_request(3) by (simp add: word_unat_eq_iff)
    then show ?thesis using some(6) that by blast
  qed
  show ?thesis using dealloc_inner_returns_block [OF rep, of HEAP_START 64] by auto
qed

text \<open>A valid layout is normalised to a size that is at least the requested size and a header,
  a multiple of 8, and to an alignment that the requested alignment divides; the request then
  meets what the search expects.\<close>

theorem size_align_normalises:
  assumes "layout_ok l"
  shows "\<exists>sz al. size_align l = Some (sz, al) \<and> good_request HEAP_HI sz al \<and>
    unat (layout_size l) \<le> unat sz \<and> unat (layout_align l) dvd unat al \<and>
    unat al = max (unat (layout_align l)) 8"
proof -
  obtain sz al where 1: "size_align l = Some (sz, al)" "unat al = max (unat (layout_align l)) 8"
    using assms by (rule size_align_spec)
  have "HEAP_HI + 2 ^ 45 \<le> 2 ^ 64" by (simp add: kconst)
  with assms obtain sz' al' where 2: "size_align l = Some (sz', al')" "good_request HEAP_HI sz' al'"
    "unat (layout_size l) \<le> unat sz'" "unat (layout_align l) dvd unat al'"
    by (rule size_align_request)
  from 1 2 show ?thesis by auto
qed

theorem size_align_normalises_example:
  "size_align \<lparr>layout_size = 20, layout_align = 4\<rparr> = Some (24, 8) \<and> good_request HEAP_HI 24 8"
proof -
  have "size_align \<lparr>layout_size = 20, layout_align = 4\<rparr> = Some (24, 8)"
    by (simp add: size_align_def align_to_def pad_to_align_def kconst max_def Let_def)
  with size_align_normalises [OF example_layouts(3)] show ?thesis by auto
qed

text \<open>The alignment is not checked against wrap-around. On the armed heap a request with
  alignment \<open>2 ^ 62\<close> (\<open>0x4000000000000000\<close>) makes \<open>align_up\<close> wrap to 0: the search reports null but has already unlinked
  the only free block and pushed a block of 64 TiB at the heap start and one at address 16, far
  outside the heap.\<close>

theorem alloc_alignment_wrap_corrupts:
  "\<exists>h'. alloc_inner 16 0x4000000000000000 (armed_heap h) = Some (0, h') \<and> head h' = 16 \<and>
    block_size 16 h' = HEAP_START + of_nat HEAP_SIZE - 16 \<and>
    block_next 16 h' = HEAP_START \<and> block_size HEAP_START h' = 0x400000000000"
proof -
  define a where "a = armed_heap h"
  have a: "head a = HEAP_START" "mem a HEAP_START = of_nat HEAP_SIZE" "mem a (HEAP_START + 8) = 0"
    by (simp_all add: a_def LinkedListAllocator_init_def add_free_def)
  have al: "heap_align_up HEAP_START 0x4000000000000000 = 0" by (simp add: heap_align_up_def kconst)
  have ca: "checked_add (0 :: u64) 16 = Some 16" by (simp add: checked_add_def)
  have m: "- HEAP_START = 0x400000000000" by (simp add: kconst)
  then have "\<not> - HEAP_START < 16" "0 < - HEAP_START" by simp_all
  moreover have "HEAP_START \<noteq> 0" "\<not> HEAP_START + of_nat HEAP_SIZE < 16"
    "\<not> HEAP_START + of_nat HEAP_SIZE - 16 < 16" "0 < HEAP_START + of_nat HEAP_SIZE - 16"
    "16 \<noteq> HEAP_START" "24 \<noteq> HEAP_START" "HEAP_START + 8 \<noteq> 16" "HEAP_START + 8 \<noteq> 24"
    by (simp_all add: kconst)
  moreover note n = calculation m
  have "alloc_inner 16 0x4000000000000000 a =
      Some (0, add_free 16 (HEAP_START + of_nat HEAP_SIZE - 16) (add_free HEAP_START (- HEAP_START) (a\<lparr>head := 0\<rparr>)))"
    unfolding alloc_inner_def alloc_loop.simps [of HeadLink] read_link.simps write_link.simps a al ca Let_def
      option.case FreeBlock_SIZE_def
    using n by simp
  then show ?thesis unfolding a_def [symmetric] using n by (simp add: add_free_def)
qed

end
