(* ===== verification/Memory_Init.thy ===== *)
theory Memory_Init
  imports Paging Kernel_Heap
begin

text \<open>
  Bringing the memory subsystem up: \<open>heap::init\<close> of \<open>memory/heap.rs\<close> (mapping every page of the
  heap to a fresh frame and arming the allocator) and \<open>init\<close>, \<open>init_from_info\<close> of
  \<open>memory/mod.rs\<close> (checking the boot handoff block and running paging, frame allocator and heap
  initialisation in order).

  The raw handoff pointer is \<open>None\<close> when null and otherwise the block it points to; the region
  pointer inside it likewise, with the records it points to. \<open>None\<close> as a result is a panic. The
  memory of the heap allocator is a separate component of the state; the main theorem shows that
  the frames behind it are neither free nor page tables.
\<close>

section \<open>Mapping the heap\<close>

definition heap_flags :: PageFlags where
  "heap_flags = flags_or (flags_or PRESENT WRITABLE) NO_EXECUTE"

function map_heap_pages :: "nat \<Rightarrow> paging \<Rightarrow> ((MemoryInitError + unit) \<times> paging) option" where
  "map_heap_pages mapped s =
    (if mapped < HEAP_SIZE then
       let virt = HEAP_START + of_nat mapped in
       case alloc_frame (frame_alloc s) of
         (None, fs) \<Rightarrow> Some (Err HeapMappingFailed, s\<lparr>frame_alloc := fs\<rparr>)
       | (Some frame, fs) \<Rightarrow>
           (case map_page virt (start_address frame) heap_flags (s\<lparr>frame_alloc := fs\<rparr>) of
              None \<Rightarrow> None
            | Some (Inl _, s') \<Rightarrow> Some (Err HeapMappingFailed, s')
            | Some (Inr _, s') \<Rightarrow> map_heap_pages (mapped + PAGE_SIZE) s')
     else Some (Ok (), s))"
  by pat_completeness auto
termination by (relation "measure (\<lambda>(mapped, s). HEAP_SIZE - mapped)") (auto simp: PAGE_SIZE_def)

declare map_heap_pages.simps [simp del]

record memory_state =
  paging_st :: paging
  heap_st :: LinkedListAllocator

definition heap_init :: "memory_state \<Rightarrow> ((MemoryInitError + unit) \<times> memory_state) option" where
  "heap_init m =
    (case map_heap_pages 0 (paging_st m) of
       None \<Rightarrow> None
     | Some (Inl e, s) \<Rightarrow> Some (Err e, m\<lparr>paging_st := s\<rparr>)
     | Some (Inr _, s) \<Rightarrow>
         Some (Ok (), m\<lparr>paging_st := s,
           heap_st := LinkedListAllocator_init HEAP_START (of_nat HEAP_SIZE) (heap_st m)\<rparr>))"

section \<open>The bring-up sequence\<close>

record MemoryInfo =
  info_offset :: u64
  info_regions :: "MemoryRegion list"

definition init_from_info :: "MemoryInfo \<Rightarrow> memory_state \<Rightarrow> ((MemoryInitError + unit) \<times> memory_state) option"
where
  "init_from_info info m =
    (case paging_init (info_offset info) (paging_st m) of
       (Inl e, p) \<Rightarrow> Some (Err e, m\<lparr>paging_st := p\<rparr>)
     | (Inr _, p) \<Rightarrow>
         (case allocator_init (info_regions info) (frame_alloc p) of
            (Inl e, fs) \<Rightarrow> Some (Err e, m\<lparr>paging_st := p\<lparr>frame_alloc := fs\<rparr>\<rparr>)
          | (Inr _, fs) \<Rightarrow> heap_init (m\<lparr>paging_st := p\<lparr>frame_alloc := fs\<rparr>\<rparr>)))"

record BootHandoff =
  magic :: u64
  handoff_offset :: u64
  region_count :: u64
  handoff_regions :: "MemoryRegion list option"

definition BOOT_HANDOFF_MAGIC :: u64 where
  [kconst]: "BOOT_HANDOFF_MAGIC = 0x474C4D4D454D3031"

fun memory_init_error_str :: "MemoryInitError \<Rightarrow> string" where
  "memory_init_error_str NoUsableRegions = ''memory::init: no usable RAM regions in the memory map''"
| "memory_init_error_str BitmapTooSmall =
    ''memory::init: physical RAM exceeds MAX_PHYSICAL_BYTES; raise the cap''"
| "memory_init_error_str HeapMappingFailed =
    ''memory::init: failed to map the kernel heap (out of frames?)''"
| "memory_init_error_str AlreadyInitialized = ''memory::init: memory subsystem already initialised''"
| "memory_init_error_str PagingNotReady =
    ''memory::init: invalid physical_memory_offset in boot handoff''"

definition memory_init ::
  "BootHandoff option \<Rightarrow> memory_state \<Rightarrow> ((string + unit) \<times> memory_state) option" where
  "memory_init memory_map m =
    (case memory_map of
       None \<Rightarrow> Some (Err ''memory::init: null boot handoff pointer'', m)
     | Some handoff \<Rightarrow>
         if magic handoff \<noteq> BOOT_HANDOFF_MAGIC then Some (Err ''memory::init: bad boot handoff magic'', m)
         else
           (case (if region_count handoff = 0 then Some []
                  else map_option (take (unat (region_count handoff))) (handoff_regions handoff)) of
              None \<Rightarrow> Some (Err ''memory::init: null region array with non-zero count'', m)
            | Some regions \<Rightarrow>
                map_option (\<lambda>(r, m'). (map_sum memory_init_error_str id r, m'))
                  (init_from_info \<lparr>info_offset = handoff_offset handoff, info_regions = regions\<rparr> m)))"

section \<open>What mapping the heap establishes\<close>

definition heap_page :: "nat \<Rightarrow> u64" where
  "heap_page i = HEAP_START + of_nat (i * 4096)"

definition heap_mapped :: "paging \<Rightarrow> paging \<Rightarrow> u64 list \<Rightarrow> bool" where
  "heap_mapped s0 s fs \<longleftrightarrow>
    pt_wf s \<and> distinct (map (\<lambda>f. unat f div 4096) fs) \<and>
    (\<forall>f \<in> set fs. frame_base f \<and> unat f div 4096 \<in> free_frames_of s0 - free_frames_of s \<and>
       (\<forall>p. valid_path p \<longrightarrow> table_at s p \<noteq> Some f)) \<and>
    free_frames_of s \<subseteq> free_frames_of s0 \<and>
    (\<forall>i < length fs. \<forall>w. same_page (heap_page i) w \<longrightarrow> translate w s = Some (fs ! i OR (w AND 0xFFF))) \<and>
    (\<forall>w. (\<forall>i < length fs. \<not> same_page (heap_page i) w) \<longrightarrow> translate w s = translate w s0)"

lemma heap_flags_addr_free: "addr_free heap_flags"
proof -
  have "bits NO_EXECUTE = 2 ^ 63" by (simp add: NO_EXECUTE_def push_bit_of_1)
  then show ?thesis
    unfolding heap_flags_def addr_free_iff bit_flags_ops bit_flag_consts by (auto simp only: bit_two_power)
qed

lemma unat_heap_page:
  assumes "i < 2048"
  shows "unat (heap_page i) = unat HEAP_START + i * 4096"
proof -
  have "unat (of_nat (i * 4096) :: u64) = i * 4096"
    using assms by (simp only: unat_of_nat) simp
  then show ?thesis using assms unfolding heap_page_def by (simp only: unat_word_ariths) (simp add: kconst)
qed

lemma heap_page_aligned:
  assumes "i < 2048"
  shows "heap_page i AND 0xFFF = 0"
proof -
  have "unat (heap_page i AND mask 12) = unat (heap_page i) mod 4096"
    using unat_and_mask [of "heap_page i" 12] by simp
  also have "\<dots> = (unat HEAP_START + i * 4096) mod 4096" using unat_heap_page [OF assms] by simp
  also have "\<dots> = 0" by (simp add: kconst)
  finally show ?thesis by (simp add: mask_eq_exp_minus_1 unat_eq_0)
qed

lemma heap_pages_differ:
  assumes "i < 2048" "j < 2048" "same_page (heap_page i) (heap_page j)"
  shows "i = j"
proof -
  have "unat (tlb_page (heap_page n)) = 0xC00000000 + n" if "n < 2048" for n
  proof -
    have "unat (tlb_page (heap_page n)) = unat (heap_page n) div 2 ^ 12 mod 2 ^ 36"
      by (simp add: tlb_page_def take_bit_eq_mod drop_bit_eq_div unat_div unat_mod)
    also have "\<dots> = (0xC00000000 + n + 0xFFFF * 2 ^ 36) mod 2 ^ 36"
      unfolding unat_heap_page [OF that] by (simp add: kconst)
    also have "\<dots> = 0xC00000000 + n" unfolding mod_mult_self1 using that by simp
    finally show ?thesis .
  qed
  then show ?thesis using same_page_tlb_page [OF assms(3)] assms(1,2) by (metis add_left_cancel)
qed

lemma same_page_equiv: "same_page v v" "same_page v w \<Longrightarrow> same_page w v"
  "same_page u v \<Longrightarrow> same_page v w \<Longrightarrow> same_page u w"
  by (simp_all add: same_page_def)

lemma translate_frame_alloc: "translate w (s\<lparr>frame_alloc := fa\<rparr>) = translate w s"
proof -
  have r: "read_entry t i (s\<lparr>frame_alloc := fa\<rparr>) = read_entry t i s" for t i by (simp add: read_entry_def)
  have c: "cr3 (s\<lparr>frame_alloc := fa\<rparr>) = cr3 s"
    "PHYSICAL_MEMORY_OFFSET (s\<lparr>frame_alloc := fa\<rparr>) = PHYSICAL_MEMORY_OFFSET s" by simp_all
  show ?thesis unfolding translate_def r c by (rule refl)
qed

lemma frame_taken_wf:
  assumes "pt_wf s" "alloc_frame (frame_alloc s) = (Some f, fa)"
  shows "pt_wf (s\<lparr>frame_alloc := fa\<rparr>)"
  by (rule pt_wf_cong [OF assms(1)]) (use alloc_frame_facts [OF assms] in auto)

lemma heap_mapped_outside:
  "heap_mapped s0 s fs \<Longrightarrow> (\<And>i. i < length fs \<Longrightarrow> \<not> same_page (heap_page i) w) \<Longrightarrow> translate w s = translate w s0"
  by (simp add: heap_mapped_def)

lemma heap_mappedI:
  assumes "pt_wf s" "distinct (map (\<lambda>f. unat f div 4096) fs)" "free_frames_of s \<subseteq> free_frames_of s0"
    "\<forall>f \<in> set fs. frame_base f \<and> unat f div 4096 \<in> free_frames_of s0 - free_frames_of s \<and>
       (\<forall>p. valid_path p \<longrightarrow> table_at s p \<noteq> Some f)"
    "\<And>i w. i < length fs \<Longrightarrow> same_page (heap_page i) w \<Longrightarrow> translate w s = Some (fs ! i OR (w AND 0xFFF))"
    "\<And>w. \<forall>i < length fs. \<not> same_page (heap_page i) w \<Longrightarrow> translate w s = translate w s0"
  shows "heap_mapped s0 s fs"
  unfolding heap_mapped_def
proof (intro conjI assms(1-4) allI impI)
  show "translate w s = Some (fs ! i OR (w AND 0xFFF))" if "i < length fs" "same_page (heap_page i) w" for i w
    by (rule assms(5) [OF that])
  show "translate w s = translate w s0" if "\<forall>i < length fs. \<not> same_page (heap_page i) w" for w
    by (rule assms(6) [OF that])
qed

lemma heap_mapped_step:
  assumes inv: "heap_mapped s0 s fs" and n: "length fs < 2048"
    and al: "alloc_frame (frame_alloc s) = (Some f, fa)"
    and mp: "map_page (heap_page (length fs)) (start_address f) heap_flags (s\<lparr>frame_alloc := fa\<rparr>) = Some (Ok (), s')"
  shows "heap_mapped s0 s' (fs @ [start_address f])"
proof -
  let ?pa = "start_address f" and ?v = "heap_page (length fs)"
  have wf: "pt_wf s" using inv by (simp add: heap_mapped_def)
  note af = alloc_frame_facts [OF wf al]
  note spec = map_page_spec [OF frame_taken_wf [OF wf al] heap_flags_addr_free af(1) mp]
  have free': "free_frames_of s' \<subseteq> free_frames_of s - {frame_index f}" using spec(4) af(3) by simp
  have tr: "translate w s' = (if same_page ?v w then Some (?pa OR (w AND 0xFFF)) else translate w s)" for w
    using spec(6) by (simp add: map_ok_def translate_frame_alloc)
  have nt: "table_at s p = Some t \<or> unat t div 4096 \<in> free_frames_of s - {frame_index f}"
    if "valid_path p" "table_at s' p = Some t" for p t
    using spec(9) that af(3) unfolding new_tables_def by simp blast
  have old: "frame_base g" "unat g div 4096 \<in> free_frames_of s0" "unat g div 4096 \<notin> free_frames_of s"
    "\<And>p. valid_path p \<Longrightarrow> table_at s p \<noteq> Some g" if "g \<in> set fs" for g
    using inv that by (simp_all add: heap_mapped_def)
  have sub: "free_frames_of s \<subseteq> free_frames_of s0" using inv by (simp add: heap_mapped_def)
  have old': "valid_path p \<Longrightarrow> table_at s' p \<noteq> Some g" if "g \<in> set fs" for g p
    using nt [of p g] old(3,4) [OF that] by auto
  have d: "distinct (map (\<lambda>f. unat f div 4096) (fs @ [?pa]))"
    using inv old(3) af(4) by (auto simp: heap_mapped_def)
  have pa: "unat ?pa div 4096 = frame_index f" by simp
  show ?thesis
  proof (rule heap_mappedI [OF spec(1) d])
    show "free_frames_of s' \<subseteq> free_frames_of s0" using sub free' by blast
    show "\<forall>g \<in> set (fs @ [?pa]). frame_base g \<and> unat g div 4096 \<in> free_frames_of s0 - free_frames_of s' \<and>
        (\<forall>p. valid_path p \<longrightarrow> table_at s' p \<noteq> Some g)"
    proof
      fix g assume "g \<in> set (fs @ [?pa])"
      then consider "g \<in> set fs" | "g = ?pa" by auto
      then show "frame_base g \<and> unat g div 4096 \<in> free_frames_of s0 - free_frames_of s' \<and>
          (\<forall>p. valid_path p \<longrightarrow> table_at s' p \<noteq> Some g)"
      proof cases
        case 1
        then show ?thesis using old(1-3) [OF 1] old' [OF 1] free' by blast
      next
        case 2
        have "table_at s' p \<noteq> Some ?pa" if "valid_path p" for p
        proof
          assume "table_at s' p = Some ?pa"
          from nt [OF that this] show False using af(5) [OF that] unfolding pa by blast
        qed
        moreover have "frame_index f \<in> free_frames_of s0 - free_frames_of s'" using sub free' af(4) by blast
        ultimately show ?thesis unfolding 2 pa using af(1) by blast
      qed
    qed
    show "translate w s' = translate w s0" if "\<forall>i < length (fs @ [?pa]). \<not> same_page (heap_page i) w" for w
      using heap_mapped_outside [OF inv, of w] tr that by simp
    fix i w assume i: "i < length (fs @ [?pa])" "same_page (heap_page i) w"
    show "translate w s' = Some ((fs @ [?pa]) ! i OR (w AND 0xFFF))"
    proof (cases "i = length fs")
      case True
      then show ?thesis using tr i by simp
    next
      case False
      then have "\<not> same_page ?v w"
        using heap_pages_differ [of i "length fs"] i n same_page_equiv(2) [of ?v w]
          same_page_equiv(3) [of "heap_page i" w ?v] by auto
      then show ?thesis using tr inv i False by (simp add: heap_mapped_def nth_append)
    qed
  qed
qed

lemma start_address_aligned:
  assumes "frame_base pa"
  shows "pa AND 0xFFF = 0"
proof -
  have "unat (pa AND mask 12) = unat pa mod 4096" using unat_and_mask [of pa 12] by simp
  also have "\<dots> = 0" using frame_base_dvd [OF assms] by simp
  finally show ?thesis by (simp add: mask_eq_exp_minus_1 unat_eq_0)
qed

lemma heap_page_step:
  assumes inv: "heap_mapped s0 s fs" and n: "length fs < 2048"
    and room: "4 < card (free_frames_of s)"
    and fresh: "translate (heap_page (length fs)) s0 = None"
  obtains f fa s' where "alloc_frame (frame_alloc s) = (Some f, fa)"
    "map_page (heap_page (length fs)) (start_address f) heap_flags (s\<lparr>frame_alloc := fa\<rparr>) = Some (Ok (), s')"
    "card (free_frames_of s) \<le> card (free_frames_of s') + 4"
proof -
  have wf: "pt_wf s" using inv by (simp add: heap_mapped_def)
  obtain q fa where al': "alloc_frame (frame_alloc s) = (q, fa)" by fastforce
  have "q \<noteq> None"
  proof
    assume "q = None"
    with alloc_frame_None(2) [OF wf, of fa] al' have "free_frames_of s = {}" by simp
    with room show False by simp
  qed
  then obtain f where al: "alloc_frame (frame_alloc s) = (Some f, fa)" using al' by auto
  note af = alloc_frame_facts [OF wf al]
  let ?s1 = "s\<lparr>frame_alloc := fa\<rparr>"
  have c: "card (free_frames_of ?s1) = card (free_frames_of s) - 1" using af(3,4) by simp
  have "\<not> same_page (heap_page i) (heap_page (length fs))" if "i < length fs" for i
    using heap_pages_differ [of i "length fs"] that n by auto
  from heap_mapped_outside [OF inv this] have "translate (heap_page (length fs)) s = None" using fresh by simp
  then have un: "translate (heap_page (length fs)) ?s1 = None" by (simp add: translate_frame_alloc)
  have r: "3 < card (free_frames_of ?s1)" using c room by linarith
  from map_unmapped_succeeds [OF frame_taken_wf [OF wf al] un r heap_page_aligned [OF n]
      start_address_aligned [OF af(1)] af(1) heap_flags_addr_free]
  obtain s' where mp: "map_page (heap_page (length fs)) (start_address f) heap_flags ?s1 = Some (Ok (), s')" by blast
  have "card (free_frames_of s) \<le> card (free_frames_of s') + 4"
    using map_page_spec(5) [OF frame_taken_wf [OF wf al] heap_flags_addr_free af(1) mp] c room by simp
  with al mp that show thesis by blast
qed

lemma map_heap_pages_ok:
  assumes "heap_mapped s0 s fs" "length fs \<le> 2048" "4 * (2048 - length fs) < card (free_frames_of s)"
    and fresh: "\<And>i. i < 2048 \<Longrightarrow> translate (heap_page i) s0 = None"
  shows "\<exists>s' fs'. map_heap_pages (length fs * 4096) s = Some (Ok (), s') \<and> length fs' = 2048 \<and> heap_mapped s0 s' fs'"
  using assms(1-3)
proof (induction "2048 - length fs" arbitrary: s fs)
  case 0
  then have n: "length fs = 2048" by simp
  then have "map_heap_pages (length fs * 4096) s = Some (Ok (), s)"
    by (simp add: map_heap_pages.simps [of 8388608] kconst)
  then show ?case using 0 n by blast
next
  case (Suc k)
  then have n: "length fs < 2048" by simp
  then have room: "4 < card (free_frames_of s)" using Suc.prems(3) by linarith
  obtain f fa s' where al: "alloc_frame (frame_alloc s) = (Some f, fa)"
    and mp: "map_page (heap_page (length fs)) (start_address f) heap_flags (s\<lparr>frame_alloc := fa\<rparr>) = Some (Ok (), s')"
    and c: "card (free_frames_of s) \<le> card (free_frames_of s') + 4"
    by (rule heap_page_step [OF Suc.prems(1) n room fresh [OF n]])
  let ?fs = "fs @ [start_address f]"
  have "map_heap_pages (length fs * 4096) s = map_heap_pages (length ?fs * 4096) s'"
    using n al mp unfolding heap_page_def
    by (simp add: map_heap_pages.simps [of "length fs * 4096"] Let_def HEAP_SIZE_def PAGE_SIZE_def add.commute)
  moreover have "heap_mapped s0 s' ?fs" by (rule heap_mapped_step [OF Suc.prems(1) n al mp])
  moreover have "k = 2048 - length ?fs" "length ?fs \<le> 2048" using Suc.hyps(2) n by simp_all
  moreover have "4 * (2048 - length ?fs) < card (free_frames_of s')" using c Suc.prems(3) n by simp
  ultimately show ?case using Suc.hyps(1) [of ?fs s'] by simp
qed
lemma heap_mapped_keep:
  assumes inv: "heap_mapped s0 s fs" and "pt_wf s'" and tr: "\<And>w. translate w s' = translate w s"
    and free': "free_frames_of s' \<subseteq> free_frames_of s" and nt: "new_tables s s'"
  shows "heap_mapped s0 s' fs"
proof (rule heap_mappedI [OF assms(2)])
  have fs: "g \<in> set fs \<Longrightarrow> frame_base g \<and> unat g div 4096 \<in> free_frames_of s0 - free_frames_of s \<and>
      (\<forall>p. valid_path p \<longrightarrow> table_at s p \<noteq> Some g)" for g
    using inv by (simp add: heap_mapped_def)
  show "distinct (map (\<lambda>f. unat f div 4096) fs)" "free_frames_of s' \<subseteq> free_frames_of s0"
    using inv free' by (auto simp: heap_mapped_def)
  show "\<forall>f \<in> set fs. frame_base f \<and> unat f div 4096 \<in> free_frames_of s0 - free_frames_of s' \<and>
      (\<forall>p. valid_path p \<longrightarrow> table_at s' p \<noteq> Some f)"
    using fs free' nt unfolding new_tables_def by blast
  show "translate w s' = Some (fs ! i OR (w AND 0xFFF))" if "i < length fs" "same_page (heap_page i) w" for i w
    using inv that by (simp add: tr heap_mapped_def)
  show "translate w s' = translate w s0" if "\<forall>i < length fs. \<not> same_page (heap_page i) w" for w
    using heap_mapped_outside [OF inv, of w] that by (simp add: tr)
qed

lemma new_tables_frame_taken:
  assumes "new_tables (s\<lparr>frame_alloc := fa\<rparr>) s'" "free_set (FRAME_ALLOCATOR fa) \<subseteq> free_frames_of s"
  shows "new_tables s s'"
  using assms unfolding new_tables_def by (auto dest: subsetD)

lemma map_heap_pages_result:
  assumes "heap_mapped s0 s fs" "length fs \<le> 2048"
  shows "\<exists>r s' fs'. map_heap_pages (length fs * 4096) s = Some (r, s') \<and> length fs' \<le> 2048 \<and>
    heap_mapped s0 s' fs' \<and> (r = Ok () \<and> length fs' = 2048 \<or> r = Err HeapMappingFailed)"
  using assms
proof (induction "2048 - length fs" arbitrary: s fs)
  case 0
  then have n: "length fs = 2048" by simp
  then have "map_heap_pages (length fs * 4096) s = Some (Ok (), s)"
    by (simp add: map_heap_pages.simps [of 8388608] kconst)
  then show ?case using 0 n by blast
next
  case (Suc k)
  then have n: "length fs < 2048" and wf: "pt_wf s" by (simp_all add: heap_mapped_def)
  obtain q fa where al: "alloc_frame (frame_alloc s) = (q, fa)" by fastforce
  note unfold = map_heap_pages.simps [of "length fs * 4096"] Let_def HEAP_SIZE_def PAGE_SIZE_def
  show ?case
  proof (cases q)
    case None
    then have "fa = frame_alloc s" using alloc_frame_None(1) [OF wf] al by simp
    then have "map_heap_pages (length fs * 4096) s = Some (Err HeapMappingFailed, s)"
      using al None n by (simp add: unfold)
    then show ?thesis using Suc.prems by blast
  next
    case (Some f)
    let ?s1 = "s\<lparr>frame_alloc := fa\<rparr>" and ?pa = "start_address f"
    note al = al [unfolded Some]
    note af = alloc_frame_facts [OF wf al]
    note wf1 = frame_taken_wf [OF wf al]
    obtain r s' where mp: "map_page (heap_page (length fs)) ?pa heap_flags ?s1 = Some (r, s')"
      using map_page_total [OF heap_page_aligned [OF n] start_address_aligned [OF af(1)]] by blast
    note spec = map_page_spec [OF wf1 heap_flags_addr_free af(1) mp]
    show ?thesis
    proof (cases r)
      case (Inl e)
      have "heap_mapped s0 s' fs"
      proof (rule heap_mapped_keep [OF Suc.prems(1) spec(1)])
        show "translate w s' = translate w s" for w
          using spec(7) [of e] Inl by (simp add: walk_failed_def walk_step_def translate_frame_alloc)
        show "free_frames_of s' \<subseteq> free_frames_of s" using spec(4) af(3) by auto
        show "new_tables s s'" by (rule new_tables_frame_taken [OF spec(9)]) (use af(3) in auto)
      qed
      moreover have "map_heap_pages (length fs * 4096) s = Some (Err HeapMappingFailed, s')"
        using n al mp Inl unfolding heap_page_def by (simp add: unfold)
      ultimately show ?thesis using Suc.prems(2) by blast
    next
      case (Inr u)
      let ?fs = "fs @ [?pa]"
      have "heap_mapped s0 s' ?fs" using heap_mapped_step [OF Suc.prems(1) n al] mp Inr by simp
      moreover have "map_heap_pages (length fs * 4096) s = map_heap_pages (length ?fs * 4096) s'"
        using n al mp Inr unfolding heap_page_def by (simp add: unfold add.commute)
      moreover have "k = 2048 - length ?fs" "length ?fs \<le> 2048" using Suc.hyps(2) n by simp_all
      ultimately show ?thesis using Suc.hyps(1) [of ?fs s'] by simp
    qed
  qed
qed

lemma heap_mapped_card:
  assumes "heap_mapped s0 s fs" "finite (free_frames_of s0)"
  shows "length fs \<le> card (free_frames_of s0)"
proof -
  have "distinct (map (\<lambda>f. unat f div 4096) fs)" using assms(1) by (simp add: heap_mapped_def)
  from distinct_card [OF this] have "length fs = card ((\<lambda>f. unat f div 4096) ` set fs)" by simp
  also have "\<dots> \<le> card (free_frames_of s0)"
    by (rule card_mono) (use assms in \<open>auto simp: heap_mapped_def\<close>)
  finally show ?thesis .
qed

section \<open>Properties\<close>

definition boot_paging :: "u64 \<Rightarrow> MemoryRegion list \<Rightarrow> memory_state \<Rightarrow> paging" where
  "boot_paging offset rs m =
    (paging_st m)\<lparr>PHYSICAL_MEMORY_OFFSET := offset,
       frame_alloc := snd (allocator_init rs (frame_alloc (paging_st m)))\<rparr>"

definition boot_ok :: "BootHandoff \<Rightarrow> MemoryRegion list \<Rightarrow> memory_state \<Rightarrow> bool" where
  "boot_ok handoff rs m \<longleftrightarrow>
    magic handoff = BOOT_HANDOFF_MAGIC \<and> handoff_regions handoff = Some rs \<and>
    unat (region_count handoff) = length rs \<and> starts_below_top rs \<and>
    usable_frames rs \<subseteq> {..<MAX_FRAMES} \<and> 8192 < card (usable_frames rs) \<and>
    frame_alloc (paging_st m) = frame_statics_boot \<and>
    pt_wf (boot_paging (handoff_offset handoff) rs m) \<and>
    (\<forall>i < 2048. translate (heap_page i) (boot_paging (handoff_offset handoff) rs m) = None)"

text \<open>On a valid handoff block, with more than 8192 usable frames and nothing mapped at the heap
  yet, \<open>memory::init\<close> succeeds. Afterwards each of the 2048 heap pages translates to its own
  frame, these frames are distinct, came from the usable memory, are no longer free and are not
  page tables; every address outside the heap translates as before; and the heap allocator holds
  the whole heap as one free block.\<close>

theorem memory_init_establishes_heap:
  assumes "boot_ok handoff rs m"
  shows "\<exists>m' fs. memory_init (Some handoff) m = Some (Ok (), m') \<and> length fs = 2048 \<and>
    heap_mapped (boot_paging (handoff_offset handoff) rs m) (paging_st m') fs \<and>
    free_frames_of (boot_paging (handoff_offset handoff) rs m) = usable_frames rs \<and>
    heap_rep HEAP_LO HEAP_HI (heap_st m') [(HEAP_START, of_nat HEAP_SIZE)] []"
proof -
  let ?s0 = "boot_paging (handoff_offset handoff) rs m"
  note ok = assms [unfolded boot_ok_def]
  obtain r fs where ai: "allocator_init rs frame_statics_boot = (r, fs)" by fastforce
  note ex = allocator_init_spec [OF _ ai]
  have r: "r = Ok ()" "free_set (FRAME_ALLOCATOR fs) = usable_frames rs"
    using ex ok by auto
  have s0: "?s0 = (paging_st m)\<lparr>PHYSICAL_MEMORY_OFFSET := handoff_offset handoff, frame_alloc := fs\<rparr>"
    using ok ai by (simp add: boot_paging_def)
  then have free: "free_frames_of ?s0 = usable_frames rs" using r by simp
  have "heap_mapped ?s0 ?s0 []" using ok by (intro heap_mappedI) simp_all
  then obtain s' pas where mh: "map_heap_pages 0 ?s0 = Some (Ok (), s')" "length pas = 2048" "heap_mapped ?s0 s' pas"
    using map_heap_pages_ok [of ?s0 ?s0 "[]"] ok free by auto
  let ?m' = "m\<lparr>paging_st := s', heap_st := armed_heap (heap_st m)\<rparr>"
  have off: "handoff_offset handoff \<noteq> u64_MAX" using ok s0 by (simp add: pt_wf_def)
  have "init_from_info \<lparr>info_offset = handoff_offset handoff, info_regions = rs\<rparr> m = Some (Ok (), ?m')"
    using mh(1) ai r ok off s0 by (simp add: init_from_info_def paging_init_def heap_init_def)
  then have "memory_init (Some handoff) m = Some (Ok (), ?m')"
    using ok by (auto simp: memory_init_def unat_eq_0)
  then show ?thesis using mh free armed_heap_rep by (intro exI [of _ ?m'] exI [of _ pas]) simp
qed

lemma zero_space:
  assumes "phys_mem s = (\<lambda>_. 0)" "cr3 s = 0x1000"
  shows "read_entry t i s = PageTableEntry 0" "table_at s p = (if p = [] then Some 0x1000 else None)"
    "translate v s = None"
proof -
  show r: "read_entry t i s = PageTableEntry 0" for t i using assms by (simp add: read_entry_def)
  show "table_at s p = (if p = [] then Some 0x1000 else None)"
    using assms by (cases p) (simp_all add: r PHYS_ADDR_MASK_def)
  show "translate v s = None" by (cases "split_indices v") (simp add: translate_def Let_def r)
qed

definition machine_after_firmware :: memory_state where
  "machine_after_firmware =
    \<lparr>paging_st = \<lparr>phys_mem = (\<lambda>_. 0), cr3 = 0x1000, PHYSICAL_MEMORY_OFFSET = u64_MAX,
       frame_alloc = frame_statics_boot, tlb = (\<lambda>_. None)\<rparr>,
     heap_st = LinkedListAllocator_new (\<lambda>_. 0)\<rparr>"

definition handoff_of :: "MemoryRegion list \<Rightarrow> BootHandoff" where
  "handoff_of rs =
    \<lparr>magic = BOOT_HANDOFF_MAGIC, handoff_offset = 0xFFFF800000000000,
     region_count = of_nat (length rs), handoff_regions = Some rs\<rparr>"

definition one_region :: "u64 \<Rightarrow> MemoryRegion list" where
  "one_region stop = [\<lparr>region_start = 0x10000, region_end = stop, region_kind = Usable\<rparr>]"

lemma firmware_facts:
  "length (one_region stop) = 1" "frame_alloc (paging_st machine_after_firmware) = frame_statics_boot"
  by (simp_all add: one_region_def machine_after_firmware_def)

lemma one_region_frames: "usable_frames (one_region stop) = {i. 16 \<le> i \<and> (i + 1) * 4096 \<le> unat stop}"
  by (auto simp: usable_frames_simps one_region_def region_frames_def)

lemma firmware_boot_wf:
  assumes "usable_frames (one_region stop) \<subseteq> {..<MAX_FRAMES}"
  shows "pt_wf (boot_paging 0xFFFF800000000000 (one_region stop) machine_after_firmware)"
    "starts_below_top (one_region stop)"
    "translate v (boot_paging 0xFFFF800000000000 (one_region stop) machine_after_firmware) = None"
proof -
  let ?s = "boot_paging 0xFFFF800000000000 (one_region stop) machine_after_firmware"
  have z: "phys_mem ?s = (\<lambda>_. 0)" "cr3 ?s = 0x1000"
    by (simp_all add: boot_paging_def machine_after_firmware_def)
  show top: "starts_below_top (one_region stop)" by (simp add: starts_below_top_def one_region_def)
  note spec = allocator_init_spec [OF top surjective_pairing]
  have "alloc_inv (FRAME_ALLOCATOR (frame_alloc ?s))" "free_frames_of ?s = usable_frames (one_region stop)"
    using spec(2) spec(6) [OF assms] by (simp_all add: boot_paging_def machine_after_firmware_def)
  then show "pt_wf ?s"
    unfolding pt_wf_def entry_at_def zero_space [OF z]
    by (auto simp: one_region_frames) (simp add: boot_paging_def u64_MAX_def)
  show "translate v ?s = None" by (rule zero_space(3) [OF z])
qed

theorem memory_init_establishes_heap_example:
  "boot_ok (handoff_of (one_region 0x3010000)) (one_region 0x3010000) machine_after_firmware \<and>
   (\<exists>m' fs. memory_init (Some (handoff_of (one_region 0x3010000))) machine_after_firmware = Some (Ok (), m') \<and>
      length fs = 2048 \<and> translate HEAP_START (paging_st m') = Some (hd fs))"
proof -
  let ?rs = "one_region 0x3010000" and ?m = machine_after_firmware
  have u: "usable_frames ?rs = {16..<12304}" unfolding one_region_frames by auto
  then have cap: "usable_frames ?rs \<subseteq> {..<MAX_FRAMES}" by (auto simp: kconst)
  have ok: "boot_ok (handoff_of ?rs) ?rs ?m"
    unfolding boot_ok_def using firmware_boot_wf [OF cap] cap
    by (simp add: handoff_of_def u firmware_facts)
  from memory_init_establishes_heap [OF ok] obtain m' fs
    where r: "memory_init (Some (handoff_of ?rs)) ?m = Some (Ok (), m')" "length fs = 2048"
      "heap_mapped (boot_paging (handoff_offset (handoff_of ?rs)) ?rs ?m) (paging_st m') fs" by blast
  have "same_page (heap_page 0) HEAP_START" by (simp add: heap_page_def same_page_def)
  then have "translate HEAP_START (paging_st m') = Some (fs ! 0 OR (HEAP_START AND 0xFFF))"
    using r(2,3) unfolding heap_mapped_def by (metis zero_less_numeral)
  moreover have "fs ! 0 OR (HEAP_START AND 0xFFF) = hd fs" using r(2) hd_conv_nth [of fs] by (cases fs) (auto simp: kconst)
  ultimately show ?thesis using ok r(1,2) by auto
qed

text \<open>C10: once the handoff block has passed its checks \<open>memory::init\<close> never panics, whatever the
  memory map: the message it returns on failure tells exactly which step failed, a failure never
  arms the heap allocator, and no address outside the heap changes its translation.\<close>

theorem memory_init_failure_contained:
  assumes "magic handoff = BOOT_HANDOFF_MAGIC" "handoff_regions handoff = Some rs"
    and "unat (region_count handoff) = length rs" "starts_below_top rs"
    and "frame_alloc (paging_st m) = frame_statics_boot" "pt_wf (boot_paging (handoff_offset handoff) rs m)"
  shows "\<exists>r m'. memory_init (Some handoff) m = Some (r, m') \<and>
    (case r of
       Inr _ \<Rightarrow> usable_frames rs \<subseteq> {..<MAX_FRAMES} \<and> 2048 \<le> card (usable_frames rs)
     | Inl e \<Rightarrow> heap_st m' = heap_st m \<and>
         e = (if \<not> usable_frames rs \<subseteq> {..<MAX_FRAMES}
              then ''memory::init: physical RAM exceeds MAX_PHYSICAL_BYTES; raise the cap''
              else if usable_frames rs = {} then ''memory::init: no usable RAM regions in the memory map''
              else ''memory::init: failed to map the kernel heap (out of frames?)'')) \<and>
    (\<forall>w. (\<forall>i < 2048. \<not> same_page (heap_page i) w) \<longrightarrow>
       translate w (paging_st m') = translate w (boot_paging (handoff_offset handoff) rs m))"
proof -
  let ?s0 = "boot_paging (handoff_offset handoff) rs m"
  obtain q fs where ai: "allocator_init rs frame_statics_boot = (q, fs)" by fastforce
  note ex = allocator_init_spec [OF assms(4) ai]
  have s0: "?s0 = (paging_st m)\<lparr>PHYSICAL_MEMORY_OFFSET := handoff_offset handoff, frame_alloc := fs\<rparr>"
    using assms(5) ai by (simp add: boot_paging_def)
  have off: "handoff_offset handoff \<noteq> u64_MAX" using assms(6) s0 by (simp add: pt_wf_def)
  let ?info = "\<lparr>info_offset = handoff_offset handoff, info_regions = rs\<rparr>"
  have init: "memory_init (Some handoff) m =
      map_option (\<lambda>(r, m'). (map_sum memory_init_error_str id r, m')) (init_from_info ?info m)"
    using assms(1-3) by (auto simp: memory_init_def unat_eq_0)
  show ?thesis
  proof (cases q)
    case (Inl e)
    then have "init_from_info ?info m = Some (Err e, m\<lparr>paging_st := ?s0\<rparr>)"
      using ai off s0 assms(5) by (simp add: init_from_info_def paging_init_def)
    then show ?thesis using init ex(5) Inl by (auto split: if_splits)
  next
    case (Inr u)
    then have ok: "usable_frames rs \<subseteq> {..<MAX_FRAMES}" "usable_frames rs \<noteq> {}"
      using ex(5) by (auto split: if_splits)
    have "heap_mapped ?s0 ?s0 []" using assms(6) by (intro heap_mappedI) simp_all
    from map_heap_pages_result [OF this] obtain r s' pas
      where mh: "map_heap_pages 0 ?s0 = Some (r, s')" "length pas \<le> 2048" "heap_mapped ?s0 s' pas"
        "r = Ok () \<and> length pas = 2048 \<or> r = Err HeapMappingFailed" by auto
    have out: "translate w s' = translate w ?s0" if "\<forall>i < 2048. \<not> same_page (heap_page i) w" for w
      using heap_mapped_outside [OF mh(3), of w] mh(2) that by simp
    have "2048 \<le> card (usable_frames rs)" if "length pas = 2048"
      using heap_mapped_card [OF mh(3)] that ex(6) [OF ok(1)] s0 finite_subset [OF ok(1)] by simp
    then show ?thesis
      using init mh(1,4) ai off s0 assms(5) Inr ok out
      by (auto simp: init_from_info_def paging_init_def heap_init_def)
  qed
qed

theorem memory_init_failure_contained_witness:
  "pt_wf (boot_paging 0xFFFF800000000000 (one_region 0x20000) machine_after_firmware) \<and>
   (\<exists>m'. memory_init (Some (handoff_of (one_region 0x20000))) machine_after_firmware =
      Some (Err ''memory::init: failed to map the kernel heap (out of frames?)'', m') \<and>
      heap_st m' = LinkedListAllocator_new (\<lambda>_. 0))"
proof -
  let ?rs = "one_region 0x20000" and ?m = machine_after_firmware
  have u: "usable_frames ?rs = {16..<32}" unfolding one_region_frames by auto
  then have cap: "usable_frames ?rs \<subseteq> {..<MAX_FRAMES}" by (auto simp: kconst)
  note wf = firmware_boot_wf [OF cap]
  have h: "magic (handoff_of ?rs) = BOOT_HANDOFF_MAGIC" "handoff_regions (handoff_of ?rs) = Some ?rs"
    "unat (region_count (handoff_of ?rs)) = length ?rs" "handoff_offset (handoff_of ?rs) = 0xFFFF800000000000"
    by (simp_all add: handoff_of_def firmware_facts)
  have "heap_st ?m = LinkedListAllocator_new (\<lambda>_. 0)" by (simp add: machine_after_firmware_def)
  moreover obtain r m' where "memory_init (Some (handoff_of ?rs)) ?m = Some (r, m')"
    "case r of Inr _ \<Rightarrow> 2048 \<le> card (usable_frames ?rs)
     | Inl e \<Rightarrow> heap_st m' = heap_st ?m \<and> e = ''memory::init: failed to map the kernel heap (out of frames?)''"
    using memory_init_failure_contained [OF h(1-3) wf(2) firmware_facts(2)] wf(1) cap u
    unfolding h(4) by (fastforce split: sum.splits)
  ultimately show ?thesis using wf(1) by (cases r) (simp_all add: u)
qed

end
