(* ===== verification/X86_Machine.thy ===== *)
theory X86_Machine
  imports Golem_Prelude
begin

text \<open>
  The part of the x86-64 machine that the kernel's assembly routines use: the general registers,
  the instruction pointer, the flags, the two GS bases that \<open>swapgs\<close> exchanges, and memory as
  quadwords. The routines access memory through 8-byte operands at addresses that differ by
  multiples of 8, so a quadword is addressed by its first byte and distinct addresses hold
  independent quadwords. Each instruction is named after its AT&T mnemonic and takes its operands
  in AT&T order, source first.
\<close>

section \<open>State\<close>

datatype reg =
  RAX | RBX | RCX | RDX | RSI | RDI | RBP | RSP | R8 | R9 | R10 | R11 | R12 | R13 | R14 | R15

record machine =
  regs :: "reg \<Rightarrow> u64"
  rip :: u64
  rflags :: u64
  qwords :: "u64 \<Rightarrow> u64"
  gs_base :: u64
  kernel_gs_base :: u64

definition IF_FLAG :: u64 where
  [kconst]: "IF_FLAG = 0x200"

section \<open>Instructions\<close>

datatype instr =
  PUSHQ reg
| POPQ reg
| MOVQ reg reg
| MOVQ_TO_MEM reg reg
| ADDQ u64 reg
| SUBQ u64 reg
| RET
| JMPQ reg
| STI
| CLI
| SWAPGS
| MOVQ_TO_GS reg u64
| MOVQ_FROM_GS u64 reg
| PUSHQ_GS u64
| SYSRETQ

definition push :: "u64 \<Rightarrow> machine \<Rightarrow> machine" where
  "push v m =
    (let sp = regs m RSP - 8 in m\<lparr>regs := (regs m)(RSP := sp), qwords := (qwords m)(sp := v)\<rparr>)"

definition pop :: "machine \<Rightarrow> u64 \<times> machine" where
  "pop m =
    (let sp = regs m RSP in (qwords m sp, m\<lparr>regs := (regs m)(RSP := sp + 8)\<rparr>))"

fun exec_instr :: "instr \<Rightarrow> machine \<Rightarrow> machine" where
  "exec_instr (PUSHQ r) m = push (regs m r) m"
| "exec_instr (POPQ r) m = (let (v, m') = pop m in m'\<lparr>regs := (regs m')(r := v)\<rparr>)"
| "exec_instr (MOVQ src dst) m = m\<lparr>regs := (regs m)(dst := regs m src)\<rparr>"
| "exec_instr (MOVQ_TO_MEM src base) m = m\<lparr>qwords := (qwords m)(regs m base := regs m src)\<rparr>"
| "exec_instr (ADDQ n r) m = m\<lparr>regs := (regs m)(r := regs m r + n)\<rparr>"
| "exec_instr (SUBQ n r) m = m\<lparr>regs := (regs m)(r := regs m r - n)\<rparr>"
| "exec_instr RET m = (let (v, m') = pop m in m'\<lparr>rip := v\<rparr>)"
| "exec_instr (JMPQ r) m = m\<lparr>rip := regs m r\<rparr>"
| "exec_instr STI m = m\<lparr>rflags := rflags m OR IF_FLAG\<rparr>"
| "exec_instr CLI m = m\<lparr>rflags := rflags m AND NOT IF_FLAG\<rparr>"
| "exec_instr SWAPGS m = m\<lparr>gs_base := kernel_gs_base m, kernel_gs_base := gs_base m\<rparr>"
| "exec_instr (MOVQ_TO_GS r off) m = m\<lparr>qwords := (qwords m)(gs_base m + off := regs m r)\<rparr>"
| "exec_instr (MOVQ_FROM_GS off r) m = m\<lparr>regs := (regs m)(r := qwords m (gs_base m + off))\<rparr>"
| "exec_instr (PUSHQ_GS off) m = push (qwords m (gs_base m + off)) m"
| "exec_instr SYSRETQ m = m\<lparr>rip := regs m RCX, rflags := (regs m R11 AND 0x3C7FD7) OR 2\<rparr>"

definition exec :: "instr list \<Rightarrow> machine \<Rightarrow> machine" where
  "exec code m = fold exec_instr code m"

lemma exec_simps [simp]:
  "exec [] m = m" "exec (i # is) m = exec is (exec_instr i m)"
  by (simp_all add: exec_def)

lemma exec_append [simp]: "exec (xs @ ys) m = exec ys (exec xs m)"
  by (simp add: exec_def)

lemma push_simps [simp]:
  "regs (push v m) = (regs m)(RSP := regs m RSP - 8)" "qwords (push v m) = (qwords m)(regs m RSP - 8 := v)"
  "rip (push v m) = rip m" "rflags (push v m) = rflags m" "gs_base (push v m) = gs_base m"
  "kernel_gs_base (push v m) = kernel_gs_base m"
  by (simp_all add: push_def Let_def)

lemma pop_simps [simp]: "pop m = (qwords m (regs m RSP), m\<lparr>regs := (regs m)(RSP := regs m RSP + 8)\<rparr>)"
  by (simp add: pop_def Let_def)

text \<open>\<open>stack_words p n\<close> are the addresses of the \<open>n\<close> quadwords that start at \<open>p\<close>.\<close>

fun stack_words :: "u64 \<Rightarrow> nat \<Rightarrow> u64 list" where
  "stack_words p 0 = []"
| "stack_words p (Suc n) = p # stack_words (p + 8) n"

lemma length_stack_words [simp]: "length (stack_words p n) = n"
  by (induction n arbitrary: p) simp_all

lemma nth_stack_words: "k < n \<Longrightarrow> stack_words p n ! k = p + 8 * of_nat k"
  by (induction n arbitrary: p k) (auto simp: nth_Cons algebra_simps split: nat.splits)

lemma in_stack_words_iff: "a \<in> set (stack_words p n) \<longleftrightarrow> (\<exists>k < n. a = p + 8 * of_nat k)"
  by (auto simp: in_set_conv_nth nth_stack_words)

lemma stack_words_snoc: "stack_words p (Suc n) = stack_words p n @ [p + 8 * of_nat n]"
proof (induction n arbitrary: p)
  case (Suc n)
  have "stack_words p (Suc (Suc n)) = p # stack_words (p + 8) (Suc n)" by simp
  also have "\<dots> = p # stack_words (p + 8) n @ [p + 8 + 8 * of_nat n]" unfolding Suc.IH ..
  finally show ?case by (simp add: algebra_simps)
qed simp

lemma of_nat_8_mult_eq_0:
  assumes "n < 2 ^ 60"
  shows "(8 * of_nat n :: u64) = 0 \<longleftrightarrow> n = 0"
proof -
  have "(8 * of_nat n :: u64) = of_nat (8 * n)" by simp
  also have "\<dots> = 0 \<longleftrightarrow> 2 ^ 64 dvd 8 * n" by (simp only: word_of_nat_eq_0_iff) simp
  also have "\<dots> \<longleftrightarrow> n = 0" using assms nat_dvd_not_less [of "8 * n" "2 ^ 64"] by auto
  finally show ?thesis .
qed

lemma stack_words_above:
  assumes "n < 2 ^ 60"
  shows "p \<notin> set (stack_words (p - 8 * of_nat n) n)"
proof
  assume "p \<in> set (stack_words (p - 8 * of_nat n) n)"
  then obtain k where k: "k < n" "p = p - 8 * of_nat n + 8 * of_nat k" by (auto simp: in_stack_words_iff)
  then have "8 * of_nat n = (8 * of_nat k :: u64)" by (simp add: algebra_simps)
  then have "8 * of_nat (n - k) = (0 :: u64)" using k(1) by (simp add: of_nat_diff right_diff_distrib)
  then show False using of_nat_8_mult_eq_0 [of "n - k"] k(1) assms less_imp_diff_less [OF assms, of k] by linarith
qed

definition same_control :: "machine \<Rightarrow> machine \<Rightarrow> bool" where
  "same_control m m' \<longleftrightarrow> rip m' = rip m \<and> rflags m' = rflags m \<and> gs_base m' = gs_base m \<and>
    kernel_gs_base m' = kernel_gs_base m"

definition pushed :: "u64 list \<Rightarrow> machine \<Rightarrow> machine \<Rightarrow> bool" where
  "pushed vs m m' \<longleftrightarrow>
    (let sp = regs m RSP - 8 * of_nat (length vs) in
     regs m' = (regs m)(RSP := sp) \<and> map (qwords m') (stack_words sp (length vs)) = rev vs \<and>
     (\<forall>a. a \<notin> set (stack_words sp (length vs)) \<longrightarrow> qwords m' a = qwords m a)) \<and>
    same_control m m'"

definition popped :: "reg list \<Rightarrow> machine \<Rightarrow> machine \<Rightarrow> bool" where
  "popped rs m m' \<longleftrightarrow>
    map (regs m') rs = map (qwords m) (stack_words (regs m RSP) (length rs)) \<and>
    regs m' RSP = regs m RSP + 8 * of_nat (length rs) \<and>
    (\<forall>r. r \<notin> insert RSP (set rs) \<longrightarrow> regs m' r = regs m r) \<and> qwords m' = qwords m \<and> same_control m m'"

lemma pushed_Cons:
  assumes "pushed vs (push v m) m'" "length vs < 2 ^ 60"
  shows "pushed (v # vs) m m'"
proof -
  let ?sp = "regs m RSP - 8 - 8 * of_nat (length vs)"
  have base: "regs m RSP - 8 * of_nat (length (v # vs)) = ?sp" by (simp add: algebra_simps)
  have words: "stack_words ?sp (length (v # vs)) = stack_words ?sp (length vs) @ [regs m RSP - 8]"
    unfolding length_Cons stack_words_snoc by simp
  have "regs m RSP - 8 \<notin> set (stack_words ?sp (length vs))"
    by (rule stack_words_above [OF assms(2)])
  then show ?thesis
    using assms(1) unfolding pushed_def Let_def base words by (auto simp: same_control_def)
qed

lemma exec_pushes: "RSP \<notin> set rs \<Longrightarrow> length rs < 2 ^ 60 \<Longrightarrow> pushed (map (regs m) rs) m (exec (map PUSHQ rs) m)"
proof (induction rs arbitrary: m)
  case Nil
  show ?case by (simp add: pushed_def same_control_def)
next
  case (Cons r rs)
  have eq: "map (regs (push (regs m r) m)) rs = map (regs m) rs" using Cons.prems by (auto simp: map_eq_conv)
  have "pushed (map (regs (push (regs m r) m)) rs) (push (regs m r) m) (exec (map PUSHQ rs) (push (regs m r) m))"
    by (rule Cons.IH) (use Cons.prems in simp_all)
  then have "pushed (map (regs m) rs) (push (regs m r) m) (exec (map PUSHQ rs) (push (regs m r) m))"
    unfolding eq .
  then show ?case using pushed_Cons Cons.prems(2) by simp
qed

lemma exec_pops: "distinct rs \<Longrightarrow> RSP \<notin> set rs \<Longrightarrow> popped rs m (exec (map POPQ rs) m)"
proof (induction rs arbitrary: m)
  case Nil
  show ?case by (simp add: popped_def same_control_def)
next
  case (Cons r rs)
  have "popped rs (exec_instr (POPQ r) m) (exec (map POPQ rs) (exec_instr (POPQ r) m))" using Cons by simp
  then show ?case using Cons.prems by (auto simp: popped_def same_control_def add.assoc)
qed


declare stack_words.simps [simp del]


lemma pushedD:
  assumes "pushed vs m m'" "n = length vs"
  shows "regs m' = (regs m)(RSP := regs m RSP - 8 * of_nat n)"
    "map (qwords m') (stack_words (regs m RSP - 8 * of_nat n) n) = rev vs"
    "\<And>a. a \<notin> set (stack_words (regs m RSP - 8 * of_nat n) n) \<Longrightarrow> qwords m' a = qwords m a"
    "same_control m m'"
  using assms unfolding pushed_def Let_def by simp_all

lemma poppedD:
  assumes "popped rs m m'" "n = length rs"
  shows "map (regs m') rs = map (qwords m) (stack_words (regs m RSP) n)"
    "regs m' RSP = regs m RSP + 8 * of_nat n"
    "\<And>r. r \<notin> insert RSP (set rs) \<Longrightarrow> regs m' r = regs m r" "qwords m' = qwords m" "same_control m m'"
  using assms unfolding popped_def by simp_all

end
