(* ===== verification/Context_Switch.thy ===== *)
theory Context_Switch
  imports X86_Machine
begin

text \<open>
  Process control blocks and the context switch: \<open>scheduler/process.rs\<close> and the assembly of
  \<open>scheduler/context.rs\<close>. A boxed kernel stack is its address and its length in bytes; its
  contents are the quadwords of the machine. Code addresses (the trampoline and a task's entry
  function) are 64-bit words, the address of the trampoline a parameter fixed by the linker.
\<close>

section \<open>Process control blocks\<close>

type_synonym Pid = u64
type_synonym OwnerId = u64

definition PID_BOOTSTRAP :: Pid where [kconst]: "PID_BOOTSTRAP = 0"

definition PID_IDLE :: Pid where [kconst]: "PID_IDLE = 1"

definition NEXT_PID_INIT :: u64 where [kconst]: "NEXT_PID_INIT = 2"

text \<open>\<open>NEXT_PID\<close> is passed and returned; the assertion of \<open>alloc_pid\<close> fails after the increment.\<close>

definition alloc_pid :: "u64 \<Rightarrow> Pid option \<times> u64" where
  "alloc_pid next_pid =
    (let p = next_pid; next_pid' = next_pid + 1 in if p = u64_MAX then (None, next_pid') else (Some p, next_pid'))"

datatype ProcessState = Ready | Running | Blocked | Zombie

record Stack =
  stack_base :: u64
  stack_len :: u64

record Process =
  kernel_rsp :: u64
  pid :: Pid
  owner :: OwnerId
  name :: string
  state :: ProcessState
  kernel_stack :: Stack
  time_slice_remaining :: u32
  default_time_slice :: u32

definition write_down :: "u64 list \<Rightarrow> u64 \<Rightarrow> (u64 \<Rightarrow> u64) \<Rightarrow> u64 \<times> (u64 \<Rightarrow> u64)" where
  "write_down vs sp mem = fold (\<lambda>v (sp, mem). (sp - 8, mem(sp - 8 := v))) vs (sp, mem)"

definition init_kernel_stack ::
  "u64 \<Rightarrow> u64 \<Rightarrow> u64 \<Rightarrow> u64 \<Rightarrow> (u64 \<Rightarrow> u64) \<Rightarrow> u64 \<times> (u64 \<Rightarrow> u64)" where
  "init_kernel_stack trampoline base len entry mem =
    (let top = base + len;
         top_aligned = top AND NOT 0xF;
         (sp, mem) = (top_aligned - 8, mem(top_aligned - 8 := 0));
         (sp, mem) = (sp - 8, mem(sp - 8 := trampoline));
         saved = [0, 0, entry, 0, 0, 0]
     in write_down saved sp mem)"

definition new_with_pid ::
  "u64 \<Rightarrow> Pid \<Rightarrow> string \<Rightarrow> OwnerId \<Rightarrow> u64 \<Rightarrow> Stack \<Rightarrow> u32 \<Rightarrow> (u64 \<Rightarrow> u64) \<Rightarrow> Process \<times> (u64 \<Rightarrow> u64)"
where
  "new_with_pid trampoline p nm own entry stk time_slice mem =
    (let (rsp, mem') = init_kernel_stack trampoline (stack_base stk) (stack_len stk) entry mem
     in (\<lparr>kernel_rsp = rsp, pid = p, owner = own, name = nm, state = Ready, kernel_stack = stk,
          time_slice_remaining = time_slice, default_time_slice = time_slice\<rparr>, mem'))"

definition Process_new ::
  "u64 \<Rightarrow> string \<Rightarrow> OwnerId \<Rightarrow> u64 \<Rightarrow> Stack \<Rightarrow> u32 \<Rightarrow> u64 \<Rightarrow> (u64 \<Rightarrow> u64) \<Rightarrow>
    (Process \<times> (u64 \<Rightarrow> u64)) option \<times> u64" where
  "Process_new trampoline nm own entry stk time_slice next_pid mem =
    (case alloc_pid next_pid of
       (None, next_pid') \<Rightarrow> (None, next_pid')
     | (Some p, next_pid') \<Rightarrow> (Some (new_with_pid trampoline p nm own entry stk time_slice mem), next_pid'))"

definition bootstrap :: "OwnerId \<Rightarrow> Process" where
  "bootstrap own =
    \<lparr>kernel_rsp = 0, pid = PID_BOOTSTRAP, owner = own, name = ''<bootstrap>'', state = Running,
     kernel_stack = \<lparr>stack_base = 1, stack_len = 0\<rparr>, time_slice_remaining = 0, default_time_slice = 0\<rparr>"

section \<open>The assembly routines\<close>

definition context_switch_code :: "instr list" where
  "context_switch_code =
    [PUSHQ RBP, PUSHQ RBX, PUSHQ R12, PUSHQ R13, PUSHQ R14, PUSHQ R15,
     MOVQ_TO_MEM RSP RDI,
     MOVQ RSI RSP,
     POPQ R15, POPQ R14, POPQ R13, POPQ R12, POPQ RBX, POPQ RBP,
     RET]"

text \<open>
  A call of \<open>context_switch(prev_rsp_save, next_rsp)\<close>: the caller has pushed the return address
  and the arguments are in the first two argument registers.
\<close>

definition context_switch :: "u64 \<Rightarrow> u64 \<Rightarrow> machine \<Rightarrow> machine" where
  "context_switch prev_rsp_save next_rsp m =
    exec context_switch_code (m\<lparr>regs := (regs m)(RDI := prev_rsp_save, RSI := next_rsp)\<rparr>)"

definition process_entry_trampoline_code :: "instr list" where
  "process_entry_trampoline_code = [STI, JMPQ R12]"

section \<open>Saved contexts\<close>

text \<open>
  What a suspended task needs to continue: the callee-saved registers, in the order in which they
  lie on its stack, and the address to return to.
\<close>

abbreviation saved_regs :: "reg list" where
  "saved_regs \<equiv> [R15, R14, R13, R12, RBX, RBP]"

definition saved_context :: "(u64 \<Rightarrow> u64) \<Rightarrow> u64 \<Rightarrow> u64 list" where
  "saved_context mem sp = map mem (stack_words sp 7)"

definition live_context :: "machine \<Rightarrow> u64 \<Rightarrow> u64 list" where
  "live_context m ret = map (regs m) saved_regs @ [ret]"

abbreviation frame :: "u64 \<Rightarrow> u64 set" where
  "frame sp \<equiv> set (stack_words sp 7)"

lemma saved_context_cong:
  "(\<And>a. a \<in> frame sp \<Longrightarrow> mem' a = mem a) \<Longrightarrow> saved_context mem' sp = saved_context mem sp"
  by (simp add: saved_context_def)

lemma frame_split: "stack_words sp 7 = stack_words sp 6 @ [sp + 48]"
  using stack_words_snoc [of sp 6] by (simp add: numeral_eq_Suc)

lemma context_switch_spec:
  assumes slot: "slot \<notin> frame (regs m RSP - 48)"
    and sep: "frame next_rsp \<inter> insert slot (frame (regs m RSP - 48)) = {}"
    and m': "m' = context_switch slot next_rsp m"
  shows "qwords m' slot = regs m RSP - 48"
    and "saved_context (qwords m') (regs m RSP - 48) = live_context m (qwords m (regs m RSP))"
    and "live_context m' (rip m') = saved_context (qwords m) next_rsp"
    and "regs m' RSP = next_rsp + 56"
    and "\<And>a. a \<notin> insert slot (frame (regs m RSP - 48)) \<Longrightarrow> qwords m' a = qwords m a"
    and "rflags m' = rflags m"
proof -
  let ?sp = "regs m RSP - 48"
  define m0 where "m0 = m\<lparr>regs := (regs m)(RDI := slot, RSI := next_rsp)\<rparr>"
  define m1 where "m1 = exec (map PUSHQ (rev saved_regs)) m0"
  define m2 where "m2 = exec [MOVQ_TO_MEM RSP RDI, MOVQ RSI RSP] m1"
  define m3 where "m3 = exec (map POPQ saved_regs) m2"
  have code: "context_switch_code =
      map PUSHQ (rev saved_regs) @ [MOVQ_TO_MEM RSP RDI, MOVQ RSI RSP] @ map POPQ saved_regs @ [RET]"
    by (simp add: context_switch_code_def)
  have m': "m' = exec [RET] m3"
    unfolding m' context_switch_def code m3_def m2_def m1_def m0_def by (simp only: exec_append)
  have "pushed (map (regs m0) (rev saved_regs)) m0 m1" unfolding m1_def by (rule exec_pushes) simp_all
  note pd = pushedD [OF this, of 6]
  have p: "regs m1 = (regs m0)(RSP := ?sp)" "map (qwords m1) (stack_words ?sp 6) = map (regs m) saved_regs"
    "\<And>a. a \<notin> set (stack_words ?sp 6) \<Longrightarrow> qwords m1 a = qwords m a" "rflags m1 = rflags m"
    using pd by (simp_all add: same_control_def m0_def)
  have m2: "m2 = m1\<lparr>regs := (regs m1)(RSP := next_rsp), qwords := (qwords m1)(slot := ?sp)\<rparr>"
    unfolding m2_def using p(1) by (simp add: m0_def)
  have "popped saved_regs m2 m3" unfolding m3_def by (rule exec_pops) simp_all
  note pd = poppedD [OF this, of 6]
  have q: "map (regs m3) saved_regs = map (qwords m2) (stack_words next_rsp 6)" "regs m3 RSP = next_rsp + 48"
    "qwords m3 = qwords m2" "rflags m3 = rflags m2"
    using pd by (simp_all add: same_control_def m2)
  have mem: "qwords m' = (qwords m1)(slot := ?sp)" using m' q(3) by (simp add: m2)
  show "qwords m' slot = ?sp" by (simp add: mem)
  show "regs m' RSP = next_rsp + 56" "rflags m' = rflags m" using m' q p(4) by (simp_all add: m2)
  have top: "?sp + 48 = regs m RSP" by simp
  show keep: "qwords m' a = qwords m a" if "a \<notin> insert slot (frame ?sp)" for a
    using that p(3) [of a] by (simp add: mem frame_split)
  have "qwords m1 (regs m RSP) = qwords m (regs m RSP)"
    using p(3) [of "regs m RSP"] stack_words_above [of 6 "regs m RSP"] by simp
  then have "saved_context (qwords m1) ?sp = live_context m (qwords m (regs m RSP))"
    using p(2) by (simp add: saved_context_def live_context_def frame_split)
  moreover have "saved_context (qwords m') ?sp = saved_context (qwords m1) ?sp"
    by (rule saved_context_cong) (use slot in \<open>auto simp: mem\<close>)
  ultimately show "saved_context (qwords m') ?sp = live_context m (qwords m (regs m RSP))" by simp
  have "live_context m' (rip m') = saved_context (qwords m') next_rsp"
    using m' q by (simp add: live_context_def saved_context_def frame_split)
  also have "\<dots> = saved_context (qwords m) next_rsp"
    by (rule saved_context_cong, rule keep) (use sep in blast)
  finally show "live_context m' (rip m') = saved_context (qwords m) next_rsp" .
qed

section \<open>The launch frame\<close>

abbreviation stack_top :: "u64 \<Rightarrow> u64 \<Rightarrow> u64" where
  "stack_top base len \<equiv> (base + len) AND NOT 0xF"

definition stack_ok :: "u64 \<Rightarrow> u64 \<Rightarrow> bool" where
  "stack_ok base len \<longleftrightarrow> 80 \<le> unat len \<and> unat base + unat len < 2 ^ 64"

lemma write_down_Cons: "write_down (v # vs) sp mem = write_down vs (sp - 8) (mem(sp - 8 := v))"
  by (simp add: write_down_def)

lemma write_down_spec:
  assumes "write_down vs sp mem = (sp', mem')" "length vs < 2 ^ 60" "n = length vs"
  shows "sp' = sp - 8 * of_nat n \<and> map mem' (stack_words (sp - 8 * of_nat n) n) = rev vs \<and>
    (\<forall>a. a \<notin> set (stack_words (sp - 8 * of_nat n) n) \<longrightarrow> mem' a = mem a)"
  using assms
proof (induction vs arbitrary: sp mem n)
  case Nil
  then show ?case by (simp add: write_down_def stack_words.simps)
next
  case (Cons v vs)
  let ?k = "length vs" and ?sp = "sp - 8 - 8 * of_nat (length vs)"
  have words: "stack_words ?sp n = stack_words ?sp ?k @ [sp - 8]" and base: "sp - 8 * of_nat n = ?sp"
    using stack_words_snoc [of ?sp ?k] Cons.prems(3) by (simp_all add: algebra_simps)
  have "sp - 8 \<notin> set (stack_words ?sp ?k)" using Cons.prems(2) by (intro stack_words_above) simp
  moreover have "length vs < 2 ^ 60" using Cons.prems(2) by simp
  note IH = Cons.IH [OF Cons.prems(1) [unfolded write_down_Cons] this refl]
  ultimately show ?case using IH Cons.prems(3) unfolding base words by auto
qed

lemma init_kernel_stack_spec:
  assumes "init_kernel_stack trampoline base len entry mem = (rsp, mem')"
  shows "rsp = stack_top base len - 64"
    "saved_context mem' rsp = [0, 0, 0, entry, 0, 0, trampoline]"
    "\<And>a. a \<notin> set (stack_words rsp 8) \<Longrightarrow> mem' a = mem a"
proof -
  let ?top = "stack_top base len"
  have "write_down [0, trampoline, 0, 0, entry, 0, 0, 0] ?top mem = (rsp, mem')"
    using assms by (simp add: init_kernel_stack_def write_down_Cons Let_def)
  from write_down_spec [OF this, of 8] have *: "rsp = ?top - 64"
    "map mem' (stack_words (?top - 64) 8) = [0, 0, 0, entry, 0, 0, trampoline, 0]"
    "\<And>a. a \<notin> set (stack_words (?top - 64) 8) \<Longrightarrow> mem' a = mem a"
    by simp_all
  have "stack_words (?top - 64) 8 = stack_words (?top - 64) 7 @ [?top - 8]"
    using stack_words_snoc [of "?top - 64" 7] by simp
  with * show "rsp = ?top - 64" "saved_context mem' rsp = [0, 0, 0, entry, 0, 0, trampoline]"
    "\<And>a. a \<notin> set (stack_words rsp 8) \<Longrightarrow> mem' a = mem a"
    by (simp_all add: saved_context_def)
qed

lemma stack_top_facts:
  assumes "stack_ok base len"
  shows "16 dvd unat (stack_top base len)" "unat (stack_top base len) \<le> unat base + unat len"
    "unat base + 64 < unat (stack_top base len)"
proof -
  have sum: "unat (base + len) = unat base + unat len" using assms by (simp add: stack_ok_def unat_word_ariths)
  have "unat (stack_top base len) = unat (base + len) - unat (base + len) mod 16"
    using unat_and_not_mask [of "base + len" 4] by (simp add: mask_eq_exp_minus_1 minus_mod_eq_mult_div)
  then have eq: "unat (stack_top base len) = (unat base + unat len) - (unat base + unat len) mod 16" by (simp add: sum)
  then show "16 dvd unat (stack_top base len)" "unat (stack_top base len) \<le> unat base + unat len"
    by (simp_all add: minus_mod_eq_mult_div)
  have "(unat base + unat len) mod 16 < 16" by simp
  then show "unat base + 64 < unat (stack_top base len)"
    using eq assms unfolding stack_ok_def by linarith
qed

lemma unat_below_top:
  assumes "stack_ok base len" "k \<le> 64"
  shows "unat (stack_top base len - of_nat k) = unat (stack_top base len) - k"
proof -
  have "unat (of_nat k :: u64) = k" using assms(2) by (simp add: unat_of_nat)
  then show ?thesis using stack_top_facts(3) [OF assms(1)] assms(2) by (simp add: unat_sub word_le_nat_alt)
qed

lemma launch_frame_in_stack:
  assumes "stack_ok base len" "a \<in> set (stack_words (stack_top base len - 64) 8)"
  shows "unat base \<le> unat a \<and> unat a + 8 \<le> unat base + unat len"
proof -
  obtain k where k: "k < 8" "a = stack_top base len - 64 + 8 * of_nat k" using assms(2) by (auto simp: in_stack_words_iff)
  then have "a = stack_top base len - of_nat (64 - 8 * k)" by (simp add: of_nat_diff)
  then have "unat a = unat (stack_top base len) - (64 - 8 * k)" using unat_below_top [OF assms(1), of "64 - 8 * k"] by simp
  then show ?thesis using stack_top_facts(2,3) [OF assms(1)] k(1) by linarith
qed

section \<open>Properties\<close>

definition separate :: "u64 \<Rightarrow> u64 \<Rightarrow> machine \<Rightarrow> bool" where
  "separate slot next_rsp m \<longleftrightarrow>
    slot \<notin> frame (regs m RSP - 48) \<and> frame next_rsp \<inter> insert slot (frame (regs m RSP - 48)) = {}"

text \<open>C11: a context switch is transparent for the task it suspends. Whatever runs in between, as long
  as it leaves the seven quadwords of the task's saved frame alone, switching back to the stack
  pointer the first switch stored gives the task its callee-saved registers, continues at the
  return address of its own call, and leaves its stack pointer just above that address.\<close>

theorem context_switch_resumes:
  assumes "separate slot next_rsp m" "m1 = context_switch slot next_rsp m"
    and "\<And>a. a \<in> frame (qwords m1 slot) \<Longrightarrow> qwords m2 a = qwords m1 a"
    and "separate slot2 (qwords m1 slot) m2" "m3 = context_switch slot2 (qwords m1 slot) m2"
  shows "live_context m3 (rip m3) = live_context m (qwords m (regs m RSP)) \<and>
    regs m3 RSP = regs m RSP + 8"
proof -
  note s1 = context_switch_spec [OF assms(1) [unfolded separate_def, THEN conjunct1]
      assms(1) [unfolded separate_def, THEN conjunct2] assms(2)]
  note s2 = context_switch_spec [OF assms(4) [unfolded separate_def, THEN conjunct1]
      assms(4) [unfolded separate_def, THEN conjunct2] assms(5)]
  have "live_context m3 (rip m3) = saved_context (qwords m2) (qwords m1 slot)" by (rule s2(3))
  also have "\<dots> = saved_context (qwords m1) (qwords m1 slot)" by (rule saved_context_cong) (rule assms(3))
  also have "\<dots> = live_context m (qwords m (regs m RSP))" unfolding s1(1) by (rule s1(2))
  finally show ?thesis using s2(4) s1(1) by simp
qed

definition example_machine :: "u64 \<Rightarrow> machine" where
  "example_machine sp =
    \<lparr>regs = (\<lambda>r. if r = RSP then sp else if r = RBX then 7 else if r = R12 then 9 else 0), rip = 0x100,
     rflags = 2, qwords = (\<lambda>a. if a = sp then 0x1234 else 0), gs_base = 0, kernel_gs_base = 0\<rparr>"

lemma frame_eq: "frame sp = {sp, sp + 8, sp + 16, sp + 24, sp + 32, sp + 40, sp + 48}"
  by (simp add: numeral_eq_Suc stack_words.simps add.commute)

theorem context_switch_resumes_witness:
  "separate 0x5000 0x3000 (example_machine 0x2000) \<and>
   (let m1 = context_switch 0x5000 0x3000 (example_machine 0x2000);
        m3 = context_switch 0x6000 (qwords m1 0x5000) (m1\<lparr>regs := (regs m1)(RSP := 0x4000)\<rparr>)
    in regs m3 RBX = 7 \<and> regs m3 R12 = 9 \<and> rip m3 = 0x1234 \<and> regs m3 RSP = 0x2008)"
proof -
  let ?m = "example_machine 0x2000"
  define m1 where "m1 = context_switch 0x5000 0x3000 ?m"
  define m2 where "m2 = m1\<lparr>regs := (regs m1)(RSP := 0x4000)\<rparr>"
  define m3 where "m3 = context_switch 0x6000 (qwords m1 0x5000) m2"
  have sep: "separate 0x5000 0x3000 ?m" by (simp add: separate_def frame_eq example_machine_def)
  then have "qwords m1 0x5000 = 0x1FD0"
    using context_switch_spec(1) [OF _ _ m1_def] by (simp add: separate_def example_machine_def)
  then have sep2: "separate 0x6000 (qwords m1 0x5000) m2"
    by (simp add: separate_def frame_eq m2_def)
  from context_switch_resumes [OF sep m1_def _ sep2 m3_def]
  have "live_context m3 (rip m3) = live_context ?m (qwords ?m (regs ?m RSP))" "regs m3 RSP = 0x2008"
    by (simp_all add: m2_def example_machine_def)
  then show ?thesis
    using sep unfolding Let_def m1_def [symmetric] m2_def [symmetric] m3_def [symmetric]
    by (simp add: live_context_def example_machine_def)
qed

lemma aligned_minus_8: "16 dvd n \<Longrightarrow> 0 < n \<Longrightarrow> (n - 8) mod 16 = (8 :: nat)"
proof -
  assume "16 dvd n" "0 < n"
  then obtain k where "n = 16 * Suc k" by (metis dvdE gr0_implies_Suc mult_pos_pos nat_0_less_mult_iff)
  then have "n - 8 = 8 + 16 * k" by simp
  then show ?thesis by simp
qed

text \<open>C12: a task launched on a fresh stack of at least 80 bytes starts at its entry function.
  Building the launch frame writes only inside the stack; the first switch to it arrives at the
  trampoline, which enables interrupts and jumps to the entry function with an empty frame
  pointer and with the stack pointer inside the stack, at the alignment a called function
  expects.\<close>

theorem fresh_task_reaches_entry:
  assumes "stack_ok base len" "init_kernel_stack trampoline base len entry mem = (rsp, mem')"
    and "\<And>a. a \<in> frame rsp \<Longrightarrow> qwords m a = mem' a" "separate slot rsp m"
    and "m1 = context_switch slot rsp m" "m2 = exec process_entry_trampoline_code m1"
  shows "(\<forall>a. mem' a \<noteq> mem a \<longrightarrow> unat base \<le> unat a \<and> unat a + 8 \<le> unat base + unat len) \<and>
    rip m1 = trampoline \<and> rip m2 = entry \<and> bit (rflags m2) 9 \<and> regs m2 RBP = 0 \<and>
    unat (regs m2 RSP) mod 16 = 8 \<and>
    unat base \<le> unat (regs m2 RSP) \<and> unat (regs m2 RSP) < unat base + unat len"
proof -
  note ik = init_kernel_stack_spec [OF assms(2)]
  note cs = context_switch_spec [OF assms(4) [unfolded separate_def, THEN conjunct1]
      assms(4) [unfolded separate_def, THEN conjunct2] assms(5)]
  have "live_context m1 (rip m1) = saved_context mem' rsp"
    unfolding cs(3) by (rule saved_context_cong) (rule assms(3))
  then have regs: "rip m1 = trampoline" "regs m1 R12 = entry" "regs m1 RBP = 0"
    unfolding ik(2) live_context_def by simp_all
  have "unat base \<le> unat a \<and> unat a + 8 \<le> unat base + unat len" if "mem' a \<noteq> mem a" for a
    using launch_frame_in_stack [OF assms(1), of a] ik(1,3) that by auto
  moreover have sp: "regs m1 RSP = stack_top base len - 8" using cs(4) ik(1) by simp
  then have "unat (regs m1 RSP) = unat (stack_top base len) - 8" using unat_below_top [OF assms(1), of 8] by simp
  moreover from this have "unat (regs m1 RSP) mod 16 = 8"
    using aligned_minus_8 [OF stack_top_facts(1) [OF assms(1)]] stack_top_facts(3) [OF assms(1)] by simp
  moreover have "rip m2 = entry" "regs m2 = regs m1" "rflags m2 = rflags m1 OR IF_FLAG"
    using assms(6) regs(2) by (simp_all add: process_entry_trampoline_code_def)
  moreover have "bit IF_FLAG 9" by (simp add: kconst bit_iff_odd)
  ultimately show ?thesis using regs stack_top_facts(2,3) [OF assms(1)] by (auto simp: bit_or_iff)
qed

theorem fresh_task_reaches_entry_witness:
  "stack_ok 0x10000 4096 \<and>
   (let (rsp, mem') = init_kernel_stack 0x200 0x10000 4096 0x4444 (\<lambda>_. 0);
        m1 = context_switch 0x5000 rsp ((example_machine 0x2000)\<lparr>qwords := mem'\<rparr>)
    in rip m1 = 0x200 \<and> rip (exec process_entry_trampoline_code m1) = 0x4444)"
proof -
  obtain rsp mem' where ik: "init_kernel_stack 0x200 0x10000 4096 0x4444 (\<lambda>_. 0) = (rsp, mem')" by fastforce
  have ok: "stack_ok 0x10000 4096" by (simp add: stack_ok_def)
  have "rsp = 0x10FC0" using init_kernel_stack_spec(1) [OF ik] by simp
  then have "separate 0x5000 rsp ((example_machine 0x2000)\<lparr>qwords := mem'\<rparr>)"
    by (simp add: separate_def frame_eq example_machine_def)
  from fresh_task_reaches_entry [OF ok ik _ this refl refl] show ?thesis using ok ik by simp
qed

end
