(* ===== verification/Round_Robin.thy ===== *)
theory Round_Robin
  imports Context_Switch "HOL-Library.Multiset"
begin

text \<open>
  The round-robin scheduler, \<open>scheduler/scheduler.rs\<close> and the entry points of
  \<open>scheduler/mod.rs\<close>. Every operation takes the scheduler and the machine it runs on.
  \<open>prev_rsp_ptr\<close> is the address of the field \<open>kernel_rsp\<close> of the outgoing control block (or of
  the local \<open>dummy_save\<close>): the switch stores the stack pointer there, so the field of the control
  block that is moved to its queue takes the stored value. The Boolean result of \<open>schedule\<close>
  tells whether it switched; when it did, the machine returned is the one the next task continues
  on. \<open>None\<close> is a panic. Each operation runs with interrupts masked on the only processor, so
  the operations are atomic steps.
\<close>

section \<open>The scheduler\<close>

definition DEFAULT_TIME_SLICE :: u32 where [kconst]: "DEFAULT_TIME_SLICE = 10"

datatype SchedError = NotInitialized | AlreadyInitialized | NoSuchBlockedPid

record Scheduler =
  initialized :: bool
  ready :: "Process list"
  current :: "Process option"
  idle :: "Process option"
  blocked :: "Process list"
  defunct :: "Process list"

definition Scheduler_new :: Scheduler where
  "Scheduler_new =
    \<lparr>initialized = False, ready = [], current = None, idle = None, blocked = [], defunct = []\<rparr>"

definition Scheduler_init ::
  "u64 \<Rightarrow> OwnerId \<Rightarrow> Stack \<Rightarrow> u64 \<Rightarrow> Scheduler \<Rightarrow> machine \<Rightarrow> (SchedError + unit) \<times> Scheduler \<times> machine" where
  "Scheduler_init trampoline bootstrap_owner idle_stack idle_entry s m =
    (if initialized s then (Err AlreadyInitialized, s, m)
     else
       let (idle_proc, mem') =
             new_with_pid trampoline PID_IDLE ''idle'' bootstrap_owner idle_entry idle_stack DEFAULT_TIME_SLICE (qwords m)
       in (Ok (),
           s\<lparr>idle := Some idle_proc, current := Some (bootstrap bootstrap_owner), initialized := True\<rparr>,
           m\<lparr>qwords := mem'\<rparr>))"

definition Scheduler_spawn :: "Process \<Rightarrow> Scheduler \<Rightarrow> Pid \<times> Scheduler" where
  "Scheduler_spawn proc s =
    (let proc = proc\<lparr>state := Ready, time_slice_remaining := default_time_slice proc\<rparr>
     in (pid proc, s\<lparr>ready := ready s @ [proc]\<rparr>))"

definition take_next :: "Scheduler \<Rightarrow> (Process \<times> Scheduler) option" where
  "take_next s =
    (case ready s of
       n # rest \<Rightarrow> Some (n, s\<lparr>ready := rest\<rparr>)
     | [] \<Rightarrow>
         if (case current s of Some c \<Rightarrow> state c = Running | None \<Rightarrow> False) then None
         else (case idle s of Some i \<Rightarrow> Some (i, s\<lparr>idle := None\<rparr>) | None \<Rightarrow> None))"

definition stash_current :: "u64 \<Rightarrow> Scheduler \<Rightarrow> Scheduler" where
  "stash_current saved_rsp s =
    (case current s of
       None \<Rightarrow> s
     | Some c \<Rightarrow>
         let curr = c\<lparr>kernel_rsp := saved_rsp\<rparr>; s = s\<lparr>current := None\<rparr> in
         case state curr of
           Running \<Rightarrow>
             let curr = curr\<lparr>state := Ready, time_slice_remaining := default_time_slice curr\<rparr> in
             if pid curr = PID_IDLE then s\<lparr>idle := Some curr\<rparr> else s\<lparr>ready := ready s @ [curr]\<rparr>
         | Ready \<Rightarrow> s\<lparr>ready := ready s @ [curr]\<rparr>
         | Blocked \<Rightarrow> s\<lparr>blocked := blocked s @ [curr]\<rparr>
         | Zombie \<Rightarrow> s\<lparr>defunct := defunct s @ [curr]\<rparr>)"

definition schedule :: "u64 \<Rightarrow> Scheduler \<Rightarrow> machine \<Rightarrow> bool \<times> Scheduler \<times> machine" where
  "schedule prev_rsp_ptr s m =
    (let s = s\<lparr>defunct := []\<rparr> in
     case take_next s of
       None \<Rightarrow> (False, s, m)
     | Some (nxt, s) \<Rightarrow>
         let m' = context_switch prev_rsp_ptr (kernel_rsp nxt) m;
             s = stash_current (qwords m' prev_rsp_ptr) s
         in (True,
             s\<lparr>current := Some (nxt\<lparr>state := Running, time_slice_remaining := default_time_slice nxt\<rparr>)\<rparr>,
             m'))"

definition Scheduler_tick :: "u64 \<Rightarrow> Scheduler \<Rightarrow> machine \<Rightarrow> Scheduler \<times> machine" where
  "Scheduler_tick prev_rsp_ptr s m =
    (case current s of
       Some c \<Rightarrow>
         if state c = Running then
           let curr = (if 0 < time_slice_remaining c
                       then c\<lparr>time_slice_remaining := time_slice_remaining c - 1\<rparr> else c);
               s = s\<lparr>current := Some curr\<rparr>
           in if time_slice_remaining curr = 0 then snd (schedule prev_rsp_ptr s m) else (s, m)
         else (s, m)
     | None \<Rightarrow> (s, m))"

definition Scheduler_yield_now :: "u64 \<Rightarrow> Scheduler \<Rightarrow> machine \<Rightarrow> Scheduler \<times> machine" where
  "Scheduler_yield_now prev_rsp_ptr s m = snd (schedule prev_rsp_ptr s m)"

definition Scheduler_exit_current :: "u64 \<Rightarrow> Scheduler \<Rightarrow> machine \<Rightarrow> (Scheduler \<times> machine) option" where
  "Scheduler_exit_current prev_rsp_ptr s m =
    (let s = s\<lparr>current := map_option (\<lambda>c. c\<lparr>state := Zombie, time_slice_remaining := 0\<rparr>) (current s)\<rparr> in
     case schedule prev_rsp_ptr s m of (switched, r) \<Rightarrow> if switched then Some r else None)"

definition Scheduler_block_current :: "u64 \<Rightarrow> Scheduler \<Rightarrow> machine \<Rightarrow> Scheduler \<times> machine" where
  "Scheduler_block_current prev_rsp_ptr s m =
    snd (schedule prev_rsp_ptr (s\<lparr>current := map_option (\<lambda>c. c\<lparr>state := Blocked\<rparr>) (current s)\<rparr>) m)"

fun position :: "('a \<Rightarrow> bool) \<Rightarrow> 'a list \<Rightarrow> nat option" where
  "position P [] = None"
| "position P (x # xs) = (if P x then Some 0 else map_option Suc (position P xs))"

definition swap_remove :: "nat \<Rightarrow> 'a list \<Rightarrow> 'a \<times> 'a list" where
  "swap_remove i xs = (xs ! i, butlast (xs[i := last xs]))"

definition Scheduler_unblock :: "Pid \<Rightarrow> Scheduler \<Rightarrow> (SchedError + unit) \<times> Scheduler" where
  "Scheduler_unblock p s =
    (case position (\<lambda>q. pid q = p) (blocked s) of
       None \<Rightarrow> (Err NoSuchBlockedPid, s)
     | Some idx \<Rightarrow>
         let (proc, rest) = swap_remove idx (blocked s);
             proc = proc\<lparr>state := Ready, time_slice_remaining := default_time_slice proc\<rparr>
         in (Ok (), s\<lparr>blocked := rest, ready := ready s @ [proc]\<rparr>))"

definition Scheduler_current_pid :: "Scheduler \<Rightarrow> Pid option" where
  "Scheduler_current_pid s = map_option pid (current s)"

text \<open>\<open>IrqGuard\<close>: masking interrupts saves the flags, dropping the guard restores them.\<close>

definition IrqGuard_new :: "machine \<Rightarrow> u64 \<times> machine" where
  "IrqGuard_new m = (rflags m, exec_instr CLI m)"

definition IrqGuard_drop :: "u64 \<Rightarrow> machine \<Rightarrow> machine" where
  "IrqGuard_drop saved_flags m = m\<lparr>rflags := saved_flags\<rparr>"

section \<open>The kernel entry points\<close>

record kernel =
  NEXT_PID :: u64
  SCHEDULER :: Scheduler
  cpu :: machine

definition KERNEL_OWNER :: OwnerId where [kconst]: "KERNEL_OWNER = 0"

definition sched_spawn ::
  "u64 \<Rightarrow> string \<Rightarrow> OwnerId \<Rightarrow> u64 \<Rightarrow> Stack \<Rightarrow> kernel \<Rightarrow> Pid option \<times> kernel" where
  "sched_spawn trampoline nm own entry stk k =
    (case Process_new trampoline nm own entry stk DEFAULT_TIME_SLICE (NEXT_PID k) (qwords (cpu k)) of
       (None, next_pid) \<Rightarrow> (None, k\<lparr>NEXT_PID := next_pid\<rparr>)
     | (Some (proc, mem'), next_pid) \<Rightarrow>
         let (p, s) = Scheduler_spawn proc (SCHEDULER k)
         in (Some p, k\<lparr>NEXT_PID := next_pid, SCHEDULER := s, cpu := (cpu k)\<lparr>qwords := mem'\<rparr>\<rparr>))"

definition sched_init :: "u64 \<Rightarrow> u64 \<Rightarrow> Stack \<Rightarrow> kernel \<Rightarrow> (SchedError + unit) \<times> kernel" where
  "sched_init trampoline idle_loop idle_stack k =
    (case Scheduler_init trampoline KERNEL_OWNER idle_stack idle_loop (SCHEDULER k) (cpu k) of
       (r, s, m) \<Rightarrow> (r, k\<lparr>SCHEDULER := s, cpu := m\<rparr>))"

datatype sched_op = Spawn string OwnerId u64 Stack | Tick | Yield | Exit | Block | Unblock Pid

definition on_cpu :: "kernel \<Rightarrow> Scheduler \<times> machine \<Rightarrow> kernel" where
  "on_cpu k r = k\<lparr>SCHEDULER := fst r, cpu := snd r\<rparr>"

fun sched_step :: "u64 \<Rightarrow> (Scheduler \<Rightarrow> u64) \<Rightarrow> sched_op \<Rightarrow> kernel \<Rightarrow> kernel option" where
  "sched_step trampoline slot (Spawn nm own entry stk) k =
    (case sched_spawn trampoline nm own entry stk k of (None, _) \<Rightarrow> None | (Some _, k') \<Rightarrow> Some k')"
| "sched_step trampoline slot Tick k =
    Some (on_cpu k (Scheduler_tick (slot (SCHEDULER k)) (SCHEDULER k) (cpu k)))"
| "sched_step trampoline slot Yield k =
    Some (on_cpu k (Scheduler_yield_now (slot (SCHEDULER k)) (SCHEDULER k) (cpu k)))"
| "sched_step trampoline slot Exit k =
    map_option (on_cpu k) (Scheduler_exit_current (slot (SCHEDULER k)) (SCHEDULER k) (cpu k))"
| "sched_step trampoline slot Block k =
    Some (on_cpu k (Scheduler_block_current (slot (SCHEDULER k)) (SCHEDULER k) (cpu k)))"
| "sched_step trampoline slot (Unblock p) k =
    Some (k\<lparr>SCHEDULER := snd (Scheduler_unblock p (SCHEDULER k))\<rparr>)"

section \<open>Invariant\<close>

definition opt_list :: "'a option \<Rightarrow> 'a list" where
  "opt_list x = (case x of None \<Rightarrow> [] | Some y \<Rightarrow> [y])"

lemma opt_list_simps [simp]: "opt_list None = []" "opt_list (Some y) = [y]"
  by (simp_all add: opt_list_def)

definition procs :: "Scheduler \<Rightarrow> Process list" where
  "procs s = opt_list (current s) @ opt_list (idle s) @ ready s @ blocked s @ defunct s"

text \<open>What never changes in a control block once it exists.\<close>

definition core :: "Process \<Rightarrow> Pid \<times> OwnerId \<times> string \<times> Stack \<times> u32" where
  "core p = (pid p, owner p, name p, kernel_stack p, default_time_slice p)"

lemma core_update [simp]:
  "core (p\<lparr>state := x\<rparr>) = core p" "core (p\<lparr>kernel_rsp := r\<rparr>) = core p"
  "core (p\<lparr>time_slice_remaining := t\<rparr>) = core p"
  by (simp_all add: core_def)

definition queues_ok :: "Scheduler \<Rightarrow> bool" where
  "queues_ok s \<longleftrightarrow>
    (\<forall>p \<in> set (ready s). state p = Ready) \<and> (\<forall>p \<in> set (blocked s). state p = Blocked) \<and>
    (\<forall>p \<in> set (defunct s). state p = Zombie) \<and>
    (\<forall>i. idle s = Some i \<longrightarrow> state i = Ready \<and> pid i = PID_IDLE)"

definition pids_ok :: "u64 \<Rightarrow> Scheduler \<Rightarrow> bool" where
  "pids_ok n s \<longleftrightarrow> distinct (map pid (procs s)) \<and> (\<forall>p \<in> set (procs s). pid p < n \<and> default_time_slice p \<le> DEFAULT_TIME_SLICE)"

definition sched_inv :: "u64 \<Rightarrow> Scheduler \<Rightarrow> bool" where
  "sched_inv n s \<longleftrightarrow> initialized s \<and> queues_ok s \<and> pids_ok n s \<and>
    (\<exists>c. current s = Some c \<and> state c = Running \<and> time_slice_remaining c \<le> default_time_slice c \<and>
       (idle s = None \<longleftrightarrow> pid c = PID_IDLE))"

text \<open>The state in which \<open>schedule\<close> is entered: the current task may just have blocked or exited.\<close>

definition leaving :: "u64 \<Rightarrow> Scheduler \<Rightarrow> Process \<Rightarrow> bool" where
  "leaving n s c \<longleftrightarrow> initialized s \<and> queues_ok s \<and> pids_ok n s \<and> current s = Some c \<and>
    (idle s = None \<longleftrightarrow> pid c = PID_IDLE) \<and>
    (state c = Running \<and> time_slice_remaining c \<le> default_time_slice c \<or>
     (state c = Blocked \<or> state c = Zombie) \<and> pid c \<noteq> PID_IDLE)"

abbreviation reaped :: "Scheduler \<Rightarrow> Scheduler" where
  "reaped s \<equiv> s\<lparr>defunct := []\<rparr>"

lemma distinct_submset:
  assumes "mset xs \<subseteq># mset ys" "distinct ys"
  shows "distinct xs"
proof -
  have "count (mset ys) a \<le> 1" for a
    using assms(2) by (cases "a \<in> set ys") (simp_all add: distinct_count_atmost_1)
  then have "count (mset xs) a \<le> 1" for a using mset_subset_eq_count [OF assms(1)] le_trans by blast
  then have "count (mset xs) a = (if a \<in> set xs then 1 else 0)" for a
    by (metis One_nat_def count_greater_eq_one_iff count_eq_zero_iff le_antisym set_mset_mset)
  then show ?thesis by (simp add: distinct_count_atmost_1)
qed

lemma pids_ok_cong:
  assumes "mset (map core (procs s')) \<subseteq># mset (map core (procs s))" "pids_ok n s"
  shows "pids_ok n s'"
proof -
  have pid: "map pid ps = map fst (map core ps)" for ps by (simp add: core_def)
  have "mset (map pid (procs s')) \<subseteq># mset (map pid (procs s))"
    unfolding pid mset_map [of fst] by (rule image_mset_subseteq_mono) (rule assms(1))
  then have "distinct (map pid (procs s'))"
    using assms(2) unfolding pids_ok_def by (blast intro: distinct_submset)
  moreover have "set (map core (procs s')) \<subseteq> set (map core (procs s))"
    using set_mset_mono [OF assms(1)] unfolding set_mset_mset .
  then have "\<exists>q \<in> set (procs s). pid p = pid q \<and> default_time_slice p = default_time_slice q" if "p \<in> set (procs s')" for p
    using that by (fastforce simp: core_def)
  ultimately show ?thesis using assms(2) unfolding pids_ok_def by metis
qed

lemma schedule_cases:
  assumes pre: "leaving n s c" and res: "schedule ptr s m = (b, s', m')"
  obtains (stay) "ready s = []" "state c = Running" "\<not> b" "s' = reaped s" "m' = m"
  | (switch) nxt rest saved where "b" "m' = context_switch ptr (kernel_rsp nxt) m" "saved = qwords m' ptr"
      "ready s = nxt # rest \<or> ready s = [] \<and> rest = [] \<and> idle s = Some nxt \<and> state c \<noteq> Running"
      "s' = (stash_current saved ((reaped s)\<lparr>ready := rest, idle := (if ready s = [] then None else idle s)\<rparr>))
        \<lparr>current := Some (nxt\<lparr>state := Running, time_slice_remaining := default_time_slice nxt\<rparr>)\<rparr>"
proof (cases "ready s")
  case (Cons nxt rest)
  then have "take_next (reaped s) = Some (nxt, (reaped s)\<lparr>ready := rest, idle := idle s\<rparr>)"
    by (simp add: take_next_def)
  with res Cons show ?thesis by (intro switch [of nxt "qwords m' ptr" rest]) (auto simp: schedule_def Let_def)
next
  case Nil
  show ?thesis
  proof (cases "state c = Running")
    case True
    with Nil pre have "take_next (reaped s) = None" by (simp add: take_next_def leaving_def)
    with res Nil True show ?thesis by (intro stay) (auto simp: schedule_def Let_def)
  next
    case False
    with pre obtain i where i: "idle s = Some i" "current s = Some c" by (auto simp: leaving_def)
    with Nil False have "take_next (reaped s) = Some (i, (reaped s)\<lparr>ready := [], idle := None\<rparr>)"
      by (simp add: take_next_def)
    with res Nil False i show ?thesis by (intro switch [of i "qwords m' ptr" "[]"]) (auto simp: schedule_def Let_def)
  qed
qed

lemma ready_not_idle:
  assumes "leaving n s c" "p \<in> set (ready s)"
  shows "pid p \<noteq> PID_IDLE"
proof (cases "idle s")
  case None
  then have "pid c = PID_IDLE" "distinct (pid c # map pid (ready s))"
    using assms(1) by (auto simp: leaving_def pids_ok_def procs_def)
  then show ?thesis using imageI [OF assms(2), of pid] by auto
next
  case (Some i)
  then have "pid i = PID_IDLE" "distinct (pid i # map pid (ready s))"
    using assms(1) by (auto simp: leaving_def pids_ok_def procs_def queues_ok_def)
  then show ?thesis using imageI [OF assms(2), of pid] by auto
qed

lemma schedule_inv:
  assumes pre: "leaving n s c" and res: "schedule ptr s m = (b, s', m')"
  shows "sched_inv n s'" "mset (map core (procs s')) = mset (map core (procs (reaped s)))"
    "b \<longleftrightarrow> ready s \<noteq> [] \<or> state c \<noteq> Running"
proof -
  have sub: "mset (map core (procs (reaped s))) \<subseteq># mset (map core (procs s))" by (simp add: procs_def)
  from pre res have "mset (map core (procs s')) = mset (map core (procs (reaped s))) \<and> queues_ok s' \<and>
      initialized s' \<and> (\<exists>c. current s' = Some c \<and> state c = Running \<and>
         time_slice_remaining c \<le> default_time_slice c \<and> (idle s' = None \<longleftrightarrow> pid c = PID_IDLE)) \<and>
      (b \<longleftrightarrow> ready s \<noteq> [] \<or> state c \<noteq> Running)"
  proof (cases rule: schedule_cases)
    case stay
    then show ?thesis using pre by (simp add: leaving_def queues_ok_def)
  next
    case (switch nxt rest saved)
    have facts: "current s = Some c" "idle s = None \<longleftrightarrow> pid c = PID_IDLE" "queues_ok s" "initialized s"
      "state c = Running \<or> (state c = Blocked \<or> state c = Zombie) \<and> pid c \<noteq> PID_IDLE"
      using pre by (auto simp: leaving_def)
    have nxt: "ready s = nxt # rest \<Longrightarrow> pid nxt \<noteq> PID_IDLE" using ready_not_idle [OF pre] by simp
    show ?thesis
      using facts nxt switch(1,4) unfolding switch(5)
      by (cases "state c") (auto simp: stash_current_def procs_def queues_ok_def Let_def)
  qed
  then show "sched_inv n s'" "mset (map core (procs s')) = mset (map core (procs (reaped s)))"
    "b \<longleftrightarrow> ready s \<noteq> [] \<or> state c \<noteq> Running"
    using pids_ok_cong [of s' s n] sub pre unfolding sched_inv_def leaving_def by simp_all
qed

lemma position_Some: "position P xs = Some i \<Longrightarrow> i < length xs \<and> P (xs ! i)"
  by (induction xs arbitrary: i) (auto split: if_splits)

lemma position_None: "position P xs = None \<longleftrightarrow> (\<forall>x \<in> set xs. \<not> P x)"
  by (induction xs) auto

lemma swap_remove_mset:
  assumes "i < length xs" "swap_remove i xs = (x, ys)"
  shows "x = xs ! i" "add_mset x (mset ys) = mset xs"
proof -
  show x: "x = xs ! i" using assms(2) by (simp add: swap_remove_def)
  have ne: "xs \<noteq> []" using assms(1) by auto
  obtain zs z where xs: "xs = zs @ [z]" using ne by (cases xs rule: rev_cases) auto
  show "add_mset x (mset ys) = mset xs"
  proof (cases "i = length zs")
    case True
    then show ?thesis using assms(2) xs by (simp add: swap_remove_def)
  next
    case False
    then have i: "i < length zs" using assms(1) xs by simp
    then have "ys = zs[i := z]" using assms(2) xs by (simp add: swap_remove_def list_update_append)
    moreover have "zs ! i \<in># mset zs" using i by simp
    ultimately show ?thesis using i x xs by (simp add: mset_update nth_append)
  qed
qed

definition op_allowed :: "sched_op \<Rightarrow> kernel \<Rightarrow> bool" where
  "op_allowed op k \<longleftrightarrow>
    (case op of
       Spawn _ _ _ _ \<Rightarrow> NEXT_PID k \<noteq> u64_MAX
     | Exit \<Rightarrow> Scheduler_current_pid (SCHEDULER k) \<noteq> Some PID_IDLE
     | Block \<Rightarrow> Scheduler_current_pid (SCHEDULER k) \<noteq> Some PID_IDLE
     | _ \<Rightarrow> True)"

definition kernel_inv :: "kernel \<Rightarrow> bool" where
  "kernel_inv k \<longleftrightarrow> sched_inv (NEXT_PID k) (SCHEDULER k) \<and> 1 < NEXT_PID k"

text \<open>\<open>conserves s s'\<close>: every control block that was not waiting to be freed is still there, and
  nothing else is.\<close>

definition conserves :: "Process list \<Rightarrow> Scheduler \<Rightarrow> Scheduler \<Rightarrow> bool" where
  "conserves new s s' \<longleftrightarrow>
    mset (map core (procs (reaped s) @ new)) \<subseteq># mset (map core (procs s')) \<and>
    mset (map core (procs s')) \<subseteq># mset (map core (procs s @ new))"

lemma procs_reaped: "mset (map core (procs s)) = mset (map core (procs (reaped s))) + mset (map core (defunct s))"
  by (simp add: procs_def)

lemma conserves_schedule:
  assumes "mset (map core (procs s')) = mset (map core (procs (reaped s1)))"
    and "mset (map core (procs (reaped s1))) = mset (map core (procs (reaped s)))"
  shows "conserves [] s s'"
  using assms procs_reaped [of s] by (simp add: conserves_def)

lemma current_update_core:
  assumes "current s = Some c" "core c' = core c"
  shows "mset (map core (procs (s\<lparr>current := Some c'\<rparr>))) = mset (map core (procs s))"
    "mset (map core (procs (reaped (s\<lparr>current := Some c'\<rparr>)))) = mset (map core (procs (reaped s)))"
  using assms by (simp_all add: procs_def)

lemma leaving_update:
  assumes "sched_inv n s" "current s = Some c" "core c' = core c"
    and "state c' = Running \<and> time_slice_remaining c' \<le> default_time_slice c' \<or>
      (state c' = Blocked \<or> state c' = Zombie) \<and> pid c \<noteq> PID_IDLE"
  shows "leaving n (s\<lparr>current := Some c'\<rparr>) c'"
proof -
  have "pids_ok n (s\<lparr>current := Some c'\<rparr>)"
    by (rule pids_ok_cong [of _ s]) (use assms(1) current_update_core(1) [OF assms(2,3)] in \<open>simp_all add: sched_inv_def\<close>)
  moreover have "pid c' = pid c" using assms(3) by (simp add: core_def)
  ultimately show ?thesis using assms by (auto simp: leaving_def sched_inv_def queues_ok_def)
qed

lemma schedule_from:
  assumes "sched_inv n s" "current s = Some c" "core c' = core c"
    and "state c' = Running \<and> time_slice_remaining c' \<le> default_time_slice c' \<or>
      (state c' = Blocked \<or> state c' = Zombie) \<and> pid c \<noteq> PID_IDLE"
    and "schedule ptr (s\<lparr>current := Some c'\<rparr>) m = (b, s', m')"
  shows "sched_inv n s'" "conserves [] s s'" "b \<longleftrightarrow> ready s \<noteq> [] \<or> state c' \<noteq> Running"
  using schedule_inv [OF leaving_update [OF assms(1-4)] assms(5)]
    conserves_schedule [of s' "s\<lparr>current := Some c'\<rparr>" s] current_update_core [OF assms(2,3)] by simp_all

lemma unat_pred: "0 < w \<Longrightarrow> unat (w - 1) = unat w - 1" for w :: "'a::len word"
  by (rule unat_minus_one) auto

definition aged :: "Process \<Rightarrow> Process" where
  "aged c = (if 0 < time_slice_remaining c then c\<lparr>time_slice_remaining := time_slice_remaining c - 1\<rparr> else c)"

lemma tick_eq:
  assumes "current s = Some c" "state c = Running"
  shows "Scheduler_tick ptr s m =
    (if time_slice_remaining (aged c) = 0 then snd (schedule ptr (s\<lparr>current := Some (aged c)\<rparr>) m)
     else (s\<lparr>current := Some (aged c)\<rparr>, m))"
  using assms by (simp add: Scheduler_tick_def aged_def Let_def)

lemma aged_facts:
  assumes "time_slice_remaining c \<le> default_time_slice c"
  shows "time_slice_remaining (aged c) \<le> default_time_slice (aged c)" "state (aged c) = state c"
    "core (aged c) = core c" "unat (time_slice_remaining (aged c)) = unat (time_slice_remaining c) - 1"
  using assms unat_pred [of "time_slice_remaining c"] by (auto simp: aged_def word_le_nat_alt word_less_nat_alt unat_eq_0)

lemma tick_inv:
  assumes inv: "sched_inv n s" and res: "Scheduler_tick ptr s m = (s', m')"
  shows "sched_inv n s'" "conserves [] s s'"
proof -
  obtain c where c: "current s = Some c" "state c = Running" "time_slice_remaining c \<le> default_time_slice c"
    using inv by (auto simp: sched_inv_def)
  let ?c = "aged c"
  let ?s = "s\<lparr>current := Some ?c\<rparr>"
  have le: "time_slice_remaining ?c \<le> default_time_slice ?c" "state ?c = Running" "core ?c = core c"
    using aged_facts [OF c(3)] c(2) by simp_all
  note eq = tick_eq [OF c(1,2), of ptr m]
  have "sched_inv n s' \<and> conserves [] s s'"
  proof (cases "time_slice_remaining ?c = 0")
    case True
    then obtain b where "schedule ptr ?s m = (b, s', m')" using eq res by (cases "schedule ptr ?s m") auto
    from schedule_from(1,2) [OF inv c(1) le(3) _ this] le show ?thesis by simp
  next
    case False
    then have s': "s' = ?s" using eq res by simp
    from leaving_update [OF inv c(1) le(3)] le have "leaving n ?s ?c" by simp
    then have "sched_inv n ?s" using le by (auto simp: leaving_def sched_inv_def)
    moreover have "conserves [] s ?s"
      using current_update_core [OF c(1) le(3)] procs_reaped [of s] by (simp add: conserves_def)
    ultimately show ?thesis using s' by simp
  qed
  then show "sched_inv n s'" "conserves [] s s'" by simp_all
qed

lemma unblock_inv:
  assumes inv: "sched_inv n s"
  shows "sched_inv n (snd (Scheduler_unblock p s))" "conserves [] s (snd (Scheduler_unblock p s))"
proof -
  have refl: "conserves [] s s" using procs_reaped [of s] by (simp add: conserves_def)
  have "sched_inv n (snd (Scheduler_unblock p s)) \<and> conserves [] s (snd (Scheduler_unblock p s))"
  proof (cases "position (\<lambda>q. pid q = p) (blocked s)")
    case None
    then show ?thesis using inv refl by (simp add: Scheduler_unblock_def)
  next
    case (Some i)
    obtain q rest where sr: "swap_remove i (blocked s) = (q, rest)" by fastforce
    note q = swap_remove_mset [OF position_Some [OF Some, THEN conjunct1] sr]
    let ?q = "q\<lparr>state := Ready, time_slice_remaining := default_time_slice q\<rparr>"
    let ?s = "s\<lparr>blocked := rest, ready := ready s @ [?q]\<rparr>"
    have eq: "snd (Scheduler_unblock p s) = ?s" using Some sr by (simp add: Scheduler_unblock_def Let_def)
    have "mset (map core (blocked s)) = add_mset (core q) (mset (map core rest))" using q(2) by (metis image_mset_add_mset mset_map)
    then have cores: "mset (map core (procs ?s)) = mset (map core (procs s))"
        "mset (map core (procs (reaped ?s))) = mset (map core (procs (reaped s)))"
      by (simp_all add: procs_def)
    have "set rest \<subseteq> set (blocked s)" using q(2) by (metis set_mset_mset subset_insertI set_mset_add_mset_insert)
    then have "queues_ok ?s" using inv by (auto simp: sched_inv_def queues_ok_def)
    moreover have "pids_ok n ?s"
      by (rule pids_ok_cong [of _ s]) (use cores(1) inv in \<open>simp_all add: sched_inv_def\<close>)
    ultimately have "sched_inv n ?s" using inv by (simp add: sched_inv_def)
    moreover have "conserves [] s ?s" using cores procs_reaped [of s] by (simp add: conserves_def)
    ultimately show ?thesis by (simp add: eq)
  qed
  then show "sched_inv n (snd (Scheduler_unblock p s))" "conserves [] s (snd (Scheduler_unblock p s))" by simp_all
qed

lemma pids_ok_add:
  assumes "pids_ok n s" "mset (map core (procs s')) = mset (map core (q # procs s))"
    and "pid q = n" "default_time_slice q \<le> DEFAULT_TIME_SLICE" "n < n'"
  shows "pids_ok n' s'"
proof -
  have pid: "map pid ps = map fst (map core ps)" for ps by (simp add: core_def)
  have "mset (map pid (procs s')) = mset (map pid (q # procs s))"
    unfolding pid mset_map [of fst] using assms(2) by simp
  moreover have "distinct (map pid (q # procs s))" using assms(1,3) unfolding pids_ok_def by fastforce
  ultimately have "distinct (map pid (procs s'))" by (metis mset_eq_imp_distinct_iff)
  moreover have "set (map core (procs s')) = set (map core (q # procs s))" by (rule mset_eq_setD) (rule assms(2))
  then have "\<exists>r \<in> set (q # procs s). core p = core r" if "p \<in> set (procs s')" for p
    using that by (metis (no_types, lifting) imageE image_eqI list.set_map)
  then have "\<exists>r \<in> set (q # procs s). pid p = pid r \<and> default_time_slice p = default_time_slice r"
    if "p \<in> set (procs s')" for p
    using that unfolding core_def by fastforce
  moreover have "pid r < n' \<and> default_time_slice r \<le> DEFAULT_TIME_SLICE" if "r \<in> set (q # procs s)" for r
    using that assms(1,3-5) unfolding pids_ok_def by (auto intro: less_trans)
  ultimately show ?thesis unfolding pids_ok_def by metis
qed

lemma unat_next: "w \<noteq> u64_MAX \<Longrightarrow> unat (w + 1) = Suc (unat w)"
  using unatSuc [of w] by (simp add: u64_MAX_def eq_neg_iff_add_eq_0 add.commute)

lemma spawn_inv:
  assumes inv: "kernel_inv k" and ok: "NEXT_PID k \<noteq> u64_MAX"
  obtains k' p where "sched_spawn trampoline nm own entry stk k = (Some p, k')" "kernel_inv k'"
    "p = NEXT_PID k" "NEXT_PID k' = NEXT_PID k + 1"
    "\<exists>q. pid q = p \<and> owner q = own \<and> conserves [q] (SCHEDULER k) (SCHEDULER k')"
proof -
  let ?n = "NEXT_PID k" and ?s = "SCHEDULER k"
  obtain rsp mem' where ik: "init_kernel_stack trampoline (stack_base stk) (stack_len stk) entry (qwords (cpu k)) = (rsp, mem')"
    by fastforce
  let ?q = "\<lparr>kernel_rsp = rsp, pid = ?n, owner = own, name = nm, state = Ready, kernel_stack = stk,
    time_slice_remaining = DEFAULT_TIME_SLICE, default_time_slice = DEFAULT_TIME_SLICE\<rparr>"
  let ?k = "k\<lparr>NEXT_PID := ?n + 1, SCHEDULER := ?s\<lparr>ready := ready ?s @ [?q]\<rparr>, cpu := (cpu k)\<lparr>qwords := mem'\<rparr>\<rparr>"
  have sp: "sched_spawn trampoline nm own entry stk k = (Some ?n, ?k)"
    using ok ik by (simp add: sched_spawn_def Process_new_def alloc_pid_def new_with_pid_def Scheduler_spawn_def Let_def)
  have less: "?n < ?n + 1" using unat_next [OF ok] by (simp add: word_less_nat_alt)
  have "pids_ok (?n + 1) (SCHEDULER ?k)"
    by (rule pids_ok_add [of ?n ?s _ ?q]) (use inv less in \<open>simp_all add: kernel_inv_def sched_inv_def procs_def\<close>)
  moreover have "queues_ok (SCHEDULER ?k)" using inv by (simp add: kernel_inv_def sched_inv_def queues_ok_def)
  moreover have "1 < ?n + 1" using inv less unfolding kernel_inv_def by (meson less_trans)
  ultimately have "kernel_inv ?k" using inv by (simp add: kernel_inv_def sched_inv_def)
  moreover have "conserves [?q] ?s (SCHEDULER ?k)" by (simp add: conserves_def procs_def)
  ultimately show thesis using sp by (intro that [of ?n ?k] exI [of _ ?q]) simp_all
qed

definition spawned :: "sched_op \<Rightarrow> kernel \<Rightarrow> Process list \<Rightarrow> bool" where
  "spawned op k new \<longleftrightarrow>
    (case op of Spawn nm own entry stk \<Rightarrow> \<exists>q. new = [q] \<and> pid q = NEXT_PID k \<and> owner q = own | _ \<Rightarrow> new = [])"

lemma step_inv:
  assumes inv: "kernel_inv k" and ok: "op_allowed op k"
  obtains k' new where "sched_step trampoline slot op k = Some k'" "kernel_inv k'" "spawned op k new"
    "conserves new (SCHEDULER k) (SCHEDULER k')"
proof -
  let ?s = "SCHEDULER k" and ?ptr = "slot (SCHEDULER k)" and ?n = "NEXT_PID k"
  have si: "sched_inv ?n ?s" and n: "1 < ?n" using inv by (auto simp: kernel_inv_def)
  obtain c where c: "current ?s = Some c" "state c = Running" "time_slice_remaining c \<le> default_time_slice c"
    using si by (auto simp: sched_inv_def)
  have keep: "kernel_inv (on_cpu k (s', m'))" if "sched_inv ?n s'" for s' m'
    using that n by (simp add: kernel_inv_def on_cpu_def)
  have on: "SCHEDULER (on_cpu k (s', m')) = s'" for s' m' by (simp add: on_cpu_def)
  show thesis
  proof (cases op)
    case (Spawn nm own entry stk)
    with ok have "NEXT_PID k \<noteq> u64_MAX" by (simp add: op_allowed_def)
    from spawn_inv [OF inv this, of trampoline nm own entry stk] obtain k' p q where
      "sched_spawn trampoline nm own entry stk k = (Some p, k')" "kernel_inv k'"
      "pid q = NEXT_PID k" "owner q = own" "conserves [q] ?s (SCHEDULER k')" by metis
    with Spawn show ?thesis by (intro that [of k' "[q]"]) (simp_all add: spawned_def)
  next
    case Tick
    obtain s' m' where t: "Scheduler_tick ?ptr ?s (cpu k) = (s', m')" by fastforce
    from tick_inv [OF si t] keep Tick t show ?thesis
      by (intro that [of "on_cpu k (s', m')" "[]"]) (simp_all add: spawned_def on)
  next
    case Yield
    obtain b s' m' where t: "schedule ?ptr ?s (cpu k) = (b, s', m')" by (rule prod_cases3)
    have "?s\<lparr>current := Some c\<rparr> = ?s" using c(1) by simp
    with schedule_from(1,2) [OF si c(1), of c ?ptr "cpu k" b s' m'] c(2,3) t keep Yield show ?thesis
      by (intro that [of "on_cpu k (s', m')" "[]"]) (simp_all add: spawned_def on Scheduler_yield_now_def)
  next
    case Exit
    let ?c = "c\<lparr>state := Zombie, time_slice_remaining := 0\<rparr>"
    obtain b s' m' where t: "schedule ?ptr (?s\<lparr>current := Some ?c\<rparr>) (cpu k) = (b, s', m')" by (rule prod_cases3)
    have "pid c \<noteq> PID_IDLE" using ok c(1) Exit by (simp add: op_allowed_def Scheduler_current_pid_def)
    with schedule_from [OF si c(1) _ _ t] keep Exit t c(1) show ?thesis
      by (intro that [of "on_cpu k (s', m')" "[]"]) (simp_all add: spawned_def on Scheduler_exit_current_def)
  next
    case Block
    let ?c = "c\<lparr>state := Blocked\<rparr>"
    obtain b s' m' where t: "schedule ?ptr (?s\<lparr>current := Some ?c\<rparr>) (cpu k) = (b, s', m')" by (rule prod_cases3)
    have "pid c \<noteq> PID_IDLE" using ok c(1) Block by (simp add: op_allowed_def Scheduler_current_pid_def)
    with schedule_from [OF si c(1) _ _ t] keep Block t c(1) show ?thesis
      by (intro that [of "on_cpu k (s', m')" "[]"]) (simp_all add: spawned_def on Scheduler_block_current_def)
  next
    case (Unblock p)
    with unblock_inv [OF si, of p] n show ?thesis
      by (intro that [of "k\<lparr>SCHEDULER := snd (Scheduler_unblock p ?s)\<rparr>" "[]"]) (simp_all add: spawned_def kernel_inv_def)
  qed
qed

section \<open>Runs of the scheduler\<close>

inductive sched_reachable :: "u64 \<Rightarrow> (Scheduler \<Rightarrow> u64) \<Rightarrow> kernel \<Rightarrow> bool" for trampoline slot where
  boot: "sched_init trampoline idle_loop idle_stack \<lparr>NEXT_PID = NEXT_PID_INIT, SCHEDULER = Scheduler_new, cpu = m\<rparr> =
    (Ok (), k) \<Longrightarrow> sched_reachable trampoline slot k"
| call: "sched_reachable trampoline slot k \<Longrightarrow> op_allowed op k \<Longrightarrow> sched_step trampoline slot op k = Some k' \<Longrightarrow>
    sched_reachable trampoline slot k'"
| run: "sched_reachable trampoline slot k \<Longrightarrow> sched_reachable trampoline slot (k\<lparr>cpu := m\<rparr>)"

lemma boot_inv:
  assumes "sched_init trampoline idle_loop idle_stack \<lparr>NEXT_PID = NEXT_PID_INIT, SCHEDULER = Scheduler_new, cpu = m\<rparr> = (Ok (), k)"
  shows "kernel_inv k"
proof -
  obtain i mem' where "new_with_pid trampoline PID_IDLE ''idle'' KERNEL_OWNER idle_loop idle_stack DEFAULT_TIME_SLICE (qwords m) =
      (i, mem')" by fastforce
  moreover from this have i: "pid i = PID_IDLE" "state i = Ready" "default_time_slice i = DEFAULT_TIME_SLICE"
    by (auto simp: new_with_pid_def split: prod.splits)
  ultimately have "k = \<lparr>NEXT_PID = NEXT_PID_INIT, SCHEDULER = \<lparr>initialized = True, ready = [],
      current = Some (bootstrap KERNEL_OWNER), idle = Some i, blocked = [], defunct = []\<rparr>, cpu = m\<lparr>qwords := mem'\<rparr>\<rparr>"
    using assms by (simp add: sched_init_def Scheduler_init_def Scheduler_new_def)
  then show ?thesis
    using i by (simp add: kernel_inv_def sched_inv_def queues_ok_def pids_ok_def procs_def bootstrap_def kconst)
qed

lemma reachable_inv: "sched_reachable trampoline slot k \<Longrightarrow> kernel_inv k"
proof (induction rule: sched_reachable.induct)
  case (boot idle_loop idle_stack m k)
  then show ?case by (rule boot_inv)
next
  case (call k op k')
  from call.IH call.hyps(2) show ?case
    by (rule step_inv [where trampoline = trampoline and slot = slot]) (use call.hyps(3) in simp)
next
  case (run k m)
  then show ?case by (simp add: kernel_inv_def)
qed


definition example_boot :: kernel where
  "example_boot = snd (sched_init 0x200 0x300 \<lparr>stack_base = 0x10000, stack_len = 4096\<rparr>
    \<lparr>NEXT_PID = NEXT_PID_INIT, SCHEDULER = Scheduler_new, cpu = example_machine 0x2000\<rparr>)"

lemma example_boot_reachable: "sched_reachable 0x200 (\<lambda>_. 0x5000) example_boot"
proof (rule sched_reachable.boot)
  show "sched_init 0x200 0x300 \<lparr>stack_base = 0x10000, stack_len = 4096\<rparr>
    \<lparr>NEXT_PID = NEXT_PID_INIT, SCHEDULER = Scheduler_new, cpu = example_machine 0x2000\<rparr> = (Ok (), example_boot)"
    by (simp add: example_boot_def sched_init_def Scheduler_init_def Scheduler_new_def split: prod.splits)
qed


text \<open>C14: no task is ever lost or duplicated. One step keeps every control block, with its
  identifier, owner, name and stack, except those that were already waiting to be freed; it adds
  exactly the spawned task, under a fresh identifier.\<close>

theorem no_task_lost:
  assumes "sched_reachable trampoline slot k" "op_allowed op k" "sched_step trampoline slot op k = Some k'"
  shows "\<exists>new. spawned op k new \<and> (\<forall>q \<in> set new. pid q \<notin> pid ` set (procs (SCHEDULER k))) \<and>
    mset (map core (procs (SCHEDULER k) @ new)) - mset (map core (defunct (SCHEDULER k))) \<subseteq># mset (map core (procs (SCHEDULER k'))) \<and>
    mset (map core (procs (SCHEDULER k'))) \<subseteq># mset (map core (procs (SCHEDULER k) @ new))"
proof -
  have ki: "kernel_inv k" by (rule reachable_inv) (rule assms(1))
  obtain new where new: "spawned op k new" "conserves new (SCHEDULER k) (SCHEDULER k')"
    using step_inv [OF ki assms(2), of trampoline slot] assms(3) by auto
  have "pid q \<notin> pid ` set (procs (SCHEDULER k))" if "q \<in> set new" for q
    using that new(1) ki by (fastforce simp: spawned_def kernel_inv_def sched_inv_def pids_ok_def split: sched_op.splits)
  moreover have "mset (map core (procs (SCHEDULER k) @ new)) - mset (map core (defunct (SCHEDULER k))) =
      mset (map core (procs (reaped (SCHEDULER k)) @ new))"
    by (simp add: procs_def)
  ultimately show ?thesis using new unfolding conserves_def by (intro exI [of _ new]) simp
qed

theorem no_task_lost_witness:
  "op_allowed Yield example_boot \<and>
   (\<exists>k'. sched_step 0x200 (\<lambda>_. 0x5000) Yield example_boot = Some k' \<and>
      mset (map core (procs (SCHEDULER k'))) \<subseteq># mset (map core (procs (SCHEDULER example_boot))))"
proof -
  have "op_allowed Yield example_boot" by (simp add: op_allowed_def)
  moreover obtain k' where k': "sched_step 0x200 (\<lambda>_. 0x5000) Yield example_boot = Some k'" by simp
  ultimately show ?thesis
    using no_task_lost [OF example_boot_reachable _ k'] by (auto simp: spawned_def)
qed

lemma slice_bound:
  assumes "sched_inv n s" "current s = Some c"
  shows "unat (time_slice_remaining c) \<le> 10"
proof -
  have "time_slice_remaining c \<le> default_time_slice c" "default_time_slice c \<le> DEFAULT_TIME_SLICE"
    using assms by (auto simp: sched_inv_def pids_ok_def procs_def)
  then have "time_slice_remaining c \<le> 10" by (simp add: DEFAULT_TIME_SLICE_def)
  then show ?thesis by (simp add: word_le_nat_alt)
qed

section \<open>Progress\<close>

definition timer :: "(Scheduler \<Rightarrow> u64) \<Rightarrow> Scheduler \<times> machine \<Rightarrow> Scheduler \<times> machine" where
  "timer slot = (\<lambda>(s, m). Scheduler_tick (slot s) s m)"

lemma head_runs:
  assumes "sched_inv n s" "ready s = nx # rest" "current s = Some c"
  shows "\<exists>t s' m' tail. t \<le> max 1 (unat (time_slice_remaining c)) \<and> (timer slot ^^ t) (s, m) = (s', m') \<and>
    sched_inv n s' \<and> Scheduler_current_pid s' = Some (pid nx) \<and> ready s' = rest @ tail"
  using assms
proof (induction "unat (time_slice_remaining c)" arbitrary: s m c rule: less_induct)
  case less
  have c: "state c = Running" "time_slice_remaining c \<le> default_time_slice c"
    using less.prems(1,3) by (auto simp: sched_inv_def)
  let ?r = "time_slice_remaining c" and ?c = "aged c"
  note aged = aged_facts [OF c(2)]
  obtain s1 m1 where t1: "timer slot (s, m) = (s1, m1)" by fastforce
  then have tick: "Scheduler_tick (slot s) s m = (s1, m1)" by (simp add: timer_def)
  have inv1: "sched_inv n s1" by (rule tick_inv(1) [OF less.prems(1) tick])
  note eq = tick_eq [OF less.prems(3) c(1), of "slot s" m, unfolded tick]
  show ?case
  proof (cases "time_slice_remaining ?c = 0")
    case True
    then obtain b where "schedule (slot s) (s\<lparr>current := Some ?c\<rparr>) m = (b, s1, m1)"
      using eq by (cases "schedule (slot s) (s\<lparr>current := Some ?c\<rparr>) m") auto
    moreover have "leaving n (s\<lparr>current := Some ?c\<rparr>) ?c"
      by (rule leaving_update [OF less.prems(1,3)])
        (use c(1) aged in simp_all)
    ultimately have "Scheduler_current_pid s1 = Some (pid nx)" "\<exists>tail. ready s1 = rest @ tail"
      using less.prems(2)
      by (auto elim!: schedule_cases simp: Scheduler_current_pid_def stash_current_def Let_def split: ProcessState.splits)
    then show ?thesis using t1 inv1 by (intro exI [of _ 1]) auto
  next
    case False
    then have s1: "s1 = s\<lparr>current := Some ?c\<rparr>" using eq by simp
    have ne: "0 < unat ?r - 1" using False aged(4) unat_eq_0 [of "time_slice_remaining ?c"] by simp
    have c': "current s1 = Some ?c" "unat (time_slice_remaining ?c) = unat ?r - 1" "unat ?r - 1 < unat ?r"
      using ne s1 aged(4) by simp_all
    from less.hyps [OF _ inv1 _ c'(1), of m1] c' less.prems(2) s1
    obtain t s' m' tail where t: "t \<le> max 1 (unat ?r - 1)" "(timer slot ^^ t) (s1, m1) = (s', m')"
      "sched_inv n s'" "Scheduler_current_pid s' = Some (pid nx)" "ready s' = rest @ tail" by auto
    have "(timer slot ^^ Suc t) (s, m) = (s', m')" using t(2) t1 by (simp add: funpow_swap1)
    moreover have "Suc t \<le> max 1 (unat ?r)" using t(1) ne by simp
    ultimately show ?thesis using t(3-5) by blast
  qed
qed

text \<open>C15: no runnable task starves. The task at position \<open>i\<close> of the ready queue is on the processor
  after at most \<open>10 (i + 1)\<close> timer ticks, even if no task ever yields.\<close>

theorem ready_task_runs:
  assumes "sched_inv n s" "i < length (ready s)"
  shows "\<exists>t \<le> 10 * (i + 1). Scheduler_current_pid (fst ((timer slot ^^ t) (s, m))) = Some (pid (ready s ! i))"
  using assms
proof (induction i arbitrary: s m)
  case 0
  then obtain nx rest c where s: "ready s = nx # rest" "current s = Some c"
    by (cases "ready s") (auto simp: sched_inv_def)
  have r: "unat (time_slice_remaining c) \<le> 10" by (rule slice_bound [OF 0(1) s(2)])
  obtain t s' m' where t: "t \<le> max 1 (unat (time_slice_remaining c))" "(timer slot ^^ t) (s, m) = (s', m')"
    "Scheduler_current_pid s' = Some (pid nx)"
    using head_runs [OF 0(1) s] by blast
  then show ?case using r s by (intro exI [of _ t]) simp
next
  case (Suc i)
  then obtain nx rest c where s: "ready s = nx # rest" "current s = Some c"
    by (cases "ready s") (auto simp: sched_inv_def)
  have r: "unat (time_slice_remaining c) \<le> 10" by (rule slice_bound [OF Suc.prems(1) s(2)])
  obtain t s' m' tail where t: "t \<le> max 1 (unat (time_slice_remaining c))" "(timer slot ^^ t) (s, m) = (s', m')"
    "sched_inv n s'" "ready s' = rest @ tail"
    using head_runs [OF Suc.prems(1) s] by blast
  have i: "i < length rest" using Suc.prems(2) s(1) by simp
  obtain t' where t': "t' \<le> 10 * (i + 1)"
    "Scheduler_current_pid (fst ((timer slot ^^ t') (s', m'))) = Some (pid (ready s' ! i))"
    using Suc.IH [OF t(3)] t(4) i by auto
  have "(timer slot ^^ (t' + t)) (s, m) = (timer slot ^^ t') (s', m')" using t(2) by (simp add: funpow_add)
  moreover have "ready s' ! i = ready s ! Suc i" using i t(4) s(1) by (simp add: nth_append)
  moreover have "t' + t \<le> 10 * (Suc i + 1)" using t(1) t'(1) r by simp
  ultimately show ?case using t'(2) by (intro exI [of _ "t' + t"]) simp
qed

definition one_ready :: kernel where
  "one_ready = snd (sched_spawn 0x200 ''init'' 7 0x4444 \<lparr>stack_base = 0x20000, stack_len = 4096\<rparr> example_boot)"

lemma one_ready_facts:
  "kernel_inv one_ready" "regs (cpu one_ready) RSP = 0x2000"
  "\<exists>nx. ready (SCHEDULER one_ready) = [nx] \<and> pid nx = 2 \<and> kernel_rsp nx = 0x20FC0"
proof -
  let ?stk = "\<lparr>stack_base = 0x20000, stack_len = 4096\<rparr>"
  have boot: "kernel_inv example_boot" "NEXT_PID example_boot = 2" "ready (SCHEDULER example_boot) = []"
    "regs (cpu example_boot) RSP = 0x2000"
    using reachable_inv [OF example_boot_reachable]
    by (simp_all add: example_boot_def sched_init_def Scheduler_init_def Scheduler_new_def example_machine_def kconst
        split: prod.splits)
  have max: "NEXT_PID example_boot \<noteq> u64_MAX" using boot(2) by (simp add: u64_MAX_def)
  from boot(1) max show "kernel_inv one_ready"
    by (rule spawn_inv [where trampoline = "0x200" and nm = "''init''" and own = 7 and entry = "0x4444" and stk = ?stk])
      (auto simp: one_ready_def)
  obtain rsp mem' where ik: "init_kernel_stack 0x200 0x20000 4096 0x4444 (qwords (cpu example_boot)) = (rsp, mem')"
    by fastforce
  from init_kernel_stack_spec(1) [OF ik] have "rsp = 0x20FC0" by simp
  then show "\<exists>nx. ready (SCHEDULER one_ready) = [nx] \<and> pid nx = 2 \<and> kernel_rsp nx = 0x20FC0"
    "regs (cpu one_ready) RSP = 0x2000"
    using boot ik max by (simp_all add: one_ready_def sched_spawn_def Process_new_def alloc_pid_def new_with_pid_def
        Scheduler_spawn_def Let_def)
qed

theorem ready_task_runs_witness:
  "sched_inv (NEXT_PID one_ready) (SCHEDULER one_ready) \<and> 0 < length (ready (SCHEDULER one_ready)) \<and>
   (\<exists>t \<le> 10. Scheduler_current_pid (fst ((timer (\<lambda>_. 0x5000) ^^ t) (SCHEDULER one_ready, cpu one_ready))) = Some 2)"
proof -
  have inv: "sched_inv (NEXT_PID one_ready) (SCHEDULER one_ready)" using one_ready_facts(1) by (simp add: kernel_inv_def)
  obtain nx where nx: "ready (SCHEDULER one_ready) = [nx]" "pid nx = 2" using one_ready_facts(3) by blast
  then have len: "0 < length (ready (SCHEDULER one_ready))" by simp
  from ready_task_runs [OF inv len, of "\<lambda>_. 0x5000" "cpu one_ready"] show ?thesis using inv len nx by simp
qed



text \<open>The exception to the rule that the idle task neither exits nor blocks is real. With
  nothing ready, an exit of the idle task panics; and once it has blocked it stays current, marked
  as blocked, and no timer tick ever switches away from it again, even when tasks are ready.\<close>

theorem idle_must_not_leave:
  assumes "sched_inv n s" "Scheduler_current_pid s = Some PID_IDLE" "ready s = []"
  shows "Scheduler_exit_current ptr s m = None \<and>
    (let s' = fst (Scheduler_block_current ptr s m) in
     Scheduler_current_pid s' = Some PID_IDLE \<and> blocked s' = blocked s \<and>
     Scheduler_tick ptr2 (snd (Scheduler_spawn p s')) m2 = (snd (Scheduler_spawn p s'), m2))"
proof -
  obtain c where c: "current s = Some c" "idle s = None"
    using assms(1,2) by (auto simp: sched_inv_def Scheduler_current_pid_def)
  then show ?thesis
    using assms(2,3)
    by (simp add: Scheduler_exit_current_def Scheduler_block_current_def schedule_def take_next_def Let_def
        Scheduler_current_pid_def Scheduler_tick_def Scheduler_spawn_def)
qed

lemma idle_running:
  "\<exists>k :: kernel. sched_inv (NEXT_PID k) (SCHEDULER k) \<and> Scheduler_current_pid (SCHEDULER k) = Some PID_IDLE \<and> ready (SCHEDULER k) = []"
proof -
  let ?s = "SCHEDULER example_boot"
  have cur: "current ?s = Some (bootstrap KERNEL_OWNER)" "ready ?s = []"
    by (simp_all add: example_boot_def sched_init_def Scheduler_init_def Scheduler_new_def split: prod.splits)
  then obtain i where "idle ?s = Some i" "pid i = PID_IDLE"
    using reachable_inv [OF example_boot_reachable]
    by (cases "idle ?s") (auto simp: kernel_inv_def sched_inv_def queues_ok_def bootstrap_def kconst)
  note b = this cur
  have "op_allowed Exit example_boot"
    using b by (simp add: op_allowed_def Scheduler_current_pid_def bootstrap_def kconst)
  from reachable_inv [OF example_boot_reachable] this obtain k
    where k: "sched_step 0 (\<lambda>_. 0) Exit example_boot = Some k" "kernel_inv k" by (rule step_inv)
  have "Scheduler_current_pid (SCHEDULER k) = Some PID_IDLE" "ready (SCHEDULER k) = []"
    using k(1) b by (auto simp: Scheduler_exit_current_def schedule_def take_next_def stash_current_def on_cpu_def
        Scheduler_current_pid_def Let_def)
  then show ?thesis using k(2) by (auto simp: kernel_inv_def)
qed

theorem idle_must_not_leave_example:
  "\<exists>k :: kernel. sched_inv (NEXT_PID k) (SCHEDULER k) \<and> Scheduler_current_pid (SCHEDULER k) = Some PID_IDLE \<and>
    ready (SCHEDULER k) = [] \<and> Scheduler_exit_current 0x5000 (SCHEDULER k) (cpu k) = None"
  using idle_running idle_must_not_leave by blast

end
