(* ===== verification/BTree_Map.thy ===== *)
theory BTree_Map
  imports Golem_Prelude "HOL-Library.List_Lexorder" "HOL-Library.Char_ord"
begin

text \<open>
  The ordered map \<open>alloc::collections::BTreeMap\<close>, as the kernel uses it: the association list in
  ascending order of its keys, which is the order in which iteration delivers them. Rust compares
  strings by their bytes, which is the lexicographic order on character lists.

  \<open>key_value_map\<close> is the interface the clients rely on; what they need of it beyond the laws is
  proved once there and is available for the ordered lists through the interpretation \<open>bt\<close>.
\<close>

section \<open>Ordered association lists\<close>

type_synonym ('k, 'v) btree = "('k \<times> 'v) list"

definition bt_new :: "('k, 'v) btree" where
  "bt_new = []"

definition bt_get :: "'k \<Rightarrow> ('k, 'v) btree \<Rightarrow> 'v option" where
  "bt_get k m = map_of m k"

fun bt_insert :: "'k::linorder \<Rightarrow> 'v \<Rightarrow> ('k, 'v) btree \<Rightarrow> ('k, 'v) btree" where
  "bt_insert k v [] = [(k, v)]"
| "bt_insert k v ((k', v') # m) =
    (if k < k' then (k, v) # (k', v') # m
     else if k = k' then (k, v) # m
     else (k', v') # bt_insert k v m)"

definition bt_remove :: "'k \<Rightarrow> ('k, 'v) btree \<Rightarrow> ('k, 'v) btree" where
  "bt_remove k m = filter (\<lambda>(k', _). k' \<noteq> k) m"

definition bt_contains_key :: "'k \<Rightarrow> ('k, 'v) btree \<Rightarrow> bool" where
  "bt_contains_key k m \<longleftrightarrow> bt_get k m \<noteq> None"

definition bt_get_mut :: "'k::linorder \<Rightarrow> ('v \<Rightarrow> 'v) \<Rightarrow> ('k, 'v) btree \<Rightarrow> ('k, 'v) btree" where
  "bt_get_mut k f m = (case bt_get k m of None \<Rightarrow> m | Some v \<Rightarrow> bt_insert k (f v) m)"

definition bt_sorted :: "('k::linorder, 'v) btree \<Rightarrow> bool" where
  "bt_sorted m \<longleftrightarrow> sorted_wrt (<) (map fst m)"

lemma bt_get_insert: "bt_get j (bt_insert k v m) = (if j = k then Some v else bt_get j m)"
  by (induction k v m rule: bt_insert.induct) (auto simp: bt_get_def)

lemma bt_get_remove: "bt_get j (bt_remove k m) = (if j = k then None else bt_get j m)"
  by (induction m) (auto simp: bt_get_def bt_remove_def)

lemma set_bt_insert: "fst ` set (bt_insert k v m) = insert k (fst ` set m)"
  by (induction k v m rule: bt_insert.induct) auto

lemma bt_sorted_insert: "bt_sorted m \<Longrightarrow> bt_sorted (bt_insert k v m)"
proof (induction k v m rule: bt_insert.induct)
  case (2 k v k' v' m)
  then show ?case
    using set_bt_insert [of k v m] by (auto simp: bt_sorted_def image_image)
qed (simp add: bt_sorted_def)

lemma bt_sorted_remove: "bt_sorted m \<Longrightarrow> bt_sorted (bt_remove k m)"
  unfolding bt_sorted_def bt_remove_def sorted_wrt_map by (rule sorted_wrt_filter)

section \<open>The interface\<close>

locale key_value_map =
  fixes get :: "'k \<Rightarrow> 'm \<Rightarrow> 'v option"
    and insert :: "'k \<Rightarrow> 'v \<Rightarrow> 'm \<Rightarrow> 'm"
    and remove :: "'k \<Rightarrow> 'm \<Rightarrow> 'm"
    and inv :: "'m \<Rightarrow> bool"
  assumes get_insert: "get j (insert k v m) = (if j = k then Some v else get j m)"
    and get_remove: "get j (remove k m) = (if j = k then None else get j m)"
    and inv_insert: "inv m \<Longrightarrow> inv (insert k v m)"
    and inv_remove: "inv m \<Longrightarrow> inv (remove k m)"
begin

lemma get_update:
  "get j (case get k m of None \<Rightarrow> m | Some v \<Rightarrow> insert k (f v) m) =
    (if j = k then map_option f (get k m) else get j m)"
  by (simp add: get_insert split: option.split)

lemma inv_update: "inv m \<Longrightarrow> inv (case get k m of None \<Rightarrow> m | Some v \<Rightarrow> insert k (f v) m)"
  by (simp add: inv_insert split: option.split)

lemma get_move:
  "get j (insert k v (remove i m)) = (if j = k then Some v else if j = i then None else get j m)"
  by (simp add: get_insert get_remove)

end

interpretation bt: key_value_map bt_get bt_insert bt_remove bt_sorted
  by unfold_locales (simp_all add: bt_get_insert bt_get_remove bt_sorted_insert bt_sorted_remove)

lemma bt_get_mut_get: "bt_get j (bt_get_mut k f m) = (if j = k then map_option f (bt_get k m) else bt_get j m)"
  unfolding bt_get_mut_def by (rule bt.get_update)

lemma bt_sorted_get_mut: "bt_sorted m \<Longrightarrow> bt_sorted (bt_get_mut k f m)"
  unfolding bt_get_mut_def by (rule bt.inv_update)

lemma bt_new_facts [simp]: "bt_get k bt_new = None" "bt_sorted bt_new"
  by (simp_all add: bt_get_def bt_new_def bt_sorted_def)

lemmas bt_simps = bt_get_insert bt_get_remove bt_get_mut_get bt_contains_key_def
lemmas bt_sorted_intros = bt_sorted_insert bt_sorted_remove bt_sorted_get_mut

lemma bt_get_in_set: "bt_get k m = Some v \<Longrightarrow> (k, v) \<in> set m"
  unfolding bt_get_def by (rule map_of_SomeD)

lemma bt_empty_iff: "m = [] \<longleftrightarrow> (\<forall>k. bt_get k m = None)"
  by (auto simp: bt_get_def map_of_eq_None_iff)

end
