(* ===== verification/Fs_Types.thy ===== *)
theory Fs_Types
  imports BTree_Map
begin

text \<open>
  The vocabulary of the file systems, from \<open>fs/vfs.rs\<close>: file types, metadata, directory entries
  and errors. File contents are lists of bytes; a buffer that an operation fills is modelled by
  the list of bytes it writes into it, whose length is the returned count. A pair
  \<open>(result, state)\<close> is returned by every operation that may change the state.
\<close>

type_synonym InodeNum = u64
type_synonym Mode = u32

datatype FileType = Regular | Directory | Symlink | CharDevice | BlockDevice | Fifo | Socket

record Metadata =
  md_inode :: InodeNum
  md_file_type :: FileType
  md_size :: u64
  md_mode :: Mode
  md_uid :: u32
  md_gid :: u32
  md_nlink :: u32
  md_atime :: u64
  md_mtime :: u64
  md_ctime :: u64

record DirEntry =
  de_name :: string
  de_inode :: InodeNum
  de_file_type :: FileType

datatype FsError =
  NotFound | AlreadyExists | NotADirectory | IsADirectory | NotEmpty | InvalidPath | InvalidArgument
| InvalidOffset | PermissionDenied | NoSpace | ReadOnly | Io | Unsupported | BadDescriptor | CrossDevice

fun FsError_display :: "FsError \<Rightarrow> string" where
  "FsError_display NotFound = ''no such file or directory''"
| "FsError_display AlreadyExists = ''file exists''"
| "FsError_display NotADirectory = ''not a directory''"
| "FsError_display IsADirectory = ''is a directory''"
| "FsError_display NotEmpty = ''directory not empty''"
| "FsError_display InvalidPath = ''invalid path''"
| "FsError_display InvalidArgument = ''invalid argument''"
| "FsError_display InvalidOffset = ''invalid offset''"
| "FsError_display PermissionDenied = ''permission denied''"
| "FsError_display NoSpace = ''no space left on device''"
| "FsError_display ReadOnly = ''read-only filesystem''"
| "FsError_display Io = ''i/o error''"
| "FsError_display Unsupported = ''operation not supported''"
| "FsError_display BadDescriptor = ''bad file descriptor''"
| "FsError_display CrossDevice = ''cross-device link''"

type_synonym 'a FsResult = "FsError + 'a"

end
