(* ===== verification/Path_Tree.thy ===== *)
theory Path_Tree
  imports Golem_Prelude "HOL-Library.Sublist"
begin

text \<open>
  Trees given by labelled edges: \<open>e d n\<close> is the child of \<open>d\<close> under the name \<open>n\<close>. \<open>walk\<close> follows a
  path, and \<open>edges_ok\<close> says that a node has one parent and one name there, which makes paths from
  the root unique. The lemmas tell what adding, removing and moving one edge do to every path.
\<close>

type_synonym ('i, 'n) edges = "'i \<Rightarrow> 'n \<Rightarrow> 'i option"

fun walk :: "('i, 'n) edges \<Rightarrow> 'i \<Rightarrow> 'n list \<Rightarrow> 'i option" where
  "walk e i [] = Some i"
| "walk e i (n # ns) = (case e i n of None \<Rightarrow> None | Some j \<Rightarrow> walk e j ns)"

definition upd :: "'i \<Rightarrow> 'n \<Rightarrow> 'i option \<Rightarrow> ('i, 'n) edges \<Rightarrow> ('i, 'n) edges" where
  "upd p n x e = e(p := (e p)(n := x))"

definition edges_ok :: "('i, 'n) edges \<Rightarrow> ('i \<Rightarrow> 'i) \<Rightarrow> 'i \<Rightarrow> bool" where
  "edges_ok e par root \<longleftrightarrow>
    (\<forall>d n i. e d n = Some i \<longrightarrow> i \<noteq> root \<and> par i = d) \<and>
    (\<forall>d n m i. e d n = Some i \<longrightarrow> e d m = Some i \<longrightarrow> n = m)"

lemma walk_append: "walk e i (P @ Q) = (case walk e i P of None \<Rightarrow> None | Some j \<Rightarrow> walk e j Q)"
  by (induction P arbitrary: i) (auto split: option.split)

lemma walk_snoc: "walk e i (P @ [n]) = (case walk e i P of None \<Rightarrow> None | Some j \<Rightarrow> e j n)"
  by (simp add: walk_append split: option.split)

lemma upd_apply: "upd p n x e d m = (if d = p \<and> m = n then x else e d m)"
  by (simp add: upd_def)

lemma edges_okD:
  assumes "edges_ok e par root" "e d n = Some i"
  shows "i \<noteq> root" "par i = d" "e d m = Some i \<Longrightarrow> m = n"
  using assms unfolding edges_ok_def by blast+

lemma walk_inj:
  assumes ok: "edges_ok e par root"
  shows "walk e root P = Some i \<Longrightarrow> walk e root Q = Some i \<Longrightarrow> P = Q"
proof (induction P arbitrary: i Q rule: rev_induct)
  case Nil
  then show ?case using edges_okD(1) [OF ok]
    by (cases Q rule: rev_cases) (auto simp: walk_snoc split: option.splits)
next
  case (snoc n P)
  then obtain d where d: "walk e root P = Some d" "e d n = Some i" by (auto simp: walk_snoc split: option.splits)
  show ?case
  proof (cases Q rule: rev_cases)
    case Nil
    then show ?thesis using snoc.prems(2) edges_okD(1) [OF ok d(2)] by simp
  next
    case (snoc Q' m)
    then obtain d' where d': "walk e root Q' = Some d'" "e d' m = Some i"
      using snoc.prems(2) by (auto simp: walk_snoc split: option.splits)
    have "d' = d" using edges_okD(2) [OF ok d(2)] edges_okD(2) [OF ok d'(2)] by simp
    then show ?thesis using snoc.IH [OF d(1)] d' edges_okD(3) [OF ok d(2), of m] snoc by simp
  qed
qed

lemma walk_chain: "edges_ok e par root \<Longrightarrow> walk e i P = Some j \<Longrightarrow> (par ^^ length P) j = i"
proof (induction P arbitrary: j rule: rev_induct)
  case (snoc n P)
  then obtain d where "walk e i P = Some d" "e d n = Some j" by (auto simp: walk_snoc split: option.splits)
  then show ?case using snoc edges_okD(2) [of e par root d n j] by (simp add: funpow_swap1)
qed simp

lemma walk_upd_other:
  assumes ok: "edges_ok e par root" and p: "walk e root P = Some p"
  shows "\<not> prefix (P @ [n]) Q \<Longrightarrow> walk (upd p n x e) root Q = walk e root Q"
proof (induction Q rule: rev_induct)
  case (snoc m Q)
  then have IH: "walk (upd p n x e) root Q = walk e root Q" by auto
  show ?case
  proof (cases "walk e root Q")
    case (Some d)
    have "\<not> (d = p \<and> m = n)" using snoc.prems walk_inj [OF ok p, of Q] Some by auto
    then have "upd p n x e d m = e d m" by (auto simp: upd_apply)
    then show ?thesis using IH Some by (simp add: walk_snoc)
  qed (simp add: IH walk_snoc)
qed simp

lemma walk_upd_sub: "(\<And>S. walk e j S \<noteq> Some p) \<Longrightarrow> walk (upd p n x e) j R = walk e j R"
proof (induction R arbitrary: j)
  case (Cons m R)
  have "j \<noteq> p" using Cons.prems [of "[]"] by auto
  moreover have "walk e k S \<noteq> Some p" if "e j m = Some k" for k S using Cons.prems [of "m # S"] that by simp
  ultimately show ?case using Cons.IH by (simp add: upd_apply split: option.split)
qed simp

lemma walk_upd_at:
  assumes "edges_ok e par root" "walk e root P = Some p"
  shows "walk (upd p n x e) root (P @ n # R) = (case x of None \<Rightarrow> None | Some j \<Rightarrow> walk (upd p n x e) j R)"
proof -
  have "walk (upd p n x e) root P = Some p" using walk_upd_other [OF assms, of n P x] assms(2) by auto
  then show ?thesis by (simp add: walk_append upd_apply)
qed

lemma walk_leaf: "(\<And>m. e j m = None) \<Longrightarrow> walk e j R = (if R = [] then Some j else None)"
  by (cases R) auto

lemma prefix_snocE:
  assumes "prefix (P @ [n]) Q"
  obtains R where "Q = P @ n # R"
  using assms by (auto simp: prefix_def)

lemma walk_add_leaf:
  assumes ok: "edges_ok e par root" and p: "walk e root P = Some p" and "e p n = None" "\<And>m. e j m = None" "j \<noteq> p"
  shows "walk (upd p n (Some j) e) root Q = (if Q = P @ [n] then Some j else walk e root Q)"
proof (cases "prefix (P @ [n]) Q")
  case True
  then obtain R where Q: "Q = P @ n # R" by (rule prefix_snocE)
  have "walk (upd p n (Some j) e) j R = (if R = [] then Some j else None)"
    using assms(4,5) by (intro walk_leaf) (simp add: upd_apply)
  moreover have "walk e root Q = None" using p assms(3) Q by (simp add: walk_append)
  ultimately show ?thesis using walk_upd_at [OF ok p, of n "Some j" R] Q by auto
next
  case False
  then show ?thesis using walk_upd_other [OF ok p False] by auto
qed

lemma walk_remove_leaf:
  assumes ok: "edges_ok e par root" and p: "walk e root P = Some p" and "e p n = Some j" "\<And>m. e j m = None"
  shows "walk (upd p n None e) root Q = (if Q = P @ [n] then None else walk e root Q)"
proof (cases "prefix (P @ [n]) Q")
  case True
  then obtain R where Q: "Q = P @ n # R" by (rule prefix_snocE)
  then have "walk e root Q = walk e j R" using p assms(3) by (simp add: walk_append)
  then show ?thesis using walk_upd_at [OF ok p, of n None R] walk_leaf [of e j R] assms(4) Q by auto
next
  case False
  then show ?thesis using walk_upd_other [OF ok p False] by auto
qed

definition moved :: "'n list \<Rightarrow> 'n \<Rightarrow> 'n list \<Rightarrow> 'n \<Rightarrow> 'n list \<Rightarrow> 'n list option" where
  "moved OP on NP nn Q =
    (if prefix (NP @ [nn]) Q then Some (OP @ on # drop (Suc (length NP)) Q)
     else if prefix (OP @ [on]) Q then None else Some Q)"

lemma walk_move:
  assumes ok: "edges_ok e par root" and p: "walk e root OP = Some p" "e p on = Some j"
    and q: "walk e root NP = Some q" "\<And>S. walk e j S \<noteq> Some q"
  shows "walk (upd q nn (Some j) (upd p on None e)) root Q =
    (case moved OP on NP nn Q of None \<Rightarrow> None | Some Q' \<Rightarrow> walk e root Q')"
proof -
  let ?e1 = "upd p on None e"
  have ok1: "edges_ok ?e1 par root" using ok unfolding edges_ok_def by (auto simp: upd_apply split: if_splits)
  have sub: "walk e root (OP @ on # R) = walk e j R" for R using p by (simp add: walk_append)
  have q1: "walk ?e1 root NP = Some q"
  proof -
    have "\<not> prefix (OP @ [on]) NP" using sub q by (metis prefix_snocE)
    then show ?thesis using walk_upd_other [OF ok p(1)] q(1) by simp
  qed
  have jp: "walk e j S \<noteq> Some p" for S
    using walk_inj [OF ok p(1), of "OP @ on # S"] sub by auto
  have j1: "walk ?e1 j R = walk e j R" for R by (rule walk_upd_sub) (rule jp)
  show ?thesis
  proof (cases "prefix (NP @ [nn]) Q")
    case True
    then obtain R where Q: "Q = NP @ nn # R" by (rule prefix_snocE)
    have "walk (upd q nn (Some j) ?e1) j R = walk ?e1 j R" by (rule walk_upd_sub) (use q(2) j1 in simp)
    then show ?thesis using walk_upd_at [OF ok1 q1, of nn "Some j" R] Q True sub j1 by (simp add: moved_def)
  next
    case False
    then have 1: "walk (upd q nn (Some j) ?e1) root Q = walk ?e1 root Q" by (rule walk_upd_other [OF ok1 q1])
    show ?thesis
    proof (cases "prefix (OP @ [on]) Q")
      case True
      then obtain R where "Q = OP @ on # R" by (rule prefix_snocE)
      then show ?thesis using walk_upd_at [OF ok p(1), of on None R] 1 False True by (simp add: moved_def)
    next
      case F: False
      then show ?thesis using walk_upd_other [OF ok p(1) F] 1 False by (simp add: moved_def)
    qed
  qed
qed

section \<open>Well-formed trees\<close>

text \<open>
  \<open>c\<close> gives the content of the nodes that exist, \<open>dir\<close> being the content of a directory. In a
  well-formed tree every node but the root is the child of its parent, and every parent chain ends
  in the root.
\<close>

definition tree_wf :: "'c \<Rightarrow> 'i \<Rightarrow> ('i \<Rightarrow> 'c option) \<Rightarrow> ('i, 'n) edges \<Rightarrow> ('i \<Rightarrow> 'i) \<Rightarrow> bool" where
  "tree_wf dir root c e par \<longleftrightarrow>
    c root = Some dir \<and> par root = root \<and> edges_ok e par root \<and>
    (\<forall>d n i. e d n = Some i \<longrightarrow> c d = Some dir \<and> c i \<noteq> None) \<and>
    (\<forall>i. i \<noteq> root \<longrightarrow> c i \<noteq> None \<longrightarrow> (\<exists>n. e (par i) n = Some i)) \<and>
    (\<forall>i. \<exists>k. (par ^^ k) i = root)"

lemma tree_wfD:
  assumes "tree_wf dir root c e par"
  shows "c root = Some dir" "par root = root" "edges_ok e par root"
    "e d n = Some i \<Longrightarrow> c d = Some dir" "e d n = Some i \<Longrightarrow> c i \<noteq> None"
    "e d n = Some i \<Longrightarrow> par i = d" "e d n = Some i \<Longrightarrow> i \<noteq> root"
    "e d n = Some i \<Longrightarrow> e d m = Some i \<Longrightarrow> m = n"
    "i \<noteq> root \<Longrightarrow> c i \<noteq> None \<Longrightarrow> \<exists>n. e (par i) n = Some i"
    "\<exists>k. (par ^^ k) i = root"
  using assms edges_okD [of e par root d n i] unfolding tree_wf_def by blast+

lemma tree_wfI:
  assumes "c root = Some dir" "par root = root"
    "\<And>d n i. e d n = Some i \<Longrightarrow> c d = Some dir \<and> c i \<noteq> None \<and> i \<noteq> root \<and> par i = d"
    "\<And>d n m i. e d n = Some i \<Longrightarrow> e d m = Some i \<Longrightarrow> n = m"
    "\<And>i. i \<noteq> root \<Longrightarrow> c i \<noteq> None \<Longrightarrow> \<exists>n. e (par i) n = Some i" "\<And>i. \<exists>k. (par ^^ k) i = root"
  shows "tree_wf dir root c e par"
  unfolding tree_wf_def edges_ok_def using assms by blast

lemma chain_exists:
  assumes "tree_wf dir root c e par" "c i \<noteq> None"
  shows "c ((par ^^ k) i) \<noteq> None"
proof (induction k)
  case (Suc k)
  let ?j = "(par ^^ k) i"
  show ?case
  proof (cases "?j = root")
    case True
    then show ?thesis using tree_wfD(1,2) [OF assms(1)] by simp
  next
    case False
    then obtain n where "e (par ?j) n = Some ?j" using tree_wfD(9) [OF assms(1)] Suc by blast
    then show ?thesis using tree_wfD(4) [OF assms(1)] by fastforce
  qed
qed (simp add: assms(2))

lemma chain_upd:
  assumes reach: "\<And>i. \<exists>k. (par ^^ k) i = root" and avoid: "\<And>k. (par ^^ k) q \<noteq> j"
  shows "\<exists>k. ((par(j := q)) ^^ k) i = root"
proof -
  have same: "((par(j := q)) ^^ k) q = (par ^^ k) q" for k
    by (induction k) (simp_all add: avoid)
  obtain k where "(par ^^ k) i = root" using reach by blast
  then show ?thesis
  proof (induction k arbitrary: i)
    case 0
    then show ?case by (intro exI [of _ 0]) simp
  next
    case (Suc k)
    show ?case
    proof (cases "i = j")
      case True
      obtain k' where "(par ^^ k') q = root" using reach by blast
      then have "((par(j := q)) ^^ Suc k') i = root" using same [of k'] True by (simp add: funpow_swap1)
      then show ?thesis by blast
    next
      case False
      have "(par ^^ k) (par i) = root" using Suc.prems by (simp add: funpow_swap1)
      then obtain k' where "((par(j := q)) ^^ k') (par i) = root" using Suc.IH by blast
      then have "((par(j := q)) ^^ Suc k') i = root" using False by (simp add: funpow_swap1)
      then show ?thesis by blast
    qed
  qed
qed

lemma root_chain: "par root = root \<Longrightarrow> (par ^^ k) root = root"
  by (induction k) simp_all

lemma tree_wf_content:
  assumes "tree_wf dir root c e par" "c i \<noteq> None" "c i \<noteq> Some dir" "x \<noteq> dir"
  shows "tree_wf dir root (c(i := Some x)) e par"
proof (rule tree_wfI)
  note D = tree_wfD [OF assms(1)]
  have ir: "i \<noteq> root" using D(1) assms(3) by auto
  then show "(c(i := Some x)) root = Some dir" "par root = root" using D(1,2) by simp_all
  show "(c(i := Some x)) d = Some dir \<and> (c(i := Some x)) k \<noteq> None \<and> k \<noteq> root \<and> par k = d"
    if "e d n = Some k" for d n k
    using D(4-7) [OF that] assms(3) by auto
  show "n = m" if "e d n = Some k" "e d m = Some k" for d n m k by (rule D(8) [OF that(2,1)])
  show "\<exists>n. e (par k) n = Some k" if "k \<noteq> root" "(c(i := Some x)) k \<noteq> None" for k
    using D(9) [OF that(1)] that(2) assms(2) by (cases "k = i") auto
  show "\<exists>n. (par ^^ n) k = root" for k by (rule D(10))
qed

lemma tree_wf_add:
  assumes wf: "tree_wf dir root c e par" and "c j = None" "c p = Some dir" "e p n = None"
  shows "tree_wf dir root (c(j := Some x)) (upd p n (Some j) e) (par(j := p))"
proof (rule tree_wfI)
  note D = tree_wfD [OF wf]
  have jr: "j \<noteq> root" using D(1) assms(2) by auto
  then show "(c(j := Some x)) root = Some dir" "(par(j := p)) root = root" using D(1,2) by simp_all
  show "(c(j := Some x)) d = Some dir \<and> (c(j := Some x)) i \<noteq> None \<and> i \<noteq> root \<and> (par(j := p)) i = d"
    if "upd p n (Some j) e d m = Some i" for d m i
  proof (cases "d = p \<and> m = n")
    case True
    then show ?thesis using that assms(2,3) jr by (auto simp: upd_apply)
  next
    case False
    then have "e d m = Some i" using that by (auto simp: upd_apply split: if_splits)
    from D(4-7) [OF this] show ?thesis using assms(2) by auto
  qed
  show "m = m'" if "upd p n (Some j) e d m = Some i" "upd p n (Some j) e d m' = Some i" for d m m' i
  proof -
    have "e d' m'' \<noteq> Some j" for d' m'' using D(5) [of d' m'' j] assms(2) by auto
    then show ?thesis using that D(8) [of d m' i m] by (auto simp: upd_apply split: if_splits)
  qed
  show "\<exists>m. upd p n (Some j) e ((par(j := p)) i) m = Some i" if i: "i \<noteq> root" "(c(j := Some x)) i \<noteq> None" for i
  proof (cases "i = j")
    case True
    then show ?thesis by (intro exI [of _ n]) (simp add: upd_apply)
  next
    case False
    then obtain m where "e (par i) m = Some i" using D(9) [OF i(1)] i(2) by auto
    then show ?thesis using False assms(4) by (intro exI [of _ m]) (auto simp: upd_apply)
  qed
  show "\<exists>k. ((par(j := p)) ^^ k) i = root" for i
  proof (rule chain_upd)
    show "(par ^^ k) p \<noteq> j" for k using chain_exists [OF wf, of p k] assms(2,3) by auto
  qed (rule D(10))
qed

lemma tree_wf_remove:
  assumes wf: "tree_wf dir root c e par" and "e p n = Some j" "\<And>m. e j m = None"
  shows "tree_wf dir root (c(j := None)) (upd p n None e) (par(j := root))"
proof (rule tree_wfI)
  note D = tree_wfD [OF wf]
  have jr: "j \<noteq> root" by (rule D(7) [OF assms(2)])
  then show "(c(j := None)) root = Some dir" "(par(j := root)) root = root" using D(1,2) by simp_all
  have only: "d = p \<and> m = n" if "e d m = Some j" for d m
    using that D(6) [OF assms(2)] D(6) [OF that] D(8) [OF assms(2)] by auto
  show "(c(j := None)) d = Some dir \<and> (c(j := None)) i \<noteq> None \<and> i \<noteq> root \<and> (par(j := root)) i = d"
    if "upd p n None e d m = Some i" for d m i
  proof -
    have *: "e d m = Some i" "\<not> (d = p \<and> m = n)" using that by (auto simp: upd_apply split: if_splits)
    then have "i \<noteq> j" "d \<noteq> j" using only [of d m] assms(3) [of m] by auto
    then show ?thesis using D(4-7) [OF *(1)] by auto
  qed
  show "m = m'" if "upd p n None e d m = Some i" "upd p n None e d m' = Some i" for d m m' i
    using that D(8) [of d m' i m] by (auto simp: upd_apply split: if_splits)
  show "\<exists>m. upd p n None e ((par(j := root)) i) m = Some i" if i: "i \<noteq> root" "(c(j := None)) i \<noteq> None" for i
  proof -
    have ij: "i \<noteq> j" using i by auto
    then obtain m where m: "e (par i) m = Some i" using D(9) [OF i(1)] i(2) by auto
    then show ?thesis using ij assms(2) by (intro exI [of _ m]) (auto simp: upd_apply)
  qed
  show "\<exists>k. ((par(j := root)) ^^ k) i = root" for i
    by (rule chain_upd) (use D(10) root_chain [of par root, OF D(2)] jr in simp_all)
qed

lemma tree_wf_move:
  assumes wf: "tree_wf dir root c e par" and "e p on = Some j" "c q = Some dir" "e q nn = None"
    and avoid: "\<And>k. (par ^^ k) q \<noteq> j"
  shows "tree_wf dir root c (upd q nn (Some j) (upd p on None e)) (par(j := q))"
proof (rule tree_wfI)
  note D = tree_wfD [OF wf]
  let ?e = "upd q nn (Some j) (upd p on None e)"
  have jr: "j \<noteq> root" and cj: "c j \<noteq> None" using D(5,7) [OF assms(2)] by auto
  then show "c root = Some dir" "(par(j := q)) root = root" using D(1,2) by simp_all
  have only: "d = p \<and> m = on" if "e d m = Some j" for d m
    using that D(6) [OF assms(2)] D(6) [OF that] D(8) [OF assms(2)] by auto
  show "c d = Some dir \<and> c i \<noteq> None \<and> i \<noteq> root \<and> (par(j := q)) i = d" if "?e d m = Some i" for d m i
  proof (cases "d = q \<and> m = nn")
    case True
    then show ?thesis using that assms(3) jr cj by (auto simp: upd_apply)
  next
    case False
    then have *: "e d m = Some i" "\<not> (d = p \<and> m = on)" using that by (auto simp: upd_apply split: if_splits)
    then have "i \<noteq> j" using only [of d m] by auto
    then show ?thesis using D(4-7) [OF *(1)] by auto
  qed
  show "m = m'" if "?e d m = Some i" "?e d m' = Some i" for d m m' i
  proof (cases "i = j")
    case True
    then have "\<not> (e d m'' = Some i \<and> \<not> (d = p \<and> m'' = on))" for m'' using only [of d m''] by auto
    then show ?thesis using that by (auto simp: upd_apply split: if_splits)
  next
    case False
    then have "e d m = Some i" "e d m' = Some i" using that by (auto simp: upd_apply split: if_splits)
    then show ?thesis by (rule D(8) [rotated])
  qed
  show "\<exists>m. ?e ((par(j := q)) i) m = Some i" if i: "i \<noteq> root" "c i \<noteq> None" for i
  proof (cases "i = j")
    case True
    then show ?thesis by (intro exI [of _ nn]) (simp add: upd_apply)
  next
    case False
    then obtain m where m: "e (par i) m = Some i" using D(9) [OF i] by auto
    then show ?thesis using False assms(2,4) by (intro exI [of _ m]) (auto simp: upd_apply)
  qed
  show "\<exists>k. ((par(j := q)) ^^ k) i = root" for i
    by (rule chain_upd) (rule D(10), rule avoid)
qed

lemma no_descendant:
  assumes "edges_ok e par root" "\<And>k. (par ^^ k) q \<noteq> j"
  shows "walk e j S \<noteq> Some q"
  using walk_chain [OF assms(1), of j S q] assms(2) by auto

section \<open>The tree as a map from paths\<close>

definition tree :: "'i \<Rightarrow> ('i \<Rightarrow> 'c option) \<Rightarrow> ('i, 'n) edges \<Rightarrow> 'n list \<Rightarrow> 'c option" where
  "tree root c e P = (case walk e root P of None \<Rightarrow> None | Some i \<Rightarrow> c i)"

lemma walk_content: "tree_wf dir root c e par \<Longrightarrow> walk e root P = Some i \<Longrightarrow> c i \<noteq> None"
proof (cases P rule: rev_cases)
  case Nil
  assume "tree_wf dir root c e par" "walk e root P = Some i"
  then show ?thesis using Nil tree_wfD(1) by fastforce
next
  case (snoc P' n)
  assume wf: "tree_wf dir root c e par" and "walk e root P = Some i"
  then obtain d where "e d n = Some i" using snoc by (auto simp: walk_snoc split: option.splits)
  then show ?thesis by (rule tree_wfD(5) [OF wf])
qed

lemma path_exists:
  assumes "tree_wf dir root c e par" "c i \<noteq> None"
  obtains P where "walk e root P = Some i"
proof -
  obtain k where "(par ^^ k) i = root" using tree_wfD(10) [OF assms(1)] by blast
  then have "\<exists>P. walk e root P = Some i" using assms(2)
  proof (induction k arbitrary: i)
    case 0
    then show ?case by (intro exI [of _ "[]"]) simp
  next
    case (Suc k)
    show ?case
    proof (cases "i = root")
      case False
      then obtain n where n: "e (par i) n = Some i" using tree_wfD(9) [OF assms(1)] Suc.prems(2) by blast
      moreover have "(par ^^ k) (par i) = root" using Suc.prems(1) by (simp add: funpow_swap1)
      moreover have "c (par i) \<noteq> None" using tree_wfD(4) [OF assms(1) n] by simp
      ultimately obtain P where "walk e root P = Some (par i)" using Suc.IH by blast
      then show ?thesis using n by (intro exI [of _ "P @ [n]"]) (simp add: walk_snoc)
    qed (auto intro: exI [of _ "[]"])
  qed
  with that show thesis by blast
qed

lemma tree_add:
  assumes wf: "tree_wf dir root c e par" and p: "walk e root P = Some p" and "c j = None" "e p n = None"
  shows "tree root (c(j := Some x)) (upd p n (Some j) e) = (tree root c e)(P @ [n] := Some x)"
proof
  fix Q
  have leaf: "e j m = None" for m using tree_wfD(4) [OF wf, of j m] assms(3) by (cases "e j m") auto
  have "j \<noteq> p" using walk_content [OF wf p] assms(3) by auto
  note w = walk_add_leaf [OF tree_wfD(3) [OF wf] p assms(4) leaf this, of Q]
  have "walk e root Q \<noteq> Some j" using walk_content [OF wf, of Q j] assms(3) by auto
  then show "tree root (c(j := Some x)) (upd p n (Some j) e) Q = ((tree root c e)(P @ [n] := Some x)) Q"
    by (auto simp: tree_def w split: option.split)
qed

lemma tree_remove:
  assumes wf: "tree_wf dir root c e par" and p: "walk e root P = Some p" and "e p n = Some j" "\<And>m. e j m = None"
  shows "tree root (c(j := None)) (upd p n None e) = (tree root c e)(P @ [n] := None)"
proof
  fix Q
  note w = walk_remove_leaf [OF tree_wfD(3) [OF wf] p assms(3,4), of Q]
  have "walk e root (P @ [n]) = Some j" using p assms(3) by (simp add: walk_snoc)
  then have "walk e root Q = Some j \<Longrightarrow> Q = P @ [n]" using walk_inj [OF tree_wfD(3) [OF wf]] by metis
  then show "tree root (c(j := None)) (upd p n None e) Q = ((tree root c e)(P @ [n] := None)) Q"
    by (auto simp: tree_def w split: option.split)
qed

lemma tree_content:
  assumes wf: "tree_wf dir root c e par" and p: "walk e root P = Some i"
  shows "tree root (c(i := Some x)) e = (tree root c e)(P := Some x)"
proof
  fix Q
  have "walk e root Q = Some i \<longleftrightarrow> Q = P" using walk_inj [OF tree_wfD(3) [OF wf] p, of Q] p by blast
  then show "tree root (c(i := Some x)) e Q = ((tree root c e)(P := Some x)) Q"
    by (auto simp: tree_def split: option.split)
qed

lemma tree_move:
  assumes wf: "tree_wf dir root c e par" and p: "walk e root OP = Some p" "e p on = Some j"
    and q: "walk e root NP = Some q" "\<And>k. (par ^^ k) q \<noteq> j"
  shows "tree root c (upd q nn (Some j) (upd p on None e)) Q =
    (case moved OP on NP nn Q of None \<Rightarrow> None | Some Q' \<Rightarrow> tree root c e Q')"
  unfolding tree_def walk_move [OF tree_wfD(3) [OF wf] p q(1) no_descendant [OF tree_wfD(3) [OF wf] q(2)]]
  by (simp split: option.split)

lemma walk_ancestor:
  assumes wf: "tree_wf dir root c e par" and w: "walk e root P = Some i"
  shows "walk e root (take (length P - k) P) = Some ((par ^^ k) i)"
proof (induction k)
  case (Suc k)
  show ?case
  proof (cases "k < length P")
    case True
    let ?m = "length P - Suc k"
    have "take (length P - k) P = take ?m P @ [P ! ?m]"
      using True take_Suc_conv_app_nth [of ?m P] by (simp add: Suc_diff_Suc)
    then obtain d where "walk e root (take ?m P) = Some d" "e d (P ! ?m) = Some ((par ^^ k) i)"
      using Suc by (auto simp: walk_snoc split: option.splits)
    then show ?thesis using tree_wfD(6) [OF wf] by simp
  next
    case False
    then show ?thesis using Suc tree_wfD(2) [OF wf] by auto
  qed
qed (simp add: w)

end
