(* ===== verification/Ram_Fs.thy ===== *)
theory Ram_Fs
  imports Fs_Types Path_Tree
begin

text \<open>
  The in-memory file system, \<open>fs/ramfs.rs\<close>: nodes in a map from inode numbers, a directory
  being itself a map from names to inode numbers, and every node knowing its parent. The
  operations are those of the \<open>FileSystem\<close> trait; the lock around the state makes each of them
  one step. The loop in \<open>rename\<close> that walks up from the new parent could run forever on a
  cyclic parent relation, so it is a partial function; \<open>None\<close> is divergence.

  The lemmas work on the two functions \<open>entry\<close> (the directory entries) and \<open>par\<close> (the parent
  pointers). \<open>fs_wf\<close> says that they describe one tree, and \<open>tree_of\<close> abstracts the file system to a
  map from paths to contents.
\<close>

section \<open>State\<close>

definition ROOT_INODE :: InodeNum where [kconst]: "ROOT_INODE = 1"

datatype NodeKind = FileNode "u8 list" | DirNode "(string, InodeNum) btree" | LinkNode string

fun file_type :: "NodeKind \<Rightarrow> FileType" where
  "file_type (FileNode _) = Regular"
| "file_type (DirNode _) = Directory"
| "file_type (LinkNode _) = Symlink"

record Node =
  parent :: InodeNum
  kind :: NodeKind
  mode :: Mode
  uid :: u32
  gid :: u32
  atime :: u64
  mtime :: u64
  ctime :: u64

record RamFs =
  nodes :: "(InodeNum, Node) btree"
  next_inode :: InodeNum

definition new_node :: "InodeNum \<Rightarrow> NodeKind \<Rightarrow> Mode \<Rightarrow> Node" where
  "new_node p k md = \<lparr>parent = p, kind = k, mode = md, uid = 0, gid = 0, atime = 0, mtime = 0, ctime = 0\<rparr>"

definition RamFs_new :: RamFs where
  "RamFs_new =
    \<lparr>nodes = bt_insert ROOT_INODE (new_node ROOT_INODE (DirNode bt_new) 0x1ED) bt_new, next_inode = ROOT_INODE + 1\<rparr>"

definition validate_name :: "string \<Rightarrow> unit FsResult" where
  "validate_name nm =
    (if nm = [] \<or> nm = ''.'' \<or> nm = ''..'' \<or> CHR ''/'' \<in> set nm then Err InvalidArgument else Ok ())"

abbreviation get_node :: "InodeNum \<Rightarrow> RamFs \<Rightarrow> Node option" where
  "get_node i fs \<equiv> bt_get i (nodes fs)"

definition is_dir :: "InodeNum \<Rightarrow> RamFs \<Rightarrow> bool" where
  "is_dir i fs = (case map_option kind (get_node i fs) of Some (DirNode _) \<Rightarrow> True | _ \<Rightarrow> False)"

text \<open>
  The two idioms the operations share: look up a directory's entries, failing as \<open>NotFound\<close> or
  \<open>NotADirectory\<close>; and change the entries of a node if it is a directory.
\<close>

definition dir_entries :: "InodeNum \<Rightarrow> RamFs \<Rightarrow> (string, InodeNum) btree FsResult" where
  "dir_entries i fs =
    (case get_node i fs of
       None \<Rightarrow> Err NotFound
     | Some p \<Rightarrow> (case kind p of DirNode entries \<Rightarrow> Ok entries | _ \<Rightarrow> Err NotADirectory))"

definition edit_dir ::
  "InodeNum \<Rightarrow> ((string, InodeNum) btree \<Rightarrow> (string, InodeNum) btree) \<Rightarrow> RamFs \<Rightarrow> RamFs" where
  "edit_dir i f fs =
    fs\<lparr>nodes := bt_get_mut i
        (\<lambda>p. case kind p of DirNode entries \<Rightarrow> p\<lparr>kind := DirNode (f entries)\<rparr> | _ \<Rightarrow> p) (nodes fs)\<rparr>"

section \<open>Operations\<close>

definition ram_metadata :: "InodeNum \<Rightarrow> RamFs \<Rightarrow> Metadata FsResult" where
  "ram_metadata inode fs =
    (case get_node inode fs of
       None \<Rightarrow> Err NotFound
     | Some node \<Rightarrow>
         let sz = (case kind node of FileNode b \<Rightarrow> length b | DirNode d \<Rightarrow> length d | LinkNode s \<Rightarrow> length s);
             nlink = (case kind node of
                 DirNode d \<Rightarrow> 2 + of_nat (length (filter (\<lambda>i. is_dir i fs) (map snd d)))
               | _ \<Rightarrow> 1)
         in Ok \<lparr>md_inode = inode, md_file_type = file_type (kind node), md_size = of_nat sz, md_mode = mode node,
                md_uid = uid node, md_gid = gid node, md_nlink = nlink, md_atime = atime node,
                md_mtime = mtime node, md_ctime = ctime node\<rparr>)"

definition ram_lookup :: "InodeNum \<Rightarrow> string \<Rightarrow> RamFs \<Rightarrow> InodeNum FsResult" where
  "ram_lookup par_inode nm fs =
    (case get_node par_inode fs of
       None \<Rightarrow> Err NotFound
     | Some node \<Rightarrow>
         (case kind node of
            DirNode entries \<Rightarrow>
              if nm = ''.'' then Ok par_inode
              else if nm = ''..'' then Ok (parent node)
              else (case bt_get nm entries of Some i \<Rightarrow> Ok i | None \<Rightarrow> Err NotFound)
          | _ \<Rightarrow> Err NotADirectory))"

definition ram_readdir :: "InodeNum \<Rightarrow> RamFs \<Rightarrow> DirEntry list FsResult" where
  "ram_readdir inode fs =
    (case get_node inode fs of
       None \<Rightarrow> Err NotFound
     | Some node \<Rightarrow>
         (case kind node of
            DirNode entries \<Rightarrow>
              Ok (\<lparr>de_name = ''.'', de_inode = inode, de_file_type = Directory\<rparr> #
                  \<lparr>de_name = ''..'', de_inode = parent node, de_file_type = Directory\<rparr> #
                  map (\<lambda>(nm, inum). \<lparr>de_name = nm, de_inode = inum,
                     de_file_type = (case get_node inum fs of Some n \<Rightarrow> file_type (kind n) | None \<Rightarrow> Regular)\<rparr>) entries)
          | _ \<Rightarrow> Err NotADirectory))"

definition ram_read :: "InodeNum \<Rightarrow> u64 \<Rightarrow> nat \<Rightarrow> RamFs \<Rightarrow> u8 list FsResult" where
  "ram_read inode offset buf_len fs =
    (case get_node inode fs of
       None \<Rightarrow> Err NotFound
     | Some node \<Rightarrow>
         (case kind node of
            FileNode data \<Rightarrow>
              let off = unat offset in
              if length data \<le> off then Ok []
              else let n = min buf_len (length data - off) in Ok (take n (drop off data))
          | DirNode _ \<Rightarrow> Err IsADirectory
          | LinkNode _ \<Rightarrow> Err InvalidArgument))"

definition resize :: "nat \<Rightarrow> u8 \<Rightarrow> u8 list \<Rightarrow> u8 list" where
  "resize n v xs = take n xs @ replicate (n - length xs) v"

definition set_kind :: "InodeNum \<Rightarrow> NodeKind \<Rightarrow> RamFs \<Rightarrow> RamFs" where
  "set_kind i k fs = fs\<lparr>nodes := bt_get_mut i (\<lambda>n. n\<lparr>kind := k\<rparr>) (nodes fs)\<rparr>"

definition ram_write :: "InodeNum \<Rightarrow> u64 \<Rightarrow> u8 list \<Rightarrow> RamFs \<Rightarrow> nat FsResult \<times> RamFs" where
  "ram_write inode offset buf fs =
    (case get_node inode fs of
       None \<Rightarrow> (Err NotFound, fs)
     | Some node \<Rightarrow>
         (case kind node of
            FileNode data \<Rightarrow>
              let off = unat offset; stop = off + length buf in
              if 2 ^ 64 \<le> stop then (Err NoSpace, fs)
              else
                let data = (if length data < stop then resize stop 0 data else data);
                    data = take off data @ buf @ drop stop data
                in (Ok (length buf), set_kind inode (FileNode data) fs)
          | DirNode _ \<Rightarrow> (Err IsADirectory, fs)
          | LinkNode _ \<Rightarrow> (Err InvalidArgument, fs)))"

text \<open>The common end of \<open>create\<close> and \<open>symlink\<close>: take the next inode number, insert the node, link it.\<close>

definition insert_child ::
  "InodeNum \<Rightarrow> string \<Rightarrow> NodeKind \<Rightarrow> Mode \<Rightarrow> RamFs \<Rightarrow> InodeNum FsResult \<times> RamFs" where
  "insert_child p nm k md fs =
    (let inum = next_inode fs in
     case checked_add (next_inode fs) 1 of
       None \<Rightarrow> (Err NoSpace, fs)
     | Some nxt \<Rightarrow>
         let fs = fs\<lparr>next_inode := nxt\<rparr>;
             fs = fs\<lparr>nodes := bt_insert inum (new_node p k md) (nodes fs)\<rparr>;
             fs = edit_dir p (bt_insert nm inum) fs
         in (Ok inum, fs))"

definition ram_create ::
  "InodeNum \<Rightarrow> string \<Rightarrow> FileType \<Rightarrow> Mode \<Rightarrow> RamFs \<Rightarrow> InodeNum FsResult \<times> RamFs" where
  "ram_create p nm ft md fs =
    (case validate_name nm of
       Inl e \<Rightarrow> (Err e, fs)
     | Inr _ \<Rightarrow>
         (case dir_entries p fs of
            Inl e \<Rightarrow> (Err e, fs)
          | Inr entries \<Rightarrow>
              if bt_contains_key nm entries then (Err AlreadyExists, fs)
              else
                (case ft of
                   Regular \<Rightarrow> insert_child p nm (FileNode []) md fs
                 | Directory \<Rightarrow> insert_child p nm (DirNode bt_new) md fs
                 | Symlink \<Rightarrow> insert_child p nm (LinkNode []) md fs
                 | _ \<Rightarrow> (Err Unsupported, fs))))"

definition ram_symlink :: "InodeNum \<Rightarrow> string \<Rightarrow> string \<Rightarrow> RamFs \<Rightarrow> InodeNum FsResult \<times> RamFs" where
  "ram_symlink p nm target fs =
    (case validate_name nm of
       Inl e \<Rightarrow> (Err e, fs)
     | Inr _ \<Rightarrow>
         (case dir_entries p fs of
            Inl e \<Rightarrow> (Err e, fs)
          | Inr entries \<Rightarrow>
              if bt_contains_key nm entries then (Err AlreadyExists, fs)
              else insert_child p nm (LinkNode target) 0x1FF fs))"

definition find_entry :: "InodeNum \<Rightarrow> string \<Rightarrow> RamFs \<Rightarrow> InodeNum FsResult" where
  "find_entry p nm fs =
    (case dir_entries p fs of
       Inl e \<Rightarrow> Err e
     | Inr entries \<Rightarrow> (case bt_get nm entries of Some i \<Rightarrow> Ok i | None \<Rightarrow> Err NotFound))"

definition remove_child :: "InodeNum \<Rightarrow> string \<Rightarrow> InodeNum \<Rightarrow> RamFs \<Rightarrow> RamFs" where
  "remove_child p nm inum fs =
    (let fs = edit_dir p (bt_remove nm) fs in fs\<lparr>nodes := bt_remove inum (nodes fs)\<rparr>)"

definition ram_unlink :: "InodeNum \<Rightarrow> string \<Rightarrow> RamFs \<Rightarrow> unit FsResult \<times> RamFs" where
  "ram_unlink p nm fs =
    (case find_entry p nm fs of
       Inl e \<Rightarrow> (Err e, fs)
     | Inr inum \<Rightarrow>
         (case get_node inum fs of
            None \<Rightarrow> (Err NotFound, fs)
          | Some target \<Rightarrow>
              (case kind target of
                 DirNode _ \<Rightarrow> (Err IsADirectory, fs)
               | _ \<Rightarrow> (Ok (), remove_child p nm inum fs))))"

definition ram_rmdir :: "InodeNum \<Rightarrow> string \<Rightarrow> RamFs \<Rightarrow> unit FsResult \<times> RamFs" where
  "ram_rmdir p nm fs =
    (case find_entry p nm fs of
       Inl e \<Rightarrow> (Err e, fs)
     | Inr inum \<Rightarrow>
         (case dir_entries inum fs of
            Inl e \<Rightarrow> (Err e, fs)
          | Inr entries \<Rightarrow>
              if entries \<noteq> [] then (Err NotEmpty, fs) else (Ok (), remove_child p nm inum fs)))"

partial_function (option) check_ancestors :: "InodeNum \<Rightarrow> InodeNum \<Rightarrow> RamFs \<Rightarrow> unit FsResult option" where
  "check_ancestors inum cur fs =
    (if cur = inum then Some (Err InvalidArgument)
     else
       case get_node cur fs of
         None \<Rightarrow> Some (Err NotFound)
       | Some n \<Rightarrow> if parent n = cur then Some (Ok ()) else check_ancestors inum (parent n) fs)"

definition replace_target ::
  "bool \<Rightarrow> InodeNum \<Rightarrow> InodeNum \<Rightarrow> string \<Rightarrow> RamFs \<Rightarrow> unit FsResult \<times> RamFs" where
  "replace_target src_is_dir eid new_parent new_name fs =
    (let dst_is_dir = is_dir eid fs in
     if src_is_dir \<noteq> dst_is_dir then (Err (if dst_is_dir then IsADirectory else NotADirectory), fs)
     else if dst_is_dir \<and> (case dir_entries eid fs of Inr entries \<Rightarrow> entries \<noteq> [] | Inl _ \<Rightarrow> False)
     then (Err NotEmpty, fs)
     else
       let fs = fs\<lparr>nodes := bt_remove eid (nodes fs)\<rparr> in
       (Ok (), edit_dir new_parent (bt_remove new_name) fs))"

definition move_entry ::
  "InodeNum \<Rightarrow> string \<Rightarrow> InodeNum \<Rightarrow> string \<Rightarrow> InodeNum \<Rightarrow> RamFs \<Rightarrow> RamFs" where
  "move_entry old_parent old_name new_parent new_name inum fs =
    (let fs = edit_dir old_parent (bt_remove old_name) fs;
         fs = edit_dir new_parent (bt_insert new_name inum) fs
     in fs\<lparr>nodes := bt_get_mut inum (\<lambda>child. child\<lparr>parent := new_parent\<rparr>) (nodes fs)\<rparr>)"

definition ram_rename ::
  "InodeNum \<Rightarrow> string \<Rightarrow> InodeNum \<Rightarrow> string \<Rightarrow> RamFs \<Rightarrow> (unit FsResult \<times> RamFs) option" where
  "ram_rename old_parent old_name new_parent new_name fs =
    (case validate_name new_name of
       Inl e \<Rightarrow> Some (Err e, fs)
     | Inr _ \<Rightarrow>
         (case find_entry old_parent old_name fs of
            Inl e \<Rightarrow> Some (Err e, fs)
          | Inr inum \<Rightarrow>
              if \<not> is_dir new_parent fs then Some (Err NotADirectory, fs)
              else
                let src_is_dir = is_dir inum fs in
                case (if src_is_dir then check_ancestors inum new_parent fs else Some (Ok ())) of
                  None \<Rightarrow> None
                | Some (Inl e) \<Rightarrow> Some (Err e, fs)
                | Some (Inr _) \<Rightarrow>
                    (case (case dir_entries new_parent fs of Inr entries \<Rightarrow> bt_get new_name entries | Inl _ \<Rightarrow> None) of
                       None \<Rightarrow> Some (Ok (), move_entry old_parent old_name new_parent new_name inum fs)
                     | Some eid \<Rightarrow>
                         if eid = inum then Some (Ok (), fs)
                         else
                           (case replace_target src_is_dir eid new_parent new_name fs of
                              (Inl e, fs) \<Rightarrow> Some (Err e, fs)
                            | (Inr _, fs) \<Rightarrow>
                                Some (Ok (), move_entry old_parent old_name new_parent new_name inum fs)))))"

definition ram_truncate :: "InodeNum \<Rightarrow> u64 \<Rightarrow> RamFs \<Rightarrow> unit FsResult \<times> RamFs" where
  "ram_truncate inode sz fs =
    (case get_node inode fs of
       None \<Rightarrow> (Err NotFound, fs)
     | Some node \<Rightarrow>
         (case kind node of
            FileNode data \<Rightarrow> (Ok (), set_kind inode (FileNode (resize (unat sz) 0 data)) fs)
          | DirNode _ \<Rightarrow> (Err IsADirectory, fs)
          | LinkNode _ \<Rightarrow> (Err InvalidArgument, fs)))"

definition ram_sync :: "RamFs \<Rightarrow> unit FsResult" where
  "ram_sync fs = Ok ()"

definition ram_readlink :: "InodeNum \<Rightarrow> RamFs \<Rightarrow> string FsResult" where
  "ram_readlink inode fs =
    (case get_node inode fs of
       None \<Rightarrow> Err NotFound
     | Some node \<Rightarrow> (case kind node of LinkNode target \<Rightarrow> Ok target | _ \<Rightarrow> Err InvalidArgument))"

section \<open>The file system as a tree\<close>

datatype content = AFile "u8 list" | ADir | ALink string

fun content_of :: "NodeKind \<Rightarrow> content" where
  "content_of (FileNode b) = AFile b"
| "content_of (DirNode _) = ADir"
| "content_of (LinkNode s) = ALink s"

definition contents :: "RamFs \<Rightarrow> InodeNum \<Rightarrow> content option" where
  "contents fs i = map_option (content_of \<circ> kind) (get_node i fs)"

definition entry :: "RamFs \<Rightarrow> (InodeNum, string) edges" where
  "entry fs d n = (case dir_entries d fs of Inr es \<Rightarrow> bt_get n es | Inl _ \<Rightarrow> None)"

definition par :: "RamFs \<Rightarrow> InodeNum \<Rightarrow> InodeNum" where
  "par fs i = (case get_node i fs of Some n \<Rightarrow> parent n | None \<Rightarrow> ROOT_INODE)"

definition tree_of :: "RamFs \<Rightarrow> string list \<Rightarrow> content option" where
  "tree_of fs = tree ROOT_INODE (contents fs) (entry fs)"

definition dirs_sorted :: "RamFs \<Rightarrow> bool" where
  "dirs_sorted fs \<longleftrightarrow> bt_sorted (nodes fs) \<and> (\<forall>i n es. get_node i fs = Some n \<longrightarrow> kind n = DirNode es \<longrightarrow> bt_sorted es)"

definition fs_wf :: "RamFs \<Rightarrow> bool" where
  "fs_wf fs \<longleftrightarrow>
    tree_wf ADir ROOT_INODE (contents fs) (entry fs) (par fs) \<and>
    (\<forall>d n i. entry fs d n = Some i \<longrightarrow> validate_name n = Ok ()) \<and>
    (\<forall>i. contents fs i \<noteq> None \<longrightarrow> i < next_inode fs) \<and> dirs_sorted fs"

lemma content_dir_iff [simp]: "content_of k = ADir \<longleftrightarrow> (\<exists>es. k = DirNode es)"
  by (cases k) simp_all

lemma is_dir_iff: "is_dir i fs \<longleftrightarrow> contents fs i = Some ADir"
  by (auto simp: is_dir_def contents_def split: option.splits NodeKind.splits)

lemma dir_entries_Ok: "dir_entries i fs = Ok es \<longleftrightarrow> (\<exists>n. get_node i fs = Some n \<and> kind n = DirNode es)"
  by (auto simp: dir_entries_def split: option.splits NodeKind.splits)

lemma dir_entries_dir: "dir_entries i fs = Ok es \<Longrightarrow> contents fs i = Some ADir"
  by (auto simp: dir_entries_Ok contents_def)

lemma dir_entries_entry: "dir_entries i fs = Ok es \<Longrightarrow> entry fs i n = bt_get n es"
  by (simp add: entry_def)

lemma entry_None: "contents fs i \<noteq> Some ADir \<Longrightarrow> entry fs i n = None"
  using dir_entries_dir by (fastforce simp: entry_def split: sum.splits)

lemma find_entry_Ok: "find_entry p nm fs = Ok i \<longleftrightarrow> entry fs p nm = Some i"
  by (auto simp: find_entry_def entry_def split: sum.splits option.splits)

lemma get_node_edit_dir:
  "get_node j (edit_dir i f fs) =
    (if j = i then map_option (\<lambda>p. case kind p of DirNode es \<Rightarrow> p\<lparr>kind := DirNode (f es)\<rparr> | _ \<Rightarrow> p) (get_node i fs)
     else get_node j fs)"
  by (simp add: edit_dir_def bt_get_mut_get)

lemma edit_dir_view:
  "contents (edit_dir i f fs) = contents fs" "par (edit_dir i f fs) = par fs"
  "next_inode (edit_dir i f fs) = next_inode fs"
  "entry (edit_dir i f fs) d n =
    (if d = i then (case dir_entries i fs of Inr es \<Rightarrow> bt_get n (f es) | Inl _ \<Rightarrow> None) else entry fs d n)"
proof -
  show "contents (edit_dir i f fs) = contents fs"
    by (rule ext, cases "get_node i fs") (simp_all add: contents_def get_node_edit_dir split: NodeKind.split)
  show "par (edit_dir i f fs) = par fs"
    by (rule ext, cases "get_node i fs") (simp_all add: par_def get_node_edit_dir split: NodeKind.split)
  show "next_inode (edit_dir i f fs) = next_inode fs" by (simp add: edit_dir_def)
  show "entry (edit_dir i f fs) d n =
    (if d = i then (case dir_entries i fs of Inr es \<Rightarrow> bt_get n (f es) | Inl _ \<Rightarrow> None) else entry fs d n)"
    by (cases "get_node i fs") (simp_all add: entry_def dir_entries_def get_node_edit_dir split: NodeKind.split)
qed

lemma dirs_sorted_edit:
  assumes "dirs_sorted fs" "\<And>es. bt_sorted es \<Longrightarrow> bt_sorted (f es)"
  shows "dirs_sorted (edit_dir i f fs)"
proof -
  have "bt_sorted (nodes (edit_dir i f fs))" using assms(1) by (simp add: edit_dir_def dirs_sorted_def bt_sorted_get_mut)
  moreover have "bt_sorted es" if n: "get_node j (edit_dir i f fs) = Some n" "kind n = DirNode es" for j n es
  proof (cases "j = i")
    case True
    then obtain p where p: "get_node i fs = Some p"
      "n = (case kind p of DirNode es \<Rightarrow> p\<lparr>kind := DirNode (f es)\<rparr> | _ \<Rightarrow> p)"
      using n(1) by (auto simp: get_node_edit_dir)
    then show ?thesis using n(2) assms unfolding dirs_sorted_def by (cases "kind p") auto
  next
    case False
    then show ?thesis using that assms(1) unfolding dirs_sorted_def by (simp add: get_node_edit_dir)
  qed
  ultimately show ?thesis unfolding dirs_sorted_def by blast
qed

lemma edit_dir_insert:
  assumes "contents fs p = Some ADir"
  shows "entry (edit_dir p (bt_insert nm i) fs) = upd p nm (Some i) (entry fs)"
    "entry (edit_dir p (bt_remove nm) fs) = upd p nm None (entry fs)"
proof -
  obtain es where es: "dir_entries p fs = Ok es"
    using assms by (auto simp: contents_def dir_entries_def split: NodeKind.splits option.splits)
  show "entry (edit_dir p (bt_insert nm i) fs) = upd p nm (Some i) (entry fs)"
    "entry (edit_dir p (bt_remove nm) fs) = upd p nm None (entry fs)"
    by (intro ext; simp add: edit_dir_view(4) es upd_apply bt_simps dir_entries_entry [OF es])+
qed

lemma update_nodes_view:
  "contents (fs\<lparr>nodes := bt_insert i n (nodes fs)\<rparr>) = (contents fs)(i := Some (content_of (kind n)))"
  "contents (fs\<lparr>nodes := bt_remove i (nodes fs)\<rparr>) = (contents fs)(i := None)"
  "par (fs\<lparr>nodes := bt_insert i n (nodes fs)\<rparr>) = (par fs)(i := parent n)"
  "par (fs\<lparr>nodes := bt_remove i (nodes fs)\<rparr>) = (par fs)(i := ROOT_INODE)"
  by (auto simp: contents_def par_def bt_simps)

lemma entry_insert_leaf:
  assumes "\<And>m. entry fs i m = None" "\<And>es. kind n = DirNode es \<Longrightarrow> es = bt_new"
  shows "entry (fs\<lparr>nodes := bt_insert i n (nodes fs)\<rparr>) = entry fs"
proof (intro ext)
  fix d m
  show "entry (fs\<lparr>nodes := bt_insert i n (nodes fs)\<rparr>) d m = entry fs d m"
    using assms by (cases "d = i"; cases "kind n") (auto simp: entry_def dir_entries_def bt_simps)
qed

lemma entry_remove_leaf:
  assumes "\<And>m. entry fs i m = None"
  shows "entry (fs\<lparr>nodes := bt_remove i (nodes fs)\<rparr>) = entry fs"
proof (intro ext)
  fix d m
  show "entry (fs\<lparr>nodes := bt_remove i (nodes fs)\<rparr>) d m = entry fs d m"
    using assms by (cases "d = i") (auto simp: entry_def dir_entries_def bt_simps)
qed

lemma view_next_inode [simp]:
  "contents (fs\<lparr>next_inode := x\<rparr>) = contents fs" "entry (fs\<lparr>next_inode := x\<rparr>) = entry fs"
  "par (fs\<lparr>next_inode := x\<rparr>) = par fs" "dirs_sorted (fs\<lparr>next_inode := x\<rparr>) = dirs_sorted fs"
  by (auto simp: contents_def entry_def par_def dirs_sorted_def dir_entries_def fun_eq_iff)

lemma dirs_sorted_insert:
  "dirs_sorted fs \<Longrightarrow> (\<And>es. kind n = DirNode es \<Longrightarrow> bt_sorted es) \<Longrightarrow> dirs_sorted (fs\<lparr>nodes := bt_insert i n (nodes fs)\<rparr>)"
  unfolding dirs_sorted_def by (auto simp: bt_simps bt_sorted_intros split: if_splits)

lemma dirs_sorted_remove: "dirs_sorted fs \<Longrightarrow> dirs_sorted (fs\<lparr>nodes := bt_remove i (nodes fs)\<rparr>)"
  unfolding dirs_sorted_def by (auto simp: bt_simps bt_sorted_intros split: if_splits)

lemma insert_child_view:
  assumes wf: "fs_wf fs" and p: "contents fs p = Some ADir" and n: "entry fs p nm = None" "validate_name nm = Ok ()"
    and k: "\<And>es. k = DirNode es \<Longrightarrow> es = bt_new" and res: "insert_child p nm k md fs = (Ok j, fs')"
  shows "j = next_inode fs" "contents fs j = None" "contents fs' = (contents fs)(j := Some (content_of k))"
    "entry fs' = upd p nm (Some j) (entry fs)" "fs_wf fs'"
proof -
  let ?f1 = "fs\<lparr>next_inode := next_inode fs + 1\<rparr>"
  let ?f2 = "?f1\<lparr>nodes := bt_insert (next_inode fs) (new_node p k md) (nodes ?f1)\<rparr>"
  obtain nxt where nxt: "checked_add (next_inode fs) 1 = Some nxt" and j: "j = next_inode fs"
    and fs': "fs' = edit_dir p (bt_insert nm j) (fs\<lparr>next_inode := nxt, nodes := bt_insert j (new_node p k md) (nodes fs)\<rparr>)"
    using res by (auto simp: insert_child_def Let_def split: option.splits)
  have nxt_eq: "nxt = next_inode fs + 1" "unat nxt = unat (next_inode fs) + 1" 
    using checked_add_Some [THEN iffD1, OF nxt] by (blast, metis unsigned_1)
  show "j = next_inode fs" by (rule j)
  show fresh: "contents fs j = None" using wf j unfolding fs_wf_def by (metis less_irrefl)
  have leaf: "entry ?f1 j m = None" for m using fresh by (simp add: entry_None)
  have fs'_eq: "fs' = edit_dir p (bt_insert nm j) ?f2" using fs' nxt_eq j by simp
  have c2: "contents ?f2 = (contents fs)(j := Some (content_of k))" unfolding update_nodes_view by (simp add: new_node_def j)
  have e2: "entry ?f2 = entry fs"
    using entry_insert_leaf [of ?f1 "next_inode fs" "new_node p k md"] leaf k by (simp add: new_node_def j)
  have par2: "par ?f2 = (par fs)(j := p)" unfolding update_nodes_view by (simp add: new_node_def j)
  have p2: "contents ?f2 p = Some ADir" using p fresh c2 by auto
  show c: "contents fs' = (contents fs)(j := Some (content_of k))" unfolding fs'_eq edit_dir_view by (rule c2)
  show e: "entry fs' = upd p nm (Some j) (entry fs)" unfolding fs'_eq edit_dir_insert(1) [OF p2] e2 ..
  have par': "par fs' = (par fs)(j := p)" unfolding fs'_eq edit_dir_view by (rule par2)
  have "tree_wf ADir ROOT_INODE (contents fs') (entry fs') (par fs')"
    unfolding c e par' by (rule tree_wf_add) (use wf fresh p n in \<open>simp_all add: fs_wf_def\<close>)
  moreover have "validate_name m = Ok ()" if "entry fs' d m = Some i" for d m i
    using that wf n(2) by (auto simp: e upd_apply fs_wf_def split: if_splits)
  moreover have "i < next_inode fs'" if "contents fs' i \<noteq> None" for i
  proof -
    have "next_inode fs' = nxt" unfolding fs'_eq edit_dir_view using nxt_eq by simp
    moreover have "i = j \<or> i < next_inode fs" using that wf unfolding c fs_wf_def by (auto split: if_splits)
    ultimately show ?thesis using nxt_eq(2) j by (auto simp: word_less_nat_alt)
  qed
  moreover have "dirs_sorted fs'"
    unfolding fs'_eq by (intro dirs_sorted_edit dirs_sorted_insert bt_sorted_insert)
      (use wf k in \<open>auto simp: fs_wf_def new_node_def\<close>)
  ultimately show "fs_wf fs'" unfolding fs_wf_def by blast
qed

lemma fs_wfD:
  assumes "fs_wf fs"
  shows "tree_wf ADir ROOT_INODE (contents fs) (entry fs) (par fs)" "entry fs d n = Some i \<Longrightarrow> validate_name n = Ok ()"
    "contents fs i \<noteq> None \<Longrightarrow> i < next_inode fs" "dirs_sorted fs"
  using assms unfolding fs_wf_def by blast+

definition removed :: "InodeNum \<Rightarrow> string \<Rightarrow> InodeNum \<Rightarrow> RamFs \<Rightarrow> RamFs \<Rightarrow> bool" where
  "removed p nm j fs fs' \<longleftrightarrow>
    contents fs' = (contents fs)(j := None) \<and> entry fs' = upd p nm None (entry fs) \<and>
    par fs' = (par fs)(j := ROOT_INODE) \<and> next_inode fs' = next_inode fs \<and> dirs_sorted fs'"

lemma removed_wf:
  assumes wf: "fs_wf fs" and "entry fs p nm = Some j" "\<And>m. entry fs j m = None" and r: "removed p nm j fs fs'"
  shows "fs_wf fs'"
proof -
  note r = r [unfolded removed_def]
  have "tree_wf ADir ROOT_INODE (contents fs') (entry fs') (par fs')"
    using tree_wf_remove [OF fs_wfD(1) [OF wf] assms(2,3)] r by simp
  moreover have "validate_name m = Ok ()" if "entry fs' d m = Some i" for d m i
    using that r fs_wfD(2) [OF wf, of d m i] by (auto simp: upd_apply split: if_splits)
  moreover have "i < next_inode fs'" if "contents fs' i \<noteq> None" for i
    using that r fs_wfD(3) [OF wf, of i] by (auto split: if_splits)
  ultimately show ?thesis using r unfolding fs_wf_def by blast
qed

lemma removed_remove_child:
  assumes wf: "fs_wf fs" and e: "entry fs p nm = Some j" "\<And>m. entry fs j m = None"
  shows "removed p nm j fs (remove_child p nm j fs)"
proof -
  have p: "contents fs p = Some ADir" by (rule tree_wfD(4) [OF fs_wfD(1) [OF wf] e(1)])
  let ?f = "edit_dir p (bt_remove nm) fs"
  have leaf: "entry ?f j m = None" for m unfolding edit_dir_insert(2) [OF p] by (simp add: upd_apply e(2))
  show ?thesis
    unfolding removed_def remove_child_def Let_def update_nodes_view entry_remove_leaf [OF leaf] edit_dir_view(1,2,3) edit_dir_insert(2) [OF p]
    using fs_wfD(4) [OF wf] by (simp add: dirs_sorted_remove dirs_sorted_edit bt_sorted_remove edit_dir_view)
qed

lemma removed_replace:
  assumes wf: "fs_wf fs" and e: "entry fs p nm = Some j" "\<And>m. entry fs j m = None"
  shows "removed p nm j fs (edit_dir p (bt_remove nm) (fs\<lparr>nodes := bt_remove j (nodes fs)\<rparr>))"
proof -
  have p: "contents fs p = Some ADir" by (rule tree_wfD(4) [OF fs_wfD(1) [OF wf] e(1)])
  have "j \<noteq> p" using e by auto
  let ?f = "fs\<lparr>nodes := bt_remove j (nodes fs)\<rparr>"
  have p': "contents ?f p = Some ADir" unfolding update_nodes_view using p \<open>j \<noteq> p\<close> by simp
  show ?thesis
    unfolding removed_def edit_dir_view(1,2,3) edit_dir_insert(2) [OF p'] entry_remove_leaf [OF e(2)] update_nodes_view
    using fs_wfD(4) [OF wf] by (simp add: dirs_sorted_remove dirs_sorted_edit bt_sorted_remove)
qed

lemma entry_leaf:
  assumes "contents fs j \<noteq> Some ADir \<or> dir_entries j fs = Ok []"
  shows "entry fs j m = None"
  using assms entry_None [of fs j m] by (auto simp: entry_def bt_get_def)

lemma get_mut_view:
  "contents (fs\<lparr>nodes := bt_get_mut i (\<lambda>n. n\<lparr>parent := q\<rparr>) (nodes fs)\<rparr>) = contents fs"
  "entry (fs\<lparr>nodes := bt_get_mut i (\<lambda>n. n\<lparr>parent := q\<rparr>) (nodes fs)\<rparr>) = entry fs"
  "contents fs i \<noteq> None \<Longrightarrow> par (fs\<lparr>nodes := bt_get_mut i (\<lambda>n. n\<lparr>parent := q\<rparr>) (nodes fs)\<rparr>) = (par fs)(i := q)"
  "dirs_sorted fs \<Longrightarrow> dirs_sorted (fs\<lparr>nodes := bt_get_mut i (\<lambda>n. n\<lparr>parent := q\<rparr>) (nodes fs)\<rparr>)"
proof -
  show "contents (fs\<lparr>nodes := bt_get_mut i (\<lambda>n. n\<lparr>parent := q\<rparr>) (nodes fs)\<rparr>) = contents fs"
    "entry (fs\<lparr>nodes := bt_get_mut i (\<lambda>n. n\<lparr>parent := q\<rparr>) (nodes fs)\<rparr>) = entry fs"
    by (intro ext; cases "get_node i fs"; simp add: contents_def entry_def dir_entries_def bt_get_mut_get)+
  show "contents fs i \<noteq> None \<Longrightarrow> par (fs\<lparr>nodes := bt_get_mut i (\<lambda>n. n\<lparr>parent := q\<rparr>) (nodes fs)\<rparr>) = (par fs)(i := q)"
    by (rule ext) (auto simp: contents_def par_def bt_get_mut_get)
  show "dirs_sorted fs \<Longrightarrow> dirs_sorted (fs\<lparr>nodes := bt_get_mut i (\<lambda>n. n\<lparr>parent := q\<rparr>) (nodes fs)\<rparr>)"
    unfolding dirs_sorted_def by (auto simp: bt_get_mut_get bt_sorted_get_mut split: if_splits)
qed

lemma set_kind_view:
  assumes "fs_wf fs" "get_node i fs = Some n" "kind n = FileNode data"
  shows "contents (set_kind i (FileNode d) fs) = (contents fs)(i := Some (AFile d))"
    "entry (set_kind i (FileNode d) fs) = entry fs" "fs_wf (set_kind i (FileNode d) fs)"
proof -
  let ?f = "set_kind i (FileNode d) fs"
  have g: "get_node j ?f = (if j = i then Some (n\<lparr>kind := FileNode d\<rparr>) else get_node j fs)" for j
    using assms(2) by (simp add: set_kind_def bt_get_mut_get)
  have ci: "contents fs i = Some (AFile data)" using assms(2,3) by (simp add: contents_def)
  show c: "contents ?f = (contents fs)(i := Some (AFile d))" by (rule ext) (simp add: contents_def g)
  show e: "entry ?f = entry fs"
    by (intro ext) (use assms(2,3) in \<open>simp add: entry_def dir_entries_def g\<close>)
  have p: "par ?f = par fs" by (rule ext) (use assms(2) in \<open>simp add: par_def g\<close>)
  have "tree_wf ADir ROOT_INODE (contents ?f) (entry ?f) (par ?f)"
    unfolding c e p by (rule tree_wf_content [OF fs_wfD(1) [OF assms(1)]]) (simp_all add: ci)
  moreover have "dirs_sorted ?f" using fs_wfD(4) [OF assms(1)]
    by (auto simp: dirs_sorted_def g) (auto simp: set_kind_def bt_sorted_get_mut)
  moreover have "next_inode ?f = next_inode fs" by (simp add: set_kind_def)
  ultimately show "fs_wf ?f" using fs_wfD(2,3) [OF assms(1)] ci unfolding fs_wf_def by (auto simp: c e split: if_splits)
qed

section \<open>Moving entries\<close>

lemma chain_Suc: "(\<forall>k. (f ^^ k) x \<noteq> y) \<longleftrightarrow> x \<noteq> y \<and> (\<forall>k. (f ^^ k) (f x) \<noteq> y)"
proof -
  have "(f ^^ k) x \<noteq> y" if "x \<noteq> y" "\<forall>k. (f ^^ k) (f x) \<noteq> y" for k
    using that by (cases k) (simp_all add: funpow_swap1)
  moreover have "(f ^^ Suc k) x = (f ^^ k) (f x)" for k by (simp add: funpow_swap1)
  ultimately show ?thesis by (metis funpow_0)
qed

lemma check_ancestors_spec:
  assumes wf: "fs_wf fs" and "contents fs cur \<noteq> None"
  shows "check_ancestors inum cur fs =
    Some (if \<forall>k. (par fs ^^ k) cur \<noteq> inum then Ok () else Err InvalidArgument)"
proof -
  note T = tree_wfD [OF fs_wfD(1) [OF wf]]
  obtain k where "(par fs ^^ k) cur = ROOT_INODE" using T(10) by blast
  then show ?thesis using assms(2)
  proof (induction k arbitrary: cur)
    case 0
    then have cur: "cur = ROOT_INODE" by simp
    obtain n where n: "get_node cur fs = Some n" using 0(2) by (auto simp: contents_def)
    then have "parent n = cur" using T(2) cur by (simp add: par_def)
    moreover have "(par fs ^^ k) cur = cur" for k using root_chain [of "par fs" ROOT_INODE, OF T(2)] cur by simp
    ultimately show ?case using n by (simp add: check_ancestors.simps [of inum cur])
  next
    case (Suc k)
    obtain n where n: "get_node cur fs = Some n" using Suc.prems(2) by (auto simp: contents_def)
    then have pn: "par fs cur = parent n" by (simp add: par_def)
    show ?case
    proof (cases "parent n = cur")
      case True
      then have "(par fs ^^ m) cur = cur" for m using root_chain [of "par fs" cur] pn by simp
      then show ?thesis using n True by (simp add: check_ancestors.simps [of inum cur])
    next
      case False
      have "(par fs ^^ k) (parent n) = ROOT_INODE" using Suc.prems(1) pn by (simp add: funpow_swap1)
      moreover have "contents fs (parent n) \<noteq> None"
        using chain_exists [OF fs_wfD(1) [OF wf] Suc.prems(2), of 1] pn by simp
      ultimately have IH: "check_ancestors inum (parent n) fs =
          Some (if \<forall>k. (par fs ^^ k) (parent n) \<noteq> inum then Ok () else Err InvalidArgument)" by (rule Suc.IH)
      show ?thesis
        using n False IH unfolding chain_Suc [of "par fs" cur inum] pn check_ancestors.simps [of inum cur] by simp
    qed
  qed
qed

lemma chain_dirs:
  assumes wf: "fs_wf fs" and "contents fs d = Some ADir"
  shows "contents fs ((par fs ^^ k) d) = Some ADir"
proof (induction k)
  case (Suc k)
  note T = tree_wfD [OF fs_wfD(1) [OF wf]]
  let ?j = "(par fs ^^ k) d"
  show ?case
  proof (cases "?j = ROOT_INODE")
    case True
    then show ?thesis using T(1,2) by simp
  next
    case False
    then obtain n where "entry fs (par fs ?j) n = Some ?j" using T(9) Suc by blast
    then show ?thesis using T(4) by simp
  qed
qed (simp add: assms(2))

lemma move_view:
  assumes wf: "fs_wf fs" and e: "entry fs op on = Some j" "contents fs np = Some ADir" "entry fs np nn = None"
    and nn: "validate_name nn = Ok ()" and avoid: "\<And>k. (par fs ^^ k) np \<noteq> j"
    and fs': "fs' = move_entry op on np nn j fs"
  shows "contents fs' = contents fs" "entry fs' = upd np nn (Some j) (upd op on None (entry fs))" "fs_wf fs'"
proof -
  note T = tree_wfD [OF fs_wfD(1) [OF wf]]
  let ?f1 = "edit_dir op (bt_remove on) fs"
  let ?f2 = "edit_dir np (bt_insert nn j) ?f1"
  have op: "contents fs op = Some ADir" by (rule T(4) [OF e(1)])
  have eq: "fs' = ?f2\<lparr>nodes := bt_get_mut j (\<lambda>n. n\<lparr>parent := np\<rparr>) (nodes ?f2)\<rparr>"
    using fs' by (simp add: move_entry_def Let_def)
  have c2: "contents ?f2 = contents fs" "par ?f2 = par fs" unfolding edit_dir_view by simp_all
  have np1: "contents ?f1 np = Some ADir" unfolding edit_dir_view by (rule e(2))
  have cj: "contents ?f2 j \<noteq> None" unfolding c2 by (rule T(5) [OF e(1)])
  show c: "contents fs' = contents fs" unfolding eq get_mut_view(1) by (rule c2)
  show en: "entry fs' = upd np nn (Some j) (upd op on None (entry fs))"
    unfolding eq get_mut_view(2) edit_dir_insert(1) [OF np1] edit_dir_insert(2) [OF op] ..
  have p: "par fs' = (par fs)(j := np)" unfolding eq get_mut_view(3) [OF cj] c2 ..
  have "tree_wf ADir ROOT_INODE (contents fs') (entry fs') (par fs')"
    unfolding c en p by (rule tree_wf_move [OF fs_wfD(1) [OF wf] e avoid])
  moreover have "validate_name m = Ok ()" if "entry fs' d m = Some i" for d m i
    using that fs_wfD(2) [OF wf, of d m i] nn by (auto simp: en upd_apply split: if_splits)
  moreover have "next_inode fs' = next_inode fs" unfolding eq by (simp add: edit_dir_view(3))
  moreover have "dirs_sorted fs'"
    unfolding eq by (intro get_mut_view(4) dirs_sorted_edit bt_sorted_insert bt_sorted_remove fs_wfD(4) [OF wf])
  ultimately show "fs_wf fs'" using fs_wfD(3) [OF wf] unfolding fs_wf_def by (simp add: c)
qed

lemma chain_redirect:
  assumes "\<And>k. (f ^^ k) q \<noteq> j" "f r = r" "r \<noteq> j"
  shows "((f(i := r)) ^^ k) q \<noteq> j"
proof -
  define g where "g = f(i := r)"
  have g: "g i = r" "x \<noteq> i \<Longrightarrow> g x = f x" for x by (simp_all add: g_def)
  have gr: "g r = r" using g assms(2) by (cases "r = i") auto
  have "(g ^^ k) q = r \<or> (\<exists>m. (g ^^ k) q = (f ^^ m) q)"
  proof (induction k)
    case 0
    show ?case by (intro disjI2 exI [of _ 0]) simp
  next
    case (Suc k)
    then consider "(g ^^ k) q = r" | m where "(g ^^ k) q = (f ^^ m) q" by blast
    then show ?case
    proof cases
      case 1
      then show ?thesis by (simp add: gr)
    next
      case 2
      show ?thesis
      proof (cases "(f ^^ m) q = i")
        case True
        then show ?thesis by (simp add: 2 g)
      next
        case False
        then have "(g ^^ Suc k) q = (f ^^ Suc m) q" by (simp add: 2 g)
        then show ?thesis by blast
      qed
    qed
  qed
  then show ?thesis using assms(1,3) unfolding g_def [symmetric] by fastforce
qed

text \<open>What a successful rename leaves behind before the entry is moved: the target slot emptied.\<close>

definition cleared :: "InodeNum \<Rightarrow> string \<Rightarrow> InodeNum \<Rightarrow> RamFs \<Rightarrow> RamFs \<Rightarrow> bool" where
  "cleared np nn j fs fs1 \<longleftrightarrow>
    fs1 = fs \<and> entry fs np nn = None \<or>
    (\<exists>eid. eid \<noteq> j \<and> entry fs np nn = Some eid \<and> (\<forall>m. entry fs eid m = None) \<and> removed np nn eid fs fs1)"

lemma replace_target_Ok:
  assumes wf: "fs_wf fs" and e: "entry fs np nn = Some eid" and "replace_target b eid np nn fs = (Ok (), fs1)"
  shows "(\<forall>m. entry fs eid m = None) \<and> removed np nn eid fs fs1"
proof -
  have leaf: "contents fs eid \<noteq> Some ADir \<or> dir_entries eid fs = Ok []"
    using assms(3) unfolding replace_target_def Let_def is_dir_iff
    by (auto split: if_splits sum.splits simp: dir_entries_def contents_def split: option.splits NodeKind.splits)
  have "fs1 = edit_dir np (bt_remove nn) (fs\<lparr>nodes := bt_remove eid (nodes fs)\<rparr>)"
    using assms(3) unfolding replace_target_def Let_def by (auto split: if_splits)
  then show ?thesis using removed_replace [OF wf e entry_leaf [OF leaf]] entry_leaf [OF leaf] by simp
qed

lemma replace_target_Err: "replace_target b eid np nn fs = (Err e, fs1) \<Longrightarrow> fs1 = fs"
  unfolding replace_target_def Let_def by (auto split: if_splits)

lemma move_avoids:
  assumes wf: "fs_wf fs" and np: "contents fs np = Some ADir"
    and chk: "(if is_dir j fs then check_ancestors j np fs else Some (Ok ())) = Some (Ok ())"
  shows "(par fs ^^ k) np \<noteq> j"
proof (cases "is_dir j fs")
  case True
  then show ?thesis using chk check_ancestors_spec [OF wf, of np j] np by (auto split: if_splits)
next
  case False
  then show ?thesis using chain_dirs [OF wf np, of k] is_dir_iff [of j fs] by auto
qed

lemma ram_rename_target:
  assumes wf: "fs_wf fs" and v: "validate_name nn = Ok ()" and j: "find_entry op on fs = Ok j"
    and d: "is_dir np fs" and chk: "(if is_dir j fs then check_ancestors j np fs else Some (Ok ())) = Some (Ok ())"
  obtains (error) e where "ram_rename op on np nn fs = Some (Err e, fs)"
  | (same) "ram_rename op on np nn fs = Some (Ok (), fs)" "entry fs np nn = Some j"
  | (move) fs1 where "ram_rename op on np nn fs = Some (Ok (), move_entry op on np nn j fs1)" "cleared np nn j fs fs1"
proof -
  have en: "(case dir_entries np fs of Inr es \<Rightarrow> bt_get nn es | Inl _ \<Rightarrow> None) = entry fs np nn"
    unfolding entry_def by (rule sum.case_cong) simp_all
  note R = ram_rename_def [of op on np nn fs, unfolded Let_def en v j sum.case chk option.case]
  show ?thesis
  proof (cases "entry fs np nn")
    case None
    show ?thesis by (rule move [of fs]) (use d None in \<open>simp_all add: R cleared_def\<close>)
  next
    case (Some eid)
    show ?thesis
    proof (cases "eid = j")
      case True
      then show ?thesis using same Some d by (simp add: R)
    next
      case False
      obtain r fs1 where rt: "replace_target (is_dir j fs) eid np nn fs = (r, fs1)" by fastforce
      show ?thesis
      proof (cases r)
        case (Inl e)
        then have "fs1 = fs" using rt replace_target_Err by blast
        then show ?thesis using error Inl rt Some False d by (simp add: R)
      next
        case (Inr u)
        then have "replace_target (is_dir j fs) eid np nn fs = (Ok (), fs1)" using rt by simp
        note rem = replace_target_Ok [OF wf Some this]
        show ?thesis by (rule move [of fs1]) (use rem rt Inr Some False d in \<open>simp_all add: R cleared_def\<close>)
      qed
    qed
  qed
qed

lemma ram_rename_cases:
  assumes wf: "fs_wf fs"
  obtains (error) e where "ram_rename op on np nn fs = Some (Err e, fs)"
  | (same) j where "ram_rename op on np nn fs = Some (Ok (), fs)" "entry fs op on = Some j" "entry fs np nn = Some j"
  | (move) j fs1 where "ram_rename op on np nn fs = Some (Ok (), move_entry op on np nn j fs1)"
      "entry fs op on = Some j" "contents fs np = Some ADir" "validate_name nn = Ok ()"
      "\<And>k. (par fs ^^ k) np \<noteq> j" "cleared np nn j fs fs1"
proof -
  consider e where "validate_name nn = Err e" | e where "validate_name nn = Ok ()" "find_entry op on fs = Err e"
    | j where "validate_name nn = Ok ()" "find_entry op on fs = Ok j"
    by (metis old.unit.exhaust sum.exhaust)
  then show ?thesis
  proof cases
    case (3 j)
    then have ej: "entry fs op on = Some j" by (simp add: find_entry_Ok)
    show ?thesis
    proof (cases "is_dir np fs")
      case True
      then have np: "contents fs np = Some ADir" by (simp add: is_dir_iff)
      let ?chk = "if is_dir j fs then check_ancestors j np fs else Some (Ok ())"
      have "\<exists>r. ?chk = Some r" using check_ancestors_spec [OF wf, of np j] np by simp
      then consider e where "?chk = Some (Err e)" | "?chk = Some (Ok ())" by (metis old.unit.exhaust sum.exhaust)
      then show ?thesis
      proof cases
        case (1 e)
        note R = ram_rename_def [of op on np nn fs, unfolded Let_def 3 sum.case 1 option.case]
        show ?thesis using error True by (simp add: R)
      next
        case 2
        show ?thesis
          by (rule ram_rename_target [OF wf 3 True 2]) (use error same ej move np 3 move_avoids [OF wf np 2] in blast)+
      qed
    qed (use error 3 in \<open>simp add: ram_rename_def\<close>)
  qed (use error in \<open>simp_all add: ram_rename_def\<close>)
qed

lemma cleared_view:
  assumes wf: "fs_wf fs" and ej: "entry fs op on = Some j" and np: "contents fs np = Some ADir"
    and avoid: "\<And>k. (par fs ^^ k) np \<noteq> j" and c: "cleared np nn j fs fs1"
  shows "fs_wf fs1" "entry fs1 op on = Some j" "contents fs1 np = Some ADir" "entry fs1 np nn = None"
    "(par fs1 ^^ k) np \<noteq> j"
proof -
  note T = tree_wfD [OF fs_wfD(1) [OF wf]]
  consider "fs1 = fs" "entry fs np nn = None"
    | eid where "eid \<noteq> j" "entry fs np nn = Some eid" "\<forall>m. entry fs eid m = None" "removed np nn eid fs fs1"
    using c unfolding cleared_def by metis
  then have "fs_wf fs1 \<and> entry fs1 op on = Some j \<and> contents fs1 np = Some ADir \<and> entry fs1 np nn = None \<and>
    (par fs1 ^^ k) np \<noteq> j"
  proof cases
    case 1
    then show ?thesis using assms by simp
  next
    case (2 eid)
    note r = 2(4) [unfolded removed_def]
    have "eid \<noteq> np" using 2(2,3) by auto
    then have "contents fs1 np = Some ADir" using r np by simp
    moreover have "entry fs1 op on = Some j" "entry fs1 np nn = None"
      using r ej 2(1,2) by (auto simp: upd_apply)
    moreover have "(par fs1 ^^ k) np \<noteq> j"
      using chain_redirect [of "par fs" np j, OF avoid T(2) T(7) [OF ej, symmetric]] r by simp
    ultimately show ?thesis using removed_wf [OF wf 2(2) _ 2(4)] 2(3) by blast
  qed
  then show "fs_wf fs1" "entry fs1 op on = Some j" "contents fs1 np = Some ADir" "entry fs1 np nn = None"
    "(par fs1 ^^ k) np \<noteq> j" by blast+
qed

section \<open>Operation sequences\<close>

datatype ram_op =
    RCreate InodeNum string FileType Mode
  | RSymlink InodeNum string string
  | RWrite InodeNum u64 "u8 list"
  | RTruncate InodeNum u64
  | RUnlink InodeNum string
  | RRmdir InodeNum string
  | RRename InodeNum string InodeNum string

fun ignore_ok :: "'a FsResult \<times> RamFs \<Rightarrow> unit FsResult \<times> RamFs" where
  "ignore_ok (Inl e, fs) = (Err e, fs)"
| "ignore_ok (Inr _, fs) = (Ok (), fs)"

fun ram_apply :: "ram_op \<Rightarrow> RamFs \<Rightarrow> (unit FsResult \<times> RamFs) option" where
  "ram_apply (RCreate p nm ft md) fs = Some (ignore_ok (ram_create p nm ft md fs))"
| "ram_apply (RSymlink p nm target) fs = Some (ignore_ok (ram_symlink p nm target fs))"
| "ram_apply (RWrite i off buf) fs = Some (ignore_ok (ram_write i off buf fs))"
| "ram_apply (RTruncate i sz) fs = Some (ram_truncate i sz fs)"
| "ram_apply (RUnlink p nm) fs = Some (ram_unlink p nm fs)"
| "ram_apply (RRmdir p nm) fs = Some (ram_rmdir p nm fs)"
| "ram_apply (RRename op on np nn) fs = ram_rename op on np nn fs"

fun ram_run :: "ram_op list \<Rightarrow> RamFs \<Rightarrow> RamFs option" where
  "ram_run [] fs = Some fs"
| "ram_run (op # ops) fs = (case ram_apply op fs of None \<Rightarrow> None | Some (_, fs) \<Rightarrow> ram_run ops fs)"

lemma ignore_ok_eq: "ignore_ok rf = (r, fs) \<longleftrightarrow>
    (\<exists>e. rf = (Err e, fs) \<and> r = Err e) \<or> (\<exists>x. rf = (Ok x, fs) \<and> r = Ok ())"
  by (cases rf rule: ignore_ok.cases) auto

lemma dir_entries_cases:
  obtains (dir) es where "dir_entries p fs = Ok es" "contents fs p = Some ADir" "\<And>n. entry fs p n = bt_get n es"
  | (missing) "dir_entries p fs = Err NotFound" "contents fs p = None"
  | (nodir) "dir_entries p fs = Err NotADirectory" "contents fs p \<noteq> None" "contents fs p \<noteq> Some ADir"
proof (cases "get_node p fs")
  case (Some n)
  then show ?thesis
  proof (cases "kind n")
    case (DirNode es)
    then have "dir_entries p fs = Ok es" using Some by (simp add: dir_entries_def)
    then show ?thesis using dir dir_entries_dir dir_entries_entry by blast
  qed (use nodir Some in \<open>simp_all add: dir_entries_def contents_def\<close>)
qed (use missing in \<open>simp add: dir_entries_def contents_def\<close>)

lemma insert_child_Err: "insert_child p nm k md fs = (Err e, fs') \<Longrightarrow> e = NoSpace \<and> fs' = fs \<and> 2 ^ 64 \<le> unat (next_inode fs) + 1"
  by (auto simp: insert_child_def Let_def checked_add_None split: option.splits)

text \<open>\<open>create\<close> and \<open>symlink\<close> share their shape: the checks on the name and the parent, then \<open>insert_child\<close>.\<close>

definition link_new :: "InodeNum \<Rightarrow> string \<Rightarrow> (RamFs \<Rightarrow> InodeNum FsResult \<times> RamFs) \<Rightarrow> RamFs \<Rightarrow> InodeNum FsResult \<times> RamFs" where
  "link_new p nm ins fs =
    (case validate_name nm of
       Inl e \<Rightarrow> (Err e, fs)
     | Inr _ \<Rightarrow>
         (if contents fs p = None then (Err NotFound, fs)
          else if contents fs p \<noteq> Some ADir then (Err NotADirectory, fs)
          else if entry fs p nm \<noteq> None then (Err AlreadyExists, fs) else ins fs))"

fun created_kind :: "FileType \<Rightarrow> NodeKind option" where
  "created_kind Regular = Some (FileNode [])"
| "created_kind Directory = Some (DirNode bt_new)"
| "created_kind Symlink = Some (LinkNode [])"
| "created_kind _ = None"

lemma ram_create_link_new:
  "ram_create p nm ft md fs =
    link_new p nm (case created_kind ft of None \<Rightarrow> \<lambda>fs. (Err Unsupported, fs) | Some k \<Rightarrow> insert_child p nm k md) fs"
  by (cases rule: dir_entries_cases [of p fs]; cases ft)
    (auto simp: ram_create_def link_new_def bt_contains_key_def split: sum.splits option.splits)

lemma ram_symlink_link_new: "ram_symlink p nm t fs = link_new p nm (insert_child p nm (LinkNode t) 0x1FF) fs"
  by (cases rule: dir_entries_cases [of p fs])
    (auto simp: ram_symlink_def link_new_def bt_contains_key_def split: sum.splits option.splits)

lemma link_new_Ok:
  assumes "link_new p nm ins fs = (Ok j, fs')"
  shows "validate_name nm = Ok ()" "contents fs p = Some ADir" "entry fs p nm = None" "ins fs = (Ok j, fs')"
  using assms by (auto simp: link_new_def split: sum.splits if_splits)

lemma created_kind_dir: "created_kind ft = Some (DirNode es) \<Longrightarrow> es = bt_new"
  by (cases ft) auto

lemma created_kind_empty: "created_kind ft = Some k \<Longrightarrow> k = DirNode es \<Longrightarrow> es = bt_new"
  using created_kind_dir by simp

lemma ram_create_Ok:
  assumes "ram_create p nm ft md fs = (Ok j, fs')"
  obtains k where "created_kind ft = Some k" "insert_child p nm k md fs = (Ok j, fs')"
    "validate_name nm = Ok ()" "contents fs p = Some ADir" "entry fs p nm = None"
  using link_new_Ok [OF assms [unfolded ram_create_link_new]] by (cases "created_kind ft") auto

lemma error_unchanged:
  "ram_create p nm ft md fs = (Err e, fs') \<Longrightarrow> fs' = fs"
  "ram_symlink p nm t fs = (Err e, fs') \<Longrightarrow> fs' = fs"
  "ram_write i off buf fs = (Err e, fs') \<Longrightarrow> fs' = fs"
  "ram_truncate i sz fs = (Err e, fs') \<Longrightarrow> fs' = fs"
  "ram_unlink p nm fs = (Err e, fs') \<Longrightarrow> fs' = fs"
  "ram_rmdir p nm fs = (Err e, fs') \<Longrightarrow> fs' = fs"
  "ram_rename op on np nn fs = Some (Err e, fs') \<Longrightarrow> fs' = fs"
proof -
  show "ram_create p nm ft md fs = (Err e, fs') \<Longrightarrow> fs' = fs"
    unfolding ram_create_link_new link_new_def
    by (auto split: sum.splits if_splits option.splits dest: insert_child_Err)
  show "ram_symlink p nm t fs = (Err e, fs') \<Longrightarrow> fs' = fs"
    unfolding ram_symlink_link_new link_new_def by (auto split: sum.splits if_splits dest: insert_child_Err)
  show "ram_write i off buf fs = (Err e, fs') \<Longrightarrow> fs' = fs"
    by (auto simp: ram_write_def Let_def split: option.splits NodeKind.splits if_splits)
  show "ram_truncate i sz fs = (Err e, fs') \<Longrightarrow> fs' = fs"
    by (auto simp: ram_truncate_def split: option.splits NodeKind.splits)
  show "ram_unlink p nm fs = (Err e, fs') \<Longrightarrow> fs' = fs"
    by (auto simp: ram_unlink_def split: option.splits NodeKind.splits sum.splits)
  show "ram_rmdir p nm fs = (Err e, fs') \<Longrightarrow> fs' = fs"
    by (auto simp: ram_rmdir_def split: sum.splits if_splits)
  show "ram_rename op on np nn fs = Some (Err e, fs') \<Longrightarrow> fs' = fs"
    unfolding ram_rename_def Let_def
    by (auto split: sum.splits if_splits option.splits prod.splits dest: replace_target_Err)
qed

lemma ram_unlink_Ok:
  assumes "fs_wf fs" "ram_unlink p nm fs = (Ok u, fs')"
  obtains j where "entry fs p nm = Some j" "contents fs j \<noteq> None" "contents fs j \<noteq> Some ADir" "removed p nm j fs fs'"
proof -
  obtain j n where j: "find_entry p nm fs = Ok j" "get_node j fs = Some n" "fs' = remove_child p nm j fs"
    and k: "\<And>es. kind n \<noteq> DirNode es"
    using assms(2) by (auto simp: ram_unlink_def split: option.splits NodeKind.splits sum.splits)
  have c: "contents fs j \<noteq> Some ADir" using j(2) k by (simp add: contents_def)
  have e: "entry fs p nm = Some j" using j(1) by (simp add: find_entry_Ok)
  show ?thesis
    by (rule that [OF e tree_wfD(5) [OF fs_wfD(1) [OF assms(1)] e] c])
      (use removed_remove_child [OF assms(1) e entry_leaf] c j(3) in simp)
qed

lemma ram_rmdir_Ok:
  assumes "fs_wf fs" "ram_rmdir p nm fs = (Ok u, fs')"
  obtains j where "entry fs p nm = Some j" "contents fs j = Some ADir" "\<And>m. entry fs j m = None" "removed p nm j fs fs'"
proof -
  obtain j where j: "find_entry p nm fs = Ok j" "dir_entries j fs = Ok []" "fs' = remove_child p nm j fs"
    using assms(2) by (auto simp: ram_rmdir_def split: sum.splits if_splits)
  have e: "entry fs p nm = Some j" using j(1) by (simp add: find_entry_Ok)
  have leaf: "entry fs j m = None" for m using entry_leaf j(2) by blast
  show ?thesis by (rule that [OF e dir_entries_dir [OF j(2)] leaf]) (use removed_remove_child [OF assms(1) e leaf] j(3) in simp)
qed

definition written :: "nat \<Rightarrow> u8 list \<Rightarrow> u8 list \<Rightarrow> u8 list" where
  "written off buf d = take off (resize (max (length d) (off + length buf)) 0 d) @ buf @ drop (off + length buf) d"

lemma ram_write_Ok:
  assumes "fs_wf fs" "ram_write i off buf fs = (Ok n, fs')"
  obtains d where "contents fs i = Some (AFile d)" "unat off + length buf < 2 ^ 64" "n = length buf"
    "contents fs' = (contents fs)(i := Some (AFile (written (unat off) buf d)))" "entry fs' = entry fs" "fs_wf fs'"
proof -
  obtain nd d where g: "get_node i fs = Some nd" "kind nd = FileNode d" and lt: "unat off + length buf < 2 ^ 64"
    and r: "n = length buf" "fs' = set_kind i (FileNode (written (unat off) buf d)) fs"
    using assms(2)
    by (auto simp: ram_write_def Let_def written_def resize_def split: option.splits NodeKind.splits if_splits)
  show ?thesis
    by (rule that [of d]) (use g lt r set_kind_view [OF assms(1) g] in \<open>simp_all add: contents_def\<close>)
qed

lemma ram_truncate_Ok:
  assumes "fs_wf fs" "ram_truncate i sz fs = (Ok n, fs')"
  obtains d where "contents fs i = Some (AFile d)"
    "contents fs' = (contents fs)(i := Some (AFile (resize (unat sz) 0 d)))" "entry fs' = entry fs" "fs_wf fs'"
proof -
  obtain nd d where g: "get_node i fs = Some nd" "kind nd = FileNode d"
    and r: "fs' = set_kind i (FileNode (resize (unat sz) 0 d)) fs"
    using assms(2) by (auto simp: ram_truncate_def split: option.splits NodeKind.splits)
  show ?thesis by (rule that [of d]) (use g r set_kind_view [OF assms(1) g] in \<open>simp_all add: contents_def\<close>)
qed

lemma move_cleared:
  assumes wf: "fs_wf fs" and ej: "entry fs op on = Some j" and np: "contents fs np = Some ADir"
    and v: "validate_name nn = Ok ()" and avoid: "\<And>k. (par fs ^^ k) np \<noteq> j" and c: "cleared np nn j fs fs1"
  shows "contents (move_entry op on np nn j fs1) = contents fs1"
    "entry (move_entry op on np nn j fs1) = upd np nn (Some j) (upd op on None (entry fs1))"
    "fs_wf (move_entry op on np nn j fs1)"
  by (rule move_view; use cleared_view [OF wf ej np avoid c] v in blast)+

lemma ram_apply_error: "ram_apply op fs = Some (Err e, fs') \<Longrightarrow> fs' = fs"
  by (cases op) (auto simp: ignore_ok_eq dest: error_unchanged)

lemma ram_apply_Ok_wf:
  assumes wf: "fs_wf fs" and r: "ram_apply op fs = Some (Ok u, fs')"
  shows "fs_wf fs'"
proof (cases op)
  case (RCreate p nm ft md)
  then obtain j where "ram_create p nm ft md fs = (Ok j, fs')" using r by (auto simp: ignore_ok_eq)
  then show ?thesis using insert_child_view(5) [OF wf] created_kind_empty by (elim ram_create_Ok) blast
next
  case (RSymlink p nm t)
  then obtain j where "ram_symlink p nm t fs = (Ok j, fs')" using r by (auto simp: ignore_ok_eq)
  from link_new_Ok [OF this [unfolded ram_symlink_link_new]] show ?thesis using insert_child_view(5) [OF wf] by blast
next
  case (RWrite i off buf)
  then obtain n where "ram_write i off buf fs = (Ok n, fs')" using r by (auto simp: ignore_ok_eq)
  then show ?thesis by (rule ram_write_Ok [OF wf])
next
  case (RTruncate i sz)
  then have "ram_truncate i sz fs = (Ok u, fs')" using r by simp
  then show ?thesis by (rule ram_truncate_Ok [OF wf])
next
  case (RUnlink p nm)
  then have "ram_unlink p nm fs = (Ok u, fs')" using r by simp
  then show ?thesis by (rule ram_unlink_Ok [OF wf]) (rule removed_wf [OF wf], auto intro: entry_None)
next
  case (RRmdir p nm)
  then have "ram_rmdir p nm fs = (Ok u, fs')" using r by simp
  then show ?thesis by (rule ram_rmdir_Ok [OF wf]) (rule removed_wf [OF wf])
next
  case (RRename p on np nn)
  then have R: "ram_rename p on np nn fs = Some (Ok u, fs')" using r by simp
  show ?thesis
    by (rule ram_rename_cases [OF wf, of p on np nn]) (use R wf move_cleared(3) [OF wf] in auto)
qed

lemma ram_apply_returns: "fs_wf fs \<Longrightarrow> \<exists>r fs'. ram_apply op fs = Some (r, fs')"
proof (cases op)
  case (RRename p on np nn)
  assume "fs_wf fs"
  then show ?thesis by (rule ram_rename_cases [of _ p on np nn]) (simp_all add: RRename)
qed (metis ram_apply.simps surj_pair)+

lemma ram_apply_wf:
  assumes "fs_wf fs"
  obtains r fs' where "ram_apply op fs = Some (r, fs')" "fs_wf fs'"
proof -
  obtain r fs' where r: "ram_apply op fs = Some (r, fs')" using ram_apply_returns [OF assms] by blast
  then have "fs_wf fs'" using ram_apply_error ram_apply_Ok_wf [OF assms] assms by (cases r) blast+
  then show ?thesis using that r by blast
qed

lemma RamFs_new_wf: "fs_wf RamFs_new"
proof -
  have g: "get_node i RamFs_new = (if i = ROOT_INODE then Some (new_node ROOT_INODE (DirNode bt_new) 0x1ED) else None)" for i
    by (simp add: RamFs_new_def bt_simps)
  have c: "contents RamFs_new = (\<lambda>i. if i = ROOT_INODE then Some ADir else None)"
    by (rule ext) (simp add: contents_def g new_node_def)
  have e: "entry RamFs_new d n = None" for d n by (simp add: entry_def dir_entries_def g new_node_def bt_simps)
  have p: "par RamFs_new i = ROOT_INODE" for i by (simp add: par_def g new_node_def)
  have "(par RamFs_new ^^ 1) i = ROOT_INODE" for i by (simp add: p)
  then have "tree_wf ADir ROOT_INODE (contents RamFs_new) (entry RamFs_new) (par RamFs_new)"
    by (intro tree_wfI; (simp add: c e p split: if_splits; fail)?) blast
  moreover have "dirs_sorted RamFs_new"
    unfolding dirs_sorted_def by (auto simp: g new_node_def) (simp add: RamFs_new_def bt_sorted_insert)
  moreover have "next_inode RamFs_new = 2" by (simp add: RamFs_new_def ROOT_INODE_def)
  then have "i < next_inode RamFs_new" if "contents RamFs_new i \<noteq> None" for i
    using that by (simp add: c ROOT_INODE_def split: if_splits)
  ultimately show ?thesis unfolding fs_wf_def by (simp add: e)
qed

section \<open>Refinement of a tree of paths\<close>

text \<open>
  The abstract file system: a partial map from paths to contents.  Each abstract operation names its
  files by path and gives the result and the next tree; the errors and their order are the file system's.
\<close>

type_synonym path = "string list"
type_synonym abs_fs = "path \<Rightarrow> content option"

definition abs_link :: "path \<Rightarrow> string \<Rightarrow> content option \<Rightarrow> abs_fs \<Rightarrow> unit FsResult \<times> abs_fs" where
  "abs_link P nm c t =
    (case validate_name nm of
       Inl e \<Rightarrow> (Err e, t)
     | Inr _ \<Rightarrow>
         if t P \<noteq> Some ADir then (Err NotADirectory, t)
         else if t (P @ [nm]) \<noteq> None then (Err AlreadyExists, t)
         else (case c of None \<Rightarrow> (Err Unsupported, t) | Some x \<Rightarrow> (Ok (), t(P @ [nm] \<mapsto> x))))"

definition abs_edit :: "path \<Rightarrow> (u8 list \<Rightarrow> u8 list FsResult) \<Rightarrow> abs_fs \<Rightarrow> unit FsResult \<times> abs_fs" where
  "abs_edit P f t =
    (case t P of
       Some (AFile d) \<Rightarrow> (case f d of Inl e \<Rightarrow> (Err e, t) | Inr d' \<Rightarrow> (Ok (), t(P \<mapsto> AFile d')))
     | Some ADir \<Rightarrow> (Err IsADirectory, t)
     | _ \<Rightarrow> (Err InvalidArgument, t))"

definition abs_remove :: "path \<Rightarrow> string \<Rightarrow> (content \<Rightarrow> FsError option) \<Rightarrow> abs_fs \<Rightarrow> unit FsResult \<times> abs_fs" where
  "abs_remove P nm ok t =
    (if t P \<noteq> Some ADir then (Err NotADirectory, t)
     else case t (P @ [nm]) of
       None \<Rightarrow> (Err NotFound, t)
     | Some c \<Rightarrow> (case ok c of Some e \<Rightarrow> (Err e, t) | None \<Rightarrow> (Ok (), t(P @ [nm] := None))))"

definition has_child :: "path \<Rightarrow> abs_fs \<Rightarrow> bool" where
  "has_child P t \<longleftrightarrow> (\<exists>n. t (P @ [n]) \<noteq> None)"

definition abs_rename_error :: "path \<Rightarrow> string \<Rightarrow> path \<Rightarrow> string \<Rightarrow> abs_fs \<Rightarrow> FsError option" where
  "abs_rename_error OP on NP nn t =
    (case validate_name nn of
       Inl e \<Rightarrow> Some e
     | Inr _ \<Rightarrow>
         if t OP \<noteq> Some ADir then Some NotADirectory
         else case t (OP @ [on]) of
           None \<Rightarrow> Some NotFound
         | Some src \<Rightarrow>
             if t NP \<noteq> Some ADir then Some NotADirectory
             else if src = ADir \<and> prefix (OP @ [on]) NP then Some InvalidArgument
             else case t (NP @ [nn]) of
               None \<Rightarrow> None
             | Some dst \<Rightarrow>
                 if OP @ [on] = NP @ [nn] then None
                 else if src = ADir \<and> dst \<noteq> ADir then Some NotADirectory
                 else if src \<noteq> ADir \<and> dst = ADir then Some IsADirectory
                 else if dst = ADir \<and> has_child (NP @ [nn]) t then Some NotEmpty
                 else None)"

definition abs_rename :: "path \<Rightarrow> string \<Rightarrow> path \<Rightarrow> string \<Rightarrow> abs_fs \<Rightarrow> unit FsResult \<times> abs_fs" where
  "abs_rename OP on NP nn t =
    (case abs_rename_error OP on NP nn t of
       Some e \<Rightarrow> (Err e, t)
     | None \<Rightarrow> (Ok (), \<lambda>Q. case moved OP on NP nn Q of None \<Rightarrow> None | Some Q' \<Rightarrow> t Q'))"

datatype path_op =
    PCreate path string FileType Mode
  | PSymlink path string string
  | PWrite path u64 "u8 list"
  | PTruncate path u64
  | PUnlink path string
  | PRmdir path string
  | PRename path string path string

fun abs_apply :: "path_op \<Rightarrow> abs_fs \<Rightarrow> unit FsResult \<times> abs_fs" where
  "abs_apply (PCreate P nm ft md) t = abs_link P nm (map_option content_of (created_kind ft)) t"
| "abs_apply (PSymlink P nm target) t = abs_link P nm (Some (ALink target)) t"
| "abs_apply (PWrite P off buf) t =
    abs_edit P (\<lambda>d. if 2 ^ 64 \<le> unat off + length buf then Err NoSpace else Ok (written (unat off) buf d)) t"
| "abs_apply (PTruncate P sz) t = abs_edit P (\<lambda>d. Ok (resize (unat sz) 0 d)) t"
| "abs_apply (PUnlink P nm) t = abs_remove P nm (\<lambda>c. if c = ADir then Some IsADirectory else None) t"
| "abs_apply (PRmdir P nm) t =
    abs_remove P nm (\<lambda>c. if c \<noteq> ADir then Some NotADirectory
                         else if has_child (P @ [nm]) t then Some NotEmpty else None) t"
| "abs_apply (PRename OP on NP nn) t = abs_rename OP on NP nn t"

text \<open>The inode of a path, and the inode operation a path operation stands for.\<close>

definition inode_at :: "RamFs \<Rightarrow> path \<Rightarrow> InodeNum option" where
  "inode_at fs P = walk (entry fs) ROOT_INODE P"

fun at_inodes :: "RamFs \<Rightarrow> path_op \<Rightarrow> ram_op option" where
  "at_inodes fs (PCreate P nm ft md) = map_option (\<lambda>p. RCreate p nm ft md) (inode_at fs P)"
| "at_inodes fs (PSymlink P nm target) = map_option (\<lambda>p. RSymlink p nm target) (inode_at fs P)"
| "at_inodes fs (PWrite P off buf) = map_option (\<lambda>i. RWrite i off buf) (inode_at fs P)"
| "at_inodes fs (PTruncate P sz) = map_option (\<lambda>i. RTruncate i sz) (inode_at fs P)"
| "at_inodes fs (PUnlink P nm) = map_option (\<lambda>p. RUnlink p nm) (inode_at fs P)"
| "at_inodes fs (PRmdir P nm) = map_option (\<lambda>p. RRmdir p nm) (inode_at fs P)"
| "at_inodes fs (PRename OP on NP nn) =
    (case (inode_at fs OP, inode_at fs NP) of (Some p, Some q) \<Rightarrow> Some (RRename p on q nn) | _ \<Rightarrow> None)"

lemma tree_of_at:
  assumes "inode_at fs P = Some p"
  shows "tree_of fs P = contents fs p"
    "tree_of fs (P @ [n]) = (case entry fs p n of None \<Rightarrow> None | Some i \<Rightarrow> contents fs i)"
  using assms by (simp_all add: tree_of_def tree_def inode_at_def walk_snoc)

lemma at_exists: "fs_wf fs \<Longrightarrow> inode_at fs P = Some p \<Longrightarrow> contents fs p \<noteq> None"
  unfolding inode_at_def by (rule walk_content [OF fs_wfD(1)])

lemma tree_child:
  assumes wf: "fs_wf fs" and "inode_at fs P = Some p"
  shows "entry fs p n = None \<Longrightarrow> tree_of fs (P @ [n]) = None"
    "entry fs p n = Some i \<Longrightarrow> tree_of fs (P @ [n]) = contents fs i \<and> contents fs i \<noteq> None"
  using tree_of_at(2) [OF assms(2), of n] tree_wfD(5) [OF fs_wfD(1) [OF wf], of p n i] by simp_all

lemma has_child_at:
  assumes wf: "fs_wf fs" and "inode_at fs P = Some p"
  shows "has_child P (tree_of fs) \<longleftrightarrow> (\<exists>n. entry fs p n \<noteq> None)"
proof -
  have "tree_of fs (P @ [n]) \<noteq> None \<longleftrightarrow> entry fs p n \<noteq> None" for n
    using tree_child [OF assms, of n] by (cases "entry fs p n") auto
  then show ?thesis by (simp add: has_child_def)
qed

lemma inode_at_snoc: "inode_at fs P = Some p \<Longrightarrow> entry fs p n = Some i \<Longrightarrow> inode_at fs (P @ [n]) = Some i"
  by (simp add: inode_at_def walk_snoc)

text \<open>The simulation, one operation at a time.\<close>

definition simulates :: "(unit FsResult \<times> RamFs) option \<Rightarrow> unit FsResult \<times> abs_fs \<Rightarrow> bool" where
  "simulates c a \<longleftrightarrow> (\<exists>fs'. c = Some (fst a, fs') \<and> tree_of fs' = snd a)"

lemma simulatesI: "c = Some (r, fs') \<Longrightarrow> a = (r, tree_of fs') \<Longrightarrow> simulates c a"
  by (simp add: simulates_def)

lemma link_new_refines:
  assumes wf: "fs_wf fs" and P: "inode_at fs P = Some p" and room: "unat (next_inode fs) + 1 < 2 ^ 64"
    and ins: "ins = (case k of None \<Rightarrow> \<lambda>fs. (Err Unsupported, fs) | Some k \<Rightarrow> insert_child p nm k md)"
    and empty: "\<And>k' es. k = Some k' \<Longrightarrow> k' = DirNode es \<Longrightarrow> es = bt_new"
  shows "simulates (Some (ignore_ok (link_new p nm ins fs))) (abs_link P nm (map_option content_of k) (tree_of fs))"
proof (cases "validate_name nm = Ok () \<and> contents fs p = Some ADir \<and> entry fs p nm = None \<and> k \<noteq> None")
  case True
  then obtain k' where k: "k = Some k'" by auto
  obtain r fs' where r: "insert_child p nm k' md fs = (r, fs')" by fastforce
  obtain j where j: "r = Ok j" using r insert_child_Err [of p nm k' md fs _ fs'] room by (cases r) auto
  have pre: "contents fs p = Some ADir" "entry fs p nm = None" "validate_name nm = Ok ()" using True by auto
  have v: "contents fs j = None" "contents fs' = (contents fs)(j := Some (content_of k'))"
      "entry fs' = upd p nm (Some j) (entry fs)"
    by (rule insert_child_view(2-4) [OF wf pre _ r [unfolded j]]; use empty k in blast)+
  have "tree_of fs' = (tree_of fs)(P @ [nm] \<mapsto> content_of k')"
    unfolding tree_of_def v(2,3) by (rule tree_add [OF fs_wfD(1) [OF wf] P [unfolded inode_at_def] v(1) pre(2)])
  then show ?thesis
    using True tree_of_at(1) [OF P] tree_child(1) [OF wf P pre(2)] r j
    by (intro simulatesI [of _ "Ok ()" fs']) (simp_all add: link_new_def ins k abs_link_def)
next
  case False
  then show ?thesis
    using at_exists [OF wf P] tree_of_at(1) [OF P] tree_child [OF wf P, of nm]
    by (auto simp: simulates_def link_new_def abs_link_def ins split: sum.split option.split)
qed

lemma ram_edit_refines:
  assumes wf: "fs_wf fs" and P: "inode_at fs P = Some i"
  shows "simulates (ram_apply (RWrite i off buf) fs) (abs_apply (PWrite P off buf) (tree_of fs))"
    "simulates (ram_apply (RTruncate i sz) fs) (abs_apply (PTruncate P sz) (tree_of fs))"
proof -
  obtain n where n: "get_node i fs = Some n" using at_exists [OF wf P] by (auto simp: contents_def)
  have c: "tree_of fs P = Some (content_of (kind n))" using tree_of_at(1) [OF P] n by (simp add: contents_def)
  have upd: "tree_of fs' = (tree_of fs)(P \<mapsto> AFile d)"
    if "contents fs' = (contents fs)(i := Some (AFile d))" "entry fs' = entry fs" for fs' d
    unfolding tree_of_def that by (rule tree_content [OF fs_wfD(1) [OF wf] P [unfolded inode_at_def]])
  show "simulates (ram_apply (RWrite i off buf) fs) (abs_apply (PWrite P off buf) (tree_of fs))"
  proof (cases "ram_write i off buf fs")
    case (Pair r fs')
    show ?thesis
    proof (cases r)
      case (Inl e)
      then show ?thesis using Pair n c error_unchanged(3) [of i off buf fs e fs']
        by (intro simulatesI [of _ "Err e" fs])
          (auto simp: abs_edit_def ram_write_def Let_def split: NodeKind.splits if_splits)
    next
      case (Inr x)
      from Pair [unfolded Inr] show ?thesis
        by (rule ram_write_Ok [OF wf], intro simulatesI [of _ "Ok ()" fs'])
          (use Pair Inr c n upd in \<open>auto simp: abs_edit_def contents_def\<close>)
    qed
  qed
  show "simulates (ram_apply (RTruncate i sz) fs) (abs_apply (PTruncate P sz) (tree_of fs))"
  proof (cases "ram_truncate i sz fs")
    case (Pair r fs')
    show ?thesis
    proof (cases r)
      case (Inl e)
      then show ?thesis using Pair n c error_unchanged(4) [of i sz fs e fs']
        by (intro simulatesI [of _ "Err e" fs]) (auto simp: abs_edit_def ram_truncate_def split: NodeKind.splits)
    next
      case (Inr x)
      from Pair [unfolded Inr] show ?thesis
        by (rule ram_truncate_Ok [OF wf], intro simulatesI [of _ "Ok ()" fs'])
          (use Pair Inr c n upd in \<open>auto simp: abs_edit_def contents_def\<close>)
    qed
  qed
qed

lemma removed_tree:
  assumes wf: "fs_wf fs" and P: "inode_at fs P = Some p" and "entry fs p nm = Some j" "\<And>m. entry fs j m = None"
    and r: "removed p nm j fs fs'"
  shows "tree_of fs' = (tree_of fs)(P @ [nm] := None)"
  using r tree_remove [OF fs_wfD(1) [OF wf] P [unfolded inode_at_def] assms(3,4)]
  by (simp add: tree_of_def removed_def)

lemma find_entry_eq:
  "contents fs p \<noteq> None \<Longrightarrow> find_entry p nm fs =
    (if contents fs p \<noteq> Some ADir then Err NotADirectory
     else case entry fs p nm of None \<Rightarrow> Err NotFound | Some i \<Rightarrow> Ok i)"
  by (cases rule: dir_entries_cases [of p fs]) (auto simp: find_entry_def)

lemma remove_refines:
  assumes wf: "fs_wf fs" and P: "inode_at fs P = Some p"
  shows "simulates (ram_apply (RUnlink p nm) fs) (abs_apply (PUnlink P nm) (tree_of fs))"
    "simulates (ram_apply (RRmdir p nm) fs) (abs_apply (PRmdir P nm) (tree_of fs))"
proof -
  note F = find_entry_eq [OF at_exists [OF wf P], of nm] and C = tree_of_at(1) [OF P]
  have "simulates (ram_apply (RUnlink p nm) fs) (abs_apply (PUnlink P nm) (tree_of fs)) \<and>
    simulates (ram_apply (RRmdir p nm) fs) (abs_apply (PRmdir P nm) (tree_of fs))"
  proof (cases "contents fs p = Some ADir")
    case False
    then show ?thesis by (simp add: simulates_def ram_unlink_def ram_rmdir_def F abs_remove_def C)
  next
    case d: True
    show ?thesis
    proof (cases "entry fs p nm")
      case None
      then show ?thesis using d
        by (simp add: simulates_def ram_unlink_def ram_rmdir_def F abs_remove_def C tree_child(1) [OF wf P])
    next
      case (Some j)
      then have cj: "tree_of fs (P @ [nm]) = contents fs j" and "contents fs j \<noteq> None"
        using tree_child(2) [OF wf P] by blast+
      then obtain n where n: "get_node j fs = Some n" by (auto simp: contents_def)
      note rem = removed_tree [OF wf P Some _ removed_remove_child [OF wf Some]]
      note hc = has_child_at [OF wf inode_at_snoc [OF P Some]]
      have empty: "es = [] \<longleftrightarrow> (\<forall>m. entry fs j m = None)" if "kind n = DirNode es" for es
        using that n bt_empty_iff [of es] by (simp add: entry_def dir_entries_def)
      show ?thesis
      proof (cases "kind n")
        case (DirNode es)
        then show ?thesis using d Some n cj rem hc empty
          by (simp add: simulates_def ram_unlink_def ram_rmdir_def F abs_remove_def C contents_def dir_entries_def)
      qed (use d Some n cj rem entry_leaf [of fs j] in
          \<open>simp_all add: simulates_def ram_unlink_def ram_rmdir_def F abs_remove_def C contents_def dir_entries_def\<close>)
    qed
  qed
  then show "simulates (ram_apply (RUnlink p nm) fs) (abs_apply (PUnlink P nm) (tree_of fs))"
    "simulates (ram_apply (RRmdir p nm) fs) (abs_apply (PRmdir P nm) (tree_of fs))" by blast+
qed

lemma prefix_ancestor:
  assumes wf: "fs_wf fs" and OP: "inode_at fs OP = Some op" and j: "entry fs op on = Some j" and NP: "inode_at fs NP = Some np"
  shows "prefix (OP @ [on]) NP \<longleftrightarrow> (\<exists>k. (par fs ^^ k) np = j)"
proof
  note T = fs_wfD(1) [OF wf]
  have J: "walk (entry fs) ROOT_INODE (OP @ [on]) = Some j" using inode_at_snoc [OF OP j] by (simp add: inode_at_def)
  show "\<exists>k. (par fs ^^ k) np = j" if "prefix (OP @ [on]) NP"
  proof -
    from that obtain R where "NP = (OP @ [on]) @ R" by (auto simp: prefix_def)
    then have "walk (entry fs) j R = Some np" using NP J by (simp add: inode_at_def walk_append split: option.splits)
    then show ?thesis using walk_chain [OF tree_wfD(3) [OF T]] by blast
  qed
  show "prefix (OP @ [on]) NP" if "\<exists>k. (par fs ^^ k) np = j"
  proof -
    from that obtain k where "(par fs ^^ k) np = j" ..
    then have "walk (entry fs) ROOT_INODE (take (length NP - k) NP) = Some j"
      using walk_ancestor [OF T NP [unfolded inode_at_def], of k] by simp
    then have "take (length NP - k) NP = OP @ [on]" using walk_inj [OF tree_wfD(3) [OF T] _ J] by blast
    then show ?thesis by (metis take_is_prefix)
  qed
qed

lemma same_entry:
  assumes wf: "fs_wf fs" and OP: "inode_at fs OP = Some op" and j: "entry fs op on = Some j"
    and NP: "inode_at fs NP = Some np" and e: "entry fs np nn = Some eid"
  shows "eid = j \<longleftrightarrow> OP @ [on] = NP @ [nn]"
  using walk_inj [OF tree_wfD(3) [OF fs_wfD(1) [OF wf]]] inode_at_snoc [OF OP j] inode_at_snoc [OF NP e]
  unfolding inode_at_def by fastforce

lemma replace_target_result:
  assumes wf: "fs_wf fs" and NP: "inode_at fs NP = Some np" and e: "entry fs np nn = Some eid"
  shows "fst (replace_target b eid np nn fs) =
    (case tree_of fs (NP @ [nn]) of None \<Rightarrow> Ok ()
     | Some dst \<Rightarrow>
         if b \<and> dst \<noteq> ADir then Err NotADirectory
         else if \<not> b \<and> dst = ADir then Err IsADirectory
         else if dst = ADir \<and> has_child (NP @ [nn]) (tree_of fs) then Err NotEmpty else Ok ())"
proof -
  have c: "tree_of fs (NP @ [nn]) = contents fs eid" "contents fs eid \<noteq> None" using tree_child(2) [OF wf NP e] by blast+
  note hc = has_child_at [OF wf inode_at_snoc [OF NP e]]
  show ?thesis
  proof (cases rule: dir_entries_cases [of eid fs])
    case (dir es)
    then show ?thesis using bt_empty_iff [of es] by (simp add: replace_target_def Let_def is_dir_iff c hc)
  next
    case nodir
    then show ?thesis by (auto simp: replace_target_def Let_def is_dir_iff c(1))
  qed (use c in simp)
qed

lemma ram_rename_result:
  assumes wf: "fs_wf fs" and OP: "inode_at fs OP = Some op" and NP: "inode_at fs NP = Some np"
  shows "\<exists>fs'. ram_rename op on np nn fs =
    Some (case abs_rename_error OP on NP nn (tree_of fs) of Some e \<Rightarrow> Err e | None \<Rightarrow> Ok (), fs')"
proof (cases "validate_name nn")
  case (Inl e)
  then show ?thesis by (simp add: ram_rename_def abs_rename_error_def)
next
  case v: (Inr u)
  note F = find_entry_eq [OF at_exists [OF wf OP], of on] and C = tree_of_at(1) [OF OP] tree_of_at(1) [OF NP]
  show ?thesis
  proof (cases "contents fs op = Some ADir \<and> entry fs op on \<noteq> None \<and> contents fs np = Some ADir")
    case False
    then show ?thesis
      using tree_child [OF wf OP, of on] v
      by (cases "entry fs op on") (auto simp: ram_rename_def abs_rename_error_def F C is_dir_iff)
  next
    case True
    then obtain j where j: "entry fs op on = Some j" by auto
    have d: "contents fs op = Some ADir" "contents fs np = Some ADir" using True by auto
    have J: "tree_of fs (OP @ [on]) = contents fs j" "contents fs j \<noteq> None" using tree_child(2) [OF wf OP j] by blast+
    have en: "(case dir_entries np fs of Inr es \<Rightarrow> bt_get nn es | Inl _ \<Rightarrow> None) = entry fs np nn"
      unfolding entry_def by (rule sum.case_cong) simp_all
    have np: "contents fs np \<noteq> None" using d by simp
    note chk = check_ancestors_spec [OF wf np, of j] and anc = prefix_ancestor [OF wf OP j NP]
    note R = ram_rename_def [of op on np nn fs, unfolded Let_def en v F]
    show ?thesis
    proof (cases "entry fs np nn")
      case None
      then show ?thesis using d j J tree_child(1) [OF wf NP None] anc
        by (auto simp: R abs_rename_error_def v C is_dir_iff chk)
    next
      case (Some eid)
      obtain r fs1 where rt: "replace_target (is_dir j fs) eid np nn fs = (r, fs1)" by fastforce
      note res = replace_target_result [OF wf NP Some, of "is_dir j fs", unfolded rt fst_conv]
      have E: "tree_of fs (NP @ [nn]) = contents fs eid" "contents fs eid \<noteq> None" using tree_child(2) [OF wf NP Some] by blast+
      show ?thesis using d j J E Some anc rt res same_entry [OF wf OP j NP Some]
        by (auto simp: R abs_rename_error_def v C is_dir_iff chk split: if_splits)
    qed
  qed
qed

lemma moved_idem: "moved OP on OP on Q = Some Q"
  by (auto simp: moved_def elim!: prefix_snocE)

lemma moved_fresh:
  assumes "\<not> prefix (OP @ [on]) NP" "OP @ [on] \<noteq> NP @ [nn]" "moved OP on NP nn Q = Some Q'"
  shows "Q' \<noteq> NP @ [nn]"
proof
  assume "Q' = NP @ [nn]"
  then obtain R where "OP @ on # R = NP @ [nn]" using assms(3) by (auto simp: moved_def split: if_splits)
  then have "prefix (OP @ [on]) (NP @ [nn])" by (metis Cons_prefix_Cons Nil_prefix same_prefix_prefix)
  then show False using assms(1,2) by (simp add: prefix_snoc)
qed

lemma ram_rename_tree:
  assumes wf: "fs_wf fs" and OP: "inode_at fs OP = Some op" and NP: "inode_at fs NP = Some np"
    and r: "ram_rename op on np nn fs = Some (Ok (), fs')"
  shows "tree_of fs' = (\<lambda>Q. case moved OP on NP nn Q of None \<Rightarrow> None | Some Q' \<Rightarrow> tree_of fs Q')"
  using wf
proof (cases rule: ram_rename_cases [of fs op on np nn])
  case (same j)
  then have "OP = NP" "on = nn" using same_entry [OF wf OP same(2) NP same(3)] by simp_all
  then show ?thesis using same(1) r by (simp add: moved_idem)
next
  case (move j fs1)
  note T = fs_wfD(1) [OF wf]
  note cv = cleared_view [OF wf move(2,3,5,6)] and mv = move_cleared [OF wf move(2,3,4,5,6)]
  have fs': "fs' = move_entry op on np nn j fs1" using move(1) r by simp
  have "\<not> prefix (OP @ [on]) NP" using prefix_ancestor [OF wf OP move(2) NP] move(5) by blast
  have keep: "inode_at fs1 OP = Some op \<and> inode_at fs1 NP = Some np \<and> (\<forall>Q. Q \<noteq> NP @ [nn] \<longrightarrow> tree_of fs1 Q = tree_of fs Q)"
    using move(6) unfolding cleared_def
  proof (elim disjE exE conjE)
    fix eid assume e: "entry fs np nn = Some eid" "\<forall>m. entry fs eid m = None" "removed np nn eid fs fs1"
    have w: "inode_at fs1 Q = (if Q = NP @ [nn] then None else inode_at fs Q)" for Q
      using walk_remove_leaf [OF tree_wfD(3) [OF T] NP [unfolded inode_at_def] e(1)] e(2,3)
      by (simp add: inode_at_def removed_def)
    have "OP \<noteq> NP @ [nn]" using inode_at_snoc [OF NP e(1)] OP e(2) move(2) by auto
    then show ?thesis using w OP NP removed_tree [OF wf NP e(1) _ e(3)] e(2) by simp
  qed (use OP NP in simp)
  have "OP @ [on] \<noteq> NP @ [nn]"
    using move(2,6) OP NP same_entry [OF wf OP move(2) NP] unfolding cleared_def by auto
  then have q': "Q' \<noteq> NP @ [nn]" if "moved OP on NP nn Q = Some Q'" for Q Q'
    by (rule moved_fresh [OF \<open>\<not> prefix (OP @ [on]) NP\<close> _ that])
  show ?thesis
  proof
    fix Q
    have "tree_of fs' Q = (case moved OP on NP nn Q of None \<Rightarrow> None | Some Q' \<Rightarrow> tree_of fs1 Q')"
      unfolding fs' tree_of_def mv(1,2)
      by (rule tree_move [OF fs_wfD(1) [OF cv(1)] _ cv(2) _ cv(5)]) (use keep in \<open>simp_all add: inode_at_def\<close>)
    then show "tree_of fs' Q = (case moved OP on NP nn Q of None \<Rightarrow> None | Some Q' \<Rightarrow> tree_of fs Q')"
      using keep q' by (simp split: option.splits)
  qed
qed (use r in simp)

section \<open>Reading back\<close>

lemma ram_read_file: "contents fs i = Some (AFile d) \<Longrightarrow> ram_read i off len fs = Ok (take len (drop (unat off) d))"
  by (auto simp: contents_def ram_read_def Let_def min_def elim!: content_of.elims split: NodeKind.splits)

lemma ram_read_cong:
  assumes "contents fs' i = contents fs i"
  shows "ram_read i off len fs' = ram_read i off len fs"
  using assms unfolding contents_def ram_read_def
  by (cases "get_node i fs"; cases "get_node i fs'") (auto split: NodeKind.splits)

lemma written_split:
  "written off buf d = take off (d @ replicate (off - length d) 0) @ buf @ drop (off + length buf) d"
proof -
  have "take off (resize (max (length d) (off + length buf)) 0 d) = take off (d @ replicate (off - length d) 0)"
    by (cases "off \<le> length d") (auto simp: resize_def take_replicate min_def)
  then show ?thesis by (simp add: written_def)
qed

lemma drop_written:
  "drop off (written off buf d) = buf @ drop (off + length buf) d"
  "off + length buf \<le> q \<Longrightarrow> drop q (written off buf d) = drop q d"
  "q < off \<Longrightarrow> take 1 (drop q (written off buf d)) = [if q < length d then d ! q else 0]"
proof -
  let ?h = "take off (d @ replicate (off - length d) 0)"
  have len: "length ?h = off" by simp
  show "drop off (written off buf d) = buf @ drop (off + length buf) d" using len by (simp add: written_split)
  show "off + length buf \<le> q \<Longrightarrow> drop q (written off buf d) = drop q d"
    using len by (simp add: written_split)
  show "q < off \<Longrightarrow> take 1 (drop q (written off buf d)) = [if q < length d then d ! q else 0]"
    by (simp add: written_split take_Suc hd_drop_conv_nth nth_append)
qed

section \<open>Properties\<close>

lemma ram_run_wf: "fs_wf fs \<Longrightarrow> \<exists>fs'. ram_run ops fs = Some fs' \<and> fs_wf fs'"
proof (induction ops arbitrary: fs)
  case (Cons op ops)
  obtain r fs' where "ram_apply op fs = Some (r, fs')" "fs_wf fs'" by (rule ram_apply_wf [OF Cons.prems])
  then show ?case using Cons.IH by simp
qed simp

text \<open>C17: every sequence of RamFs operations, started on a fresh file system, returns (the ancestor walk of
  \<open>rename\<close> included) and leaves a tree: the root is a directory and its own parent, every entry points to a live
  node whose parent field names that directory, every live node has exactly one entry, every parent chain reaches
  the root, every name is valid and every inode number in use is below the next one.\<close>

theorem ramfs_stays_a_tree: "\<exists>fs. ram_run ops RamFs_new = Some fs \<and> fs_wf fs"
  by (rule ram_run_wf [OF RamFs_new_wf])

text \<open>C18: RamFs implements a map from paths to contents.  On a well-formed file system with inode numbers left,
  the operation on the inodes of its paths returns exactly the result, errors included, of the path operation and
  leaves exactly its tree; rename moves the whole subtree.\<close>

theorem ramfs_refines_tree:
  assumes wf: "fs_wf fs" and room: "unat (next_inode fs) + 1 < 2 ^ 64" and op: "at_inodes fs pop = Some op"
  shows "\<exists>fs'. ram_apply op fs = Some (fst (abs_apply pop (tree_of fs)), fs') \<and>
    tree_of fs' = snd (abs_apply pop (tree_of fs))"
  unfolding simulates_def [symmetric]
proof (cases pop)
  case (PCreate P nm ft md)
  then obtain p where p: "inode_at fs P = Some p" "op = RCreate p nm ft md" using op by auto
  show "simulates (ram_apply op fs) (abs_apply pop (tree_of fs))"
    using link_new_refines [OF wf p(1) room refl, of "created_kind ft" nm md] created_kind_empty [of ft]
    by (simp add: PCreate p(2) ram_create_link_new)
next
  case (PSymlink P nm t)
  then obtain p where p: "inode_at fs P = Some p" "op = RSymlink p nm t" using op by auto
  show "simulates (ram_apply op fs) (abs_apply pop (tree_of fs))"
    using link_new_refines [OF wf p(1) room refl, of "Some (LinkNode t)" nm "0x1FF"]
    by (simp add: PSymlink p(2) ram_symlink_link_new)
next
  case (PRename OP on NP nn)
  then obtain p q where p: "inode_at fs OP = Some p" "inode_at fs NP = Some q" "op = RRename p on q nn"
    using op by (auto split: option.splits)
  note res = ram_rename_result [OF wf p(1,2), of on nn]
  show "simulates (ram_apply op fs) (abs_apply pop (tree_of fs))"
    using res ram_rename_tree [OF wf p(1,2), of on nn] error_unchanged(7) [of p on q nn fs]
    by (auto simp: simulates_def PRename p(3) abs_rename_def split: option.splits)
qed (use op ram_edit_refines [OF wf] remove_refines [OF wf] in \<open>auto simp del: ram_apply.simps abs_apply.simps\<close>)

theorem ramfs_refines_tree_witness:
  "\<exists>fs'. ram_apply (RCreate ROOT_INODE ''a'' Directory 0) RamFs_new =
      Some (fst (abs_apply (PCreate [] ''a'' Directory 0) (tree_of RamFs_new)), fs') \<and>
    tree_of fs' = snd (abs_apply (PCreate [] ''a'' Directory 0) (tree_of RamFs_new))"
  by (rule ramfs_refines_tree [OF RamFs_new_wf]) (simp_all add: RamFs_new_def ROOT_INODE_def inode_at_def)

text \<open>An operation that fails changes nothing, whatever the state it starts from.\<close>

theorem ramfs_failure_unchanged: "ram_apply op fs = Some (Err e, fs') \<Longrightarrow> fs' = fs"
  by (rule ram_apply_error)

theorem ramfs_failure_unchanged_example:
  "ram_apply (RRmdir ROOT_INODE ''a'') RamFs_new = Some (Err NotFound, RamFs_new) \<and> RamFs_new = RamFs_new"
proof -
  have "ram_apply (RRmdir ROOT_INODE ''a'') RamFs_new = Some (Err NotFound, RamFs_new)" by code_simp
  then show ?thesis using ramfs_failure_unchanged by blast
qed

text \<open>What is written is read back.  A successful write reports the length of its buffer, a read at the same
  offset returns the buffer, every byte outside the written range is the old one, a gap between the old end of the
  file and the offset reads as zero, and no other file changes.\<close>

theorem ramfs_write_read:
  assumes "fs_wf fs" "ram_write i off buf fs = (Ok n, fs')"
  shows "n = length buf \<and> ram_read i off (length buf) fs' = Ok buf \<and>
    (\<forall>q. unat q < unat off \<longrightarrow>
       ram_read i q 1 fs' = (if ram_read i q 1 fs = Ok [] then Ok [0] else ram_read i q 1 fs)) \<and>
    (\<forall>q k. unat off + length buf \<le> unat q \<longrightarrow> ram_read i q k fs' = ram_read i q k fs) \<and>
    (\<forall>j q k. j \<noteq> i \<longrightarrow> ram_read j q k fs' = ram_read j q k fs)"
proof (rule ram_write_Ok [OF assms])
  fix d assume d: "contents fs i = Some (AFile d)" and n: "n = length buf"
    and c: "contents fs' = (contents fs)(i := Some (AFile (written (unat off) buf d)))"
  have d': "contents fs' i = Some (AFile (written (unat off) buf d))" using c by simp
  note rd = ram_read_file [OF d] and rd' = ram_read_file [OF d']
  have "ram_read j q k fs' = ram_read j q k fs" if "j \<noteq> i" for j q k
    by (rule ram_read_cong) (use that c in simp)
  moreover have "ram_read i q 1 fs' = (if ram_read i q 1 fs = Ok [] then Ok [0] else ram_read i q 1 fs)"
    if "unat q < unat off" for q
    using drop_written(3) [OF that, of buf d] unfolding rd rd' by (auto simp: take_Suc hd_drop_conv_nth)
  ultimately show ?thesis using n by (auto simp: rd rd' drop_written)
qed

definition example_fs :: RamFs where
  "example_fs = \<lparr>nodes = [(1, new_node 1 (DirNode [(''a'', 2)]) 0x1ED), (2, new_node 1 (FileNode []) 0)], next_inode = 3\<rparr>"

lemma example_fs_wf: "fs_wf example_fs"
proof (rule ram_apply_Ok_wf [OF RamFs_new_wf])
  show "ram_apply (RCreate ROOT_INODE ''a'' Regular 0) RamFs_new = Some (Ok (), example_fs)"
    by (simp add: ram_create_def validate_name_def RamFs_new_def dir_entries_def new_node_def insert_child_def
        checked_add_def edit_dir_def bt_get_mut_def bt_get_def bt_contains_key_def bt_new_def example_fs_def ROOT_INODE_def)
qed

theorem ramfs_write_read_example:
  "\<exists>fs'. fs_wf example_fs \<and> ram_write 2 3 [7] example_fs = (Ok 1, fs') \<and>
    ram_read 2 3 1 fs' = Ok [7] \<and> ram_read 2 0 1 fs' = Ok [0]"
proof -
  obtain fs' where w: "ram_write 2 3 [7] example_fs = (Ok 1, fs')"
    by (simp add: ram_write_def example_fs_def new_node_def bt_get_def Let_def)
  have z: "ram_read 2 0 1 example_fs = Ok []" by (simp add: ram_read_def example_fs_def new_node_def bt_get_def)
  show ?thesis using ramfs_write_read [OF example_fs_wf w] example_fs_wf w z by (intro exI [of _ fs']) simp
qed

end
