(* ===== verification/Vfs.thy ===== *)
theory Vfs
  imports Ram_Fs
begin

text \<open>
  The virtual file system (\<open>fs/vfs.rs\<close>) and its bring-up (\<open>fs/mod.rs\<close>).  A driver is a record of the methods of
  the trait \<open>FileSystem\<close>, over the type \<open>'s\<close> of the driver's state.  An \<open>Arc<dyn FileSystem>\<close> is an address; the
  state keeps the mount table and the driver state behind every address, so two handles to one file system see
  each other's changes.  \<open>rename\<close> may not return in a driver, so the operations that call it return an option.
  Strings are byte strings; only the byte \<open>/\<close> is special in a path.
\<close>

section \<open>Types\<close>

record OpenFlags =
  fl_read :: bool
  fl_write :: bool
  fl_append :: bool
  fl_create :: bool
  fl_truncate :: bool
  fl_exclusive :: bool

definition read_only :: OpenFlags where
  "read_only = \<lparr>fl_read = True, fl_write = False, fl_append = False, fl_create = False, fl_truncate = False, fl_exclusive = False\<rparr>"

definition write_only :: OpenFlags where
  "write_only = \<lparr>fl_read = False, fl_write = True, fl_append = False, fl_create = False, fl_truncate = False, fl_exclusive = False\<rparr>"

definition read_write :: OpenFlags where
  "read_write = \<lparr>fl_read = True, fl_write = True, fl_append = False, fl_create = False, fl_truncate = False, fl_exclusive = False\<rparr>"

datatype SeekFrom = Start u64 | End "64 word" | Current "64 word"

record 's FileSystem =
  fs_name :: "'s \<Rightarrow> string"
  root_inode :: "'s \<Rightarrow> InodeNum"
  fs_metadata :: "InodeNum \<Rightarrow> 's \<Rightarrow> Metadata FsResult"
  fs_lookup :: "InodeNum \<Rightarrow> string \<Rightarrow> 's \<Rightarrow> InodeNum FsResult"
  fs_readdir :: "InodeNum \<Rightarrow> 's \<Rightarrow> DirEntry list FsResult"
  fs_read :: "InodeNum \<Rightarrow> u64 \<Rightarrow> nat \<Rightarrow> 's \<Rightarrow> u8 list FsResult"
  fs_write :: "InodeNum \<Rightarrow> u64 \<Rightarrow> u8 list \<Rightarrow> 's \<Rightarrow> nat FsResult \<times> 's"
  fs_create :: "InodeNum \<Rightarrow> string \<Rightarrow> FileType \<Rightarrow> Mode \<Rightarrow> 's \<Rightarrow> InodeNum FsResult \<times> 's"
  fs_unlink :: "InodeNum \<Rightarrow> string \<Rightarrow> 's \<Rightarrow> unit FsResult \<times> 's"
  fs_rmdir :: "InodeNum \<Rightarrow> string \<Rightarrow> 's \<Rightarrow> unit FsResult \<times> 's"
  fs_rename :: "InodeNum \<Rightarrow> string \<Rightarrow> InodeNum \<Rightarrow> string \<Rightarrow> 's \<Rightarrow> (unit FsResult \<times> 's) option"
  fs_truncate :: "InodeNum \<Rightarrow> u64 \<Rightarrow> 's \<Rightarrow> unit FsResult \<times> 's"
  fs_sync :: "'s \<Rightarrow> unit FsResult"
  fs_readlink :: "InodeNum \<Rightarrow> 's \<Rightarrow> string FsResult"
  fs_symlink :: "InodeNum \<Rightarrow> string \<Rightarrow> string \<Rightarrow> 's \<Rightarrow> InodeNum FsResult \<times> 's"

text \<open>The two methods the trait gives a default body.\<close>

definition default_readlink :: "InodeNum \<Rightarrow> 's \<Rightarrow> string FsResult" where
  "default_readlink inode s = Err Unsupported"

definition default_symlink :: "InodeNum \<Rightarrow> string \<Rightarrow> string \<Rightarrow> 's \<Rightarrow> InodeNum FsResult \<times> 's" where
  "default_symlink p nm target s = (Err Unsupported, s)"

definition RamFs_name :: "RamFs \<Rightarrow> string" where
  "RamFs_name fs = ''ramfs''"

definition RamFs_root_inode :: "RamFs \<Rightarrow> InodeNum" where
  "RamFs_root_inode fs = ROOT_INODE"

definition RamFs_driver :: "RamFs FileSystem" where
  "RamFs_driver = \<lparr>
    fs_name = RamFs_name, root_inode = RamFs_root_inode,
    fs_metadata = ram_metadata, fs_lookup = ram_lookup, fs_readdir = ram_readdir, fs_read = ram_read,
    fs_write = ram_write, fs_create = ram_create, fs_unlink = ram_unlink, fs_rmdir = ram_rmdir,
    fs_rename = ram_rename, fs_truncate = ram_truncate, fs_sync = ram_sync, fs_readlink = ram_readlink,
    fs_symlink = ram_symlink\<rparr>"

type_synonym fs_ref = nat

record MountEntry =
  mount_path :: string
  mount_fs :: fs_ref

record 's Vfs =
  mounts :: "MountEntry list"
  drivers :: "fs_ref \<Rightarrow> 's"

definition set_driver :: "fs_ref \<Rightarrow> 's \<Rightarrow> 's Vfs \<Rightarrow> 's Vfs" where
  "set_driver r s v = v\<lparr>drivers := (drivers v)(r := s)\<rparr>"

section \<open>Strings\<close>

definition starts_with :: "string \<Rightarrow> string \<Rightarrow> bool" where
  "starts_with s pre \<longleftrightarrow> take (length pre) s = pre"

definition trim_start_matches :: "char \<Rightarrow> string \<Rightarrow> string" where
  "trim_start_matches c s = dropWhile (\<lambda>x. x = c) s"

definition trim_end_matches :: "char \<Rightarrow> string \<Rightarrow> string" where
  "trim_end_matches c s = rev (dropWhile (\<lambda>x. x = c) (rev s))"

fun split_on :: "char \<Rightarrow> string \<Rightarrow> string list" where
  "split_on c [] = [[]]"
| "split_on c (x # xs) =
    (if x = c then [] # split_on c xs
     else case split_on c xs of [] \<Rightarrow> [[x]] | p # ps \<Rightarrow> (x # p) # ps)"

definition rsplit_once :: "char \<Rightarrow> string \<Rightarrow> (string \<times> string) option" where
  "rsplit_once c s =
    (if c \<in> set s
     then Some (rev (tl (dropWhile (\<lambda>x. x \<noteq> c) (rev s))), rev (takeWhile (\<lambda>x. x \<noteq> c) (rev s)))
     else None)"

fun max_by_key :: "('a \<Rightarrow> nat) \<Rightarrow> 'a list \<Rightarrow> 'a option" where
  "max_by_key f [] = None"
| "max_by_key f (x # xs) =
    (case max_by_key f xs of None \<Rightarrow> Some x | Some y \<Rightarrow> Some (if f x \<le> f y then y else x))"

section \<open>Path helpers\<close>

definition normalize_mount_path :: "string \<Rightarrow> string" where
  "normalize_mount_path p = (if p = ''/'' then ''/'' else trim_end_matches CHR ''/'' p)"

definition path_starts_with_mount :: "string \<Rightarrow> string \<Rightarrow> bool" where
  "path_starts_with_mount pth mnt =
    (if mnt = ''/'' then True
     else if \<not> starts_with pth mnt then False
     else let after = drop (length mnt) pth in after = [] \<or> starts_with after ''/'')"

definition split_parent :: "string \<Rightarrow> (string \<times> string) FsResult" where
  "split_parent pth =
    (if \<not> starts_with pth ''/'' then Err InvalidPath
     else
       let trimmed = trim_end_matches CHR ''/'' pth in
       if trimmed = [] then Err InvalidPath
       else case rsplit_once CHR ''/'' trimmed of
         None \<Rightarrow> Err InvalidPath
       | Some (par_path, nm) \<Rightarrow>
           if par_path = [] \<and> nm \<noteq> [] then Ok (''/'', nm)
           else if nm \<noteq> [] then Ok (par_path, nm)
           else Err InvalidPath)"

section \<open>The mount table\<close>

definition vfs_mount :: "string \<Rightarrow> fs_ref \<Rightarrow> 's Vfs \<Rightarrow> unit FsResult \<times> 's Vfs" where
  "vfs_mount mount_point r v =
    (if \<not> starts_with mount_point ''/'' then (Err InvalidPath, v)
     else
       let normalized = normalize_mount_path mount_point in
       if \<exists>m \<in> set (mounts v). mount_path m = normalized then (Err AlreadyExists, v)
       else (Ok (), v\<lparr>mounts := mounts v @ [\<lparr>mount_path = normalized, mount_fs = r\<rparr>]\<rparr>))"

fun remove_first :: "('a \<Rightarrow> bool) \<Rightarrow> 'a list \<Rightarrow> 'a list option" where
  "remove_first P [] = None"
| "remove_first P (x # xs) = (if P x then Some xs else map_option ((#) x) (remove_first P xs))"

definition vfs_unmount :: "string \<Rightarrow> 's Vfs \<Rightarrow> unit FsResult \<times> 's Vfs" where
  "vfs_unmount mount_point v =
    (let normalized = normalize_mount_path mount_point in
     case remove_first (\<lambda>m. mount_path m = normalized) (mounts v) of
       None \<Rightarrow> (Err NotFound, v)
     | Some ms \<Rightarrow> (Ok (), v\<lparr>mounts := ms\<rparr>))"

definition vfs_mounts :: "'s FileSystem \<Rightarrow> 's Vfs \<Rightarrow> (string \<times> string) list" where
  "vfs_mounts D v = map (\<lambda>m. (mount_path m, fs_name D (drivers v (mount_fs m)))) (mounts v)"

fun walk_components :: "'s FileSystem \<Rightarrow> 's \<Rightarrow> InodeNum \<Rightarrow> string list \<Rightarrow> InodeNum FsResult" where
  "walk_components D s cur [] = Ok cur"
| "walk_components D s cur (c # cs) =
    (if c = [] \<or> c = ''.'' then walk_components D s cur cs
     else case fs_lookup D cur c s of
       Inl e \<Rightarrow> Err e
     | Inr i \<Rightarrow> walk_components D s i cs)"

definition vfs_resolve :: "'s FileSystem \<Rightarrow> string \<Rightarrow> 's Vfs \<Rightarrow> (fs_ref \<times> InodeNum) FsResult" where
  "vfs_resolve D pth v =
    (if \<not> starts_with pth ''/'' then Err InvalidPath
     else
       case max_by_key (\<lambda>m. length (mount_path m)) (filter (\<lambda>m. path_starts_with_mount pth (mount_path m)) (mounts v)) of
         None \<Rightarrow> Err NotFound
       | Some en \<Rightarrow>
           let stripped = (if mount_path en = ''/'' then drop 1 pth else drop (length (mount_path en)) pth);
               rel = trim_start_matches CHR ''/'' stripped;
               s = drivers v (mount_fs en)
           in (case walk_components D s (root_inode D s) (split_on CHR ''/'' rel) of
                 Inl e \<Rightarrow> Err e
               | Inr i \<Rightarrow> Ok (mount_fs en, i)))"

section \<open>Operations on paths\<close>

record File =
  file_fs :: fs_ref
  file_inode :: InodeNum
  offset :: u64
  flags :: OpenFlags

text \<open>Call a driver operation that may change the driver's state.\<close>

definition on_driver :: "fs_ref \<Rightarrow> ('s \<Rightarrow> 'a \<times> 's) \<Rightarrow> 's Vfs \<Rightarrow> 'a \<times> 's Vfs" where
  "on_driver r f v = (case f (drivers v r) of (x, s) \<Rightarrow> (x, set_driver r s v))"

definition open_inode :: "'s FileSystem \<Rightarrow> string \<Rightarrow> OpenFlags \<Rightarrow> 's Vfs \<Rightarrow> (fs_ref \<times> InodeNum) FsResult \<times> 's Vfs" where
  "open_inode D pth fl v =
    (case vfs_resolve D pth v of
       Inr found \<Rightarrow> if fl_exclusive fl \<and> fl_create fl then (Err AlreadyExists, v) else (Ok found, v)
     | Inl e \<Rightarrow>
         if e = NotFound \<and> fl_create fl then
           (case split_parent pth of
              Inl e \<Rightarrow> (Err e, v)
            | Inr (parent_path, nm) \<Rightarrow>
                (case vfs_resolve D parent_path v of
                   Inl e \<Rightarrow> (Err e, v)
                 | Inr (r, parent_inode) \<Rightarrow>
                     (case on_driver r (fs_create D parent_inode nm Regular 0x1A4) v of
                        (Inl e, v) \<Rightarrow> (Err e, v)
                      | (Inr i, v) \<Rightarrow> (Ok (r, i), v))))
         else (Err e, v))"

definition vfs_open :: "'s FileSystem \<Rightarrow> string \<Rightarrow> OpenFlags \<Rightarrow> 's Vfs \<Rightarrow> File FsResult \<times> 's Vfs" where
  "vfs_open D pth fl v =
    (case open_inode D pth fl v of
       (Inl e, v) \<Rightarrow> (Err e, v)
     | (Inr (r, i), v) \<Rightarrow>
         (case (if fl_truncate fl \<and> fl_write fl then on_driver r (fs_truncate D i 0) v else (Ok (), v)) of
            (Inl e, v) \<Rightarrow> (Err e, v)
          | (Inr _, v) \<Rightarrow>
              (case (if fl_append fl then map_sum id md_size (fs_metadata D i (drivers v r)) else Ok 0) of
                 Inl e \<Rightarrow> (Err e, v)
               | Inr initial_offset \<Rightarrow>
                   (Ok \<lparr>file_fs = r, file_inode = i, offset = initial_offset, flags = fl\<rparr>, v))))"

definition vfs_at_parent ::
  "'s FileSystem \<Rightarrow> string \<Rightarrow> (InodeNum \<Rightarrow> string \<Rightarrow> 's \<Rightarrow> 'a FsResult \<times> 's) \<Rightarrow> 's Vfs \<Rightarrow> 'a FsResult \<times> 's Vfs" where
  "vfs_at_parent D pth f v =
    (case split_parent pth of
       Inl e \<Rightarrow> (Err e, v)
     | Inr (parent_path, nm) \<Rightarrow>
         (case vfs_resolve D parent_path v of
            Inl e \<Rightarrow> (Err e, v)
          | Inr (r, parent_inode) \<Rightarrow> on_driver r (f parent_inode nm) v))"

definition vfs_mkdir :: "'s FileSystem \<Rightarrow> string \<Rightarrow> Mode \<Rightarrow> 's Vfs \<Rightarrow> unit FsResult \<times> 's Vfs" where
  "vfs_mkdir D pth md v =
    (case vfs_at_parent D pth (\<lambda>p nm. fs_create D p nm Directory md) v of
       (Inl e, v) \<Rightarrow> (Err e, v)
     | (Inr _, v) \<Rightarrow> (Ok (), v))"

definition vfs_unlink :: "'s FileSystem \<Rightarrow> string \<Rightarrow> 's Vfs \<Rightarrow> unit FsResult \<times> 's Vfs" where
  "vfs_unlink D pth v = vfs_at_parent D pth (fs_unlink D) v"

definition vfs_rmdir :: "'s FileSystem \<Rightarrow> string \<Rightarrow> 's Vfs \<Rightarrow> unit FsResult \<times> 's Vfs" where
  "vfs_rmdir D pth v = vfs_at_parent D pth (fs_rmdir D) v"

definition vfs_metadata :: "'s FileSystem \<Rightarrow> string \<Rightarrow> 's Vfs \<Rightarrow> Metadata FsResult" where
  "vfs_metadata D pth v =
    (case vfs_resolve D pth v of Inl e \<Rightarrow> Err e | Inr (r, i) \<Rightarrow> fs_metadata D i (drivers v r))"

definition vfs_readdir :: "'s FileSystem \<Rightarrow> string \<Rightarrow> 's Vfs \<Rightarrow> DirEntry list FsResult" where
  "vfs_readdir D pth v =
    (case vfs_resolve D pth v of Inl e \<Rightarrow> Err e | Inr (r, i) \<Rightarrow> fs_readdir D i (drivers v r))"

definition vfs_rename :: "'s FileSystem \<Rightarrow> string \<Rightarrow> string \<Rightarrow> 's Vfs \<Rightarrow> (unit FsResult \<times> 's Vfs) option" where
  "vfs_rename D from_path to_path v =
    (case split_parent from_path of
       Inl e \<Rightarrow> Some (Err e, v)
     | Inr (from_parent_path, from_name) \<Rightarrow>
         (case split_parent to_path of
            Inl e \<Rightarrow> Some (Err e, v)
          | Inr (to_parent_path, to_name) \<Rightarrow>
              (case vfs_resolve D from_parent_path v of
                 Inl e \<Rightarrow> Some (Err e, v)
               | Inr (from_fs, from_parent) \<Rightarrow>
                   (case vfs_resolve D to_parent_path v of
                      Inl e \<Rightarrow> Some (Err e, v)
                    | Inr (to_fs, to_parent) \<Rightarrow>
                        if from_fs \<noteq> to_fs then Some (Err CrossDevice, v)
                        else (case fs_rename D from_parent from_name to_parent to_name (drivers v from_fs) of
                                None \<Rightarrow> None
                              | Some (res, s) \<Rightarrow> Some (res, set_driver from_fs s v))))))"

section \<open>Open files\<close>

text \<open>
  The position of an open file is behind its own lock and its descriptor is shared, so the operations that move
  it return the file with the new position.
\<close>

definition file_read :: "'s FileSystem \<Rightarrow> nat \<Rightarrow> File \<Rightarrow> 's Vfs \<Rightarrow> u8 list FsResult \<times> File" where
  "file_read D buf_len f v =
    (if \<not> fl_read (flags f) then (Err PermissionDenied, f)
     else case fs_read D (file_inode f) (offset f) buf_len (drivers v (file_fs f)) of
       Inl e \<Rightarrow> (Err e, f)
     | Inr bytes \<Rightarrow> (Ok bytes, f\<lparr>offset := offset f + of_nat (length bytes)\<rparr>))"

definition file_read_at :: "'s FileSystem \<Rightarrow> u64 \<Rightarrow> nat \<Rightarrow> File \<Rightarrow> 's Vfs \<Rightarrow> u8 list FsResult" where
  "file_read_at D off buf_len f v =
    (if \<not> fl_read (flags f) then Err PermissionDenied
     else fs_read D (file_inode f) off buf_len (drivers v (file_fs f)))"

definition file_write :: "'s FileSystem \<Rightarrow> u8 list \<Rightarrow> File \<Rightarrow> 's Vfs \<Rightarrow> nat FsResult \<times> File \<times> 's Vfs" where
  "file_write D buf f v =
    (if \<not> fl_write (flags f) then (Err PermissionDenied, f, v)
     else
       case (if fl_append (flags f) then map_sum id md_size (fs_metadata D (file_inode f) (drivers v (file_fs f)))
             else Ok (offset f)) of
         Inl e \<Rightarrow> (Err e, f, v)
       | Inr off \<Rightarrow>
           (case on_driver (file_fs f) (fs_write D (file_inode f) off buf) v of
              (Inl e, v) \<Rightarrow> (Err e, f\<lparr>offset := off\<rparr>, v)
            | (Inr n, v) \<Rightarrow> (Ok n, f\<lparr>offset := off + of_nat n\<rparr>, v)))"

definition file_write_at :: "'s FileSystem \<Rightarrow> u64 \<Rightarrow> u8 list \<Rightarrow> File \<Rightarrow> 's Vfs \<Rightarrow> nat FsResult \<times> 's Vfs" where
  "file_write_at D off buf f v =
    (if \<not> fl_write (flags f) then (Err PermissionDenied, v)
     else on_driver (file_fs f) (fs_write D (file_inode f) off buf) v)"

definition seek_to :: "int \<Rightarrow> u64 FsResult" where
  "seek_to n = (if n < 0 then Err InvalidOffset else Ok (word_of_int n))"

definition file_seek :: "'s FileSystem \<Rightarrow> SeekFrom \<Rightarrow> File \<Rightarrow> 's Vfs \<Rightarrow> u64 FsResult \<times> File" where
  "file_seek D pos f v =
    (case (case pos of
             Start p \<Rightarrow> Ok p
           | End d \<Rightarrow>
               (case fs_metadata D (file_inode f) (drivers v (file_fs f)) of
                  Inl e \<Rightarrow> Err e
                | Inr m \<Rightarrow> seek_to (uint (md_size m) + sint d))
           | Current d \<Rightarrow> seek_to (uint (offset f) + sint d)) of
       Inl e \<Rightarrow> (Err e, f)
     | Inr new \<Rightarrow> (Ok new, f\<lparr>offset := new\<rparr>))"

definition file_metadata :: "'s FileSystem \<Rightarrow> File \<Rightarrow> 's Vfs \<Rightarrow> Metadata FsResult" where
  "file_metadata D f v = fs_metadata D (file_inode f) (drivers v (file_fs f))"

definition file_truncate :: "'s FileSystem \<Rightarrow> u64 \<Rightarrow> File \<Rightarrow> 's Vfs \<Rightarrow> unit FsResult \<times> 's Vfs" where
  "file_truncate D sz f v =
    (if \<not> fl_write (flags f) then (Err PermissionDenied, v)
     else on_driver (file_fs f) (fs_truncate D (file_inode f) sz) v)"

definition file_sync :: "'s FileSystem \<Rightarrow> File \<Rightarrow> 's Vfs \<Rightarrow> unit FsResult" where
  "file_sync D f v = fs_sync D (drivers v (file_fs f))"

section \<open>Bring-up\<close>

text \<open>
  The static \<open>VFS\<close> with its \<open>INITIALIZED\<close> flag.  The address of the root file system is the one \<open>Arc::new\<close>
  returns.  \<open>None\<close> is a panic.
\<close>

record fs_statics =
  vfs :: "RamFs Vfs"
  initialized :: bool

definition vfs_new :: "(fs_ref \<Rightarrow> 's) \<Rightarrow> 's Vfs" where
  "vfs_new heap = \<lparr>mounts = [], drivers = heap\<rparr>"

definition SKELETON :: "(string \<times> Mode) list" where
  "SKELETON = [(''/dev'', 0x1ED), (''/proc'', 0x16D), (''/sys'', 0x16D), (''/tmp'', 0x3FF)]"

fun make_skeleton :: "(string \<times> Mode) list \<Rightarrow> RamFs Vfs \<Rightarrow> RamFs Vfs option" where
  "make_skeleton [] v = Some v"
| "make_skeleton ((pth, md) # ps) v =
    (case vfs_mkdir RamFs_driver pth md v of
       (Inl _, _) \<Rightarrow> None
     | (Inr _, v) \<Rightarrow> make_skeleton ps v)"

definition fs_init :: "fs_ref \<Rightarrow> fs_statics \<Rightarrow> fs_statics option" where
  "fs_init root st =
    (if initialized st then Some st
     else
       let st = st\<lparr>initialized := True\<rparr>;
           v = set_driver root RamFs_new (vfs st)
       in (case vfs_mount ''/'' root v of
             (Inl _, _) \<Rightarrow> None
           | (Inr _, v) \<Rightarrow>
               (case make_skeleton SKELETON v of
                  None \<Rightarrow> None
                | Some v \<Rightarrow> Some (st\<lparr>vfs := v\<rparr>))))"

definition is_initialized :: "fs_statics \<Rightarrow> bool" where
  "is_initialized st = initialized st"

section \<open>Canonical paths\<close>

text \<open>
  A path is canonical when it is the rendering of a list of names: \<open>/\<close> for the empty list, otherwise every name
  preceded by one slash.  On canonical paths the string operations are list operations on the names.
\<close>

definition name_ok :: "string \<Rightarrow> bool" where
  "name_ok n \<longleftrightarrow> validate_name n = Ok ()"

definition slashed :: "string list \<Rightarrow> string" where
  "slashed cs = concat (map (\<lambda>c. CHR ''/'' # c) cs)"

definition path_of :: "string list \<Rightarrow> string" where
  "path_of cs = (if cs = [] then ''/'' else slashed cs)"

lemma name_okD:
  assumes "name_ok n"
  shows "n \<noteq> []" "n \<noteq> ''.''" "n \<noteq> ''..''" "CHR ''/'' \<notin> set n"
  using assms by (auto simp: name_ok_def validate_name_def split: if_splits)

lemma slashed_simps [simp]: "slashed [] = []" "slashed (c # cs) = CHR ''/'' # c @ slashed cs"
  "slashed (cs @ ds) = slashed cs @ slashed ds"
  by (simp_all add: slashed_def)

definition open_end :: "string \<Rightarrow> bool" where
  "open_end s \<longleftrightarrow> s = [] \<or> starts_with s ''/''"

lemma starts_with_Cons [simp]: "starts_with (x # s) ''/'' \<longleftrightarrow> x = CHR ''/''" "\<not> starts_with [] ''/''"
  by (auto simp: starts_with_def)

lemma open_end_slashed: "open_end (slashed cs @ s) \<longleftrightarrow> cs \<noteq> [] \<or> open_end s"
  by (cases cs) (auto simp: open_end_def)

lemma takeWhile_name: "CHR ''/'' \<notin> set n \<Longrightarrow> open_end s \<Longrightarrow> takeWhile (\<lambda>x. x \<noteq> CHR ''/'') (n @ s) = n"
  by (cases s) (auto simp: takeWhile_append open_end_def takeWhile_eq_all_conv)

lemma name_split:
  assumes "m @ s = n @ t" "CHR ''/'' \<notin> set m" "CHR ''/'' \<notin> set n" "open_end s" "open_end t"
  shows "m = n" "s = t"
proof -
  show "m = n" using takeWhile_name [OF assms(2,4)] takeWhile_name [OF assms(3,5)] assms(1) by simp
  then show "s = t" using assms(1) by simp
qed

lemma slashed_prefix:
  assumes "list_all name_ok ms" "list_all name_ok cs" "slashed cs = slashed ms @ s" "open_end s"
  shows "prefix ms cs \<and> s = slashed (drop (length ms) cs)"
  using assms(1-3)
proof (induction ms arbitrary: cs)
  case (Cons m ms)
  then obtain c cs' where cs: "cs = c # cs'" by (cases cs) auto
  have "m @ slashed ms @ s = c @ slashed cs'" using Cons.prems(3) cs by simp
  moreover have "CHR ''/'' \<notin> set m" "CHR ''/'' \<notin> set c" using Cons.prems(1,2) cs name_okD(4) by auto
  moreover have "open_end (slashed ms @ s)" "open_end (slashed cs')"
    using assms(4) open_end_slashed [of ms s] open_end_slashed [of cs' "[]"] by (auto simp: open_end_def)
  ultimately have "m = c" "slashed cs' = slashed ms @ s" using name_split by metis+
  then show ?case using Cons.IH [of cs'] Cons.prems(1,2) cs by simp
qed simp

lemma slashed_inj: "list_all name_ok ms \<Longrightarrow> list_all name_ok cs \<Longrightarrow> slashed ms = slashed cs \<longleftrightarrow> ms = cs"
proof
  assume a: "list_all name_ok ms" "list_all name_ok cs" "slashed ms = slashed cs"
  have "open_end []" by (simp add: open_end_def)
  then have "prefix ms cs" "prefix cs ms" using slashed_prefix [of ms cs "[]"] slashed_prefix [of cs ms "[]"] a by auto
  then show "ms = cs" by (simp add: prefix_order.eq_iff)
qed simp

lemma slashed_not_root: "list_all name_ok cs \<Longrightarrow> slashed cs \<noteq> ''/''"
  by (cases cs) (auto dest: name_okD(1))

lemma path_of_eq: "list_all name_ok cs \<Longrightarrow> path_of cs = ''/'' \<longleftrightarrow> cs = []"
  using slashed_not_root by (auto simp: path_of_def)

lemma path_of_inj: "list_all name_ok ms \<Longrightarrow> list_all name_ok cs \<Longrightarrow> path_of ms = path_of cs \<longleftrightarrow> ms = cs"
  by (metis path_of_eq path_of_def slashed_inj)

lemma path_of_absolute [simp]: "starts_with (path_of cs) ''/''"
  by (cases cs) (auto simp: path_of_def)

lemma covers_iff:
  assumes "list_all name_ok ms" "list_all name_ok cs"
  shows "path_starts_with_mount (path_of cs) (path_of ms) \<longleftrightarrow> prefix ms cs"
proof (cases "ms = []")
  case True
  then show ?thesis by (simp add: path_starts_with_mount_def path_of_def)
next
  case ms: False
  then have m: "path_of ms = slashed ms" "slashed ms \<noteq> ''/''" using slashed_not_root [OF assms(1)] by (auto simp: path_of_def)
  show ?thesis
  proof
    assume "path_starts_with_mount (path_of cs) (path_of ms)"
    then have p: "path_of cs = slashed ms @ drop (length (slashed ms)) (path_of cs)"
      "open_end (drop (length (slashed ms)) (path_of cs))"
      using m by (auto simp: path_starts_with_mount_def starts_with_def open_end_def Let_def split: if_splits)
        (metis append_take_drop_id)+
    have "cs \<noteq> []"
    proof
      assume "cs = []"
      then show False using p(1) m ms name_okD(1) assms(1) by (cases ms) (auto simp: path_of_def)
    qed
    then show "prefix ms cs" using slashed_prefix [OF assms _ p(2)] p(1) by (simp add: path_of_def)
  next
    assume "prefix ms cs"
    then obtain ds where "cs = ms @ ds" by (auto simp: prefix_def)
    then show "path_starts_with_mount (path_of cs) (path_of ms)"
      using ms m by (cases ds) (auto simp: path_starts_with_mount_def path_of_def starts_with_def)
  qed
qed

definition components :: "string \<Rightarrow> string list" where
  "components s = filter (\<lambda>c. c \<noteq> [] \<and> c \<noteq> ''.'') (split_on CHR ''/'' s)"

lemma split_on_nonempty: "split_on c s \<noteq> []"
  by (cases s) (auto split: list.splits)

lemma split_on_append: "c \<notin> set n \<Longrightarrow> split_on c (n @ s) = (n @ hd (split_on c s)) # tl (split_on c s)"
proof (induction n)
  case Nil
  then show ?case using split_on_nonempty [of c s] by simp
qed (auto split: list.splits)

lemma components_slashed: "list_all name_ok cs \<Longrightarrow> components (slashed cs) = cs"
proof (induction cs)
  case (Cons c cs)
  then have "split_on CHR ''/'' (c @ slashed cs) = (c @ hd (split_on CHR ''/'' (slashed cs))) # tl (split_on CHR ''/'' (slashed cs))"
    using split_on_append name_okD(4) by auto
  moreover have "hd (split_on CHR ''/'' (slashed cs)) = []" by (cases cs) auto
  ultimately show ?case
    using Cons name_okD(1,2) [of c] split_on_nonempty [of "CHR ''/''" "slashed cs"]
    by (cases "split_on CHR ''/'' (slashed cs)") (auto simp: components_def)
qed (simp add: components_def)

lemma components_trim: "components (trim_start_matches CHR ''/'' s) = components s"
  by (induction s) (auto simp: components_def trim_start_matches_def)

lemma walk_components_eq: "walk_components D s i cs = walk_components D s i (filter (\<lambda>c. c \<noteq> [] \<and> c \<noteq> ''.'') cs)"
  by (induction cs arbitrary: i) (auto split: sum.split)

lemma split_parent_path:
  assumes "list_all name_ok ds" "name_ok n"
  shows "split_parent (path_of (ds @ [n])) = Ok (path_of ds, n)"
proof -
  note n = name_okD [OF assms(2)]
  let ?s = "slashed ds @ CHR ''/'' # n"
  have eq: "path_of (ds @ [n]) = ?s" by (simp add: path_of_def)
  have "rev ?s = rev n @ CHR ''/'' # rev (slashed ds)" by simp
  moreover obtain x xs where "rev n = x # xs" using n(1) by (cases "rev n") auto
  moreover have "x \<in> set n" using \<open>rev n = x # xs\<close> by (metis list.set_intros(1) set_rev)
  moreover have "x \<noteq> CHR ''/''" using \<open>x \<in> set n\<close> n(4) by auto
  ultimately have trim: "trim_end_matches CHR ''/'' ?s = ?s" by (simp add: trim_end_matches_def)
  have "takeWhile (\<lambda>x. x \<noteq> CHR ''/'') (rev n @ CHR ''/'' # rev (slashed ds)) = rev n"
    "dropWhile (\<lambda>x. x \<noteq> CHR ''/'') (rev n @ CHR ''/'' # rev (slashed ds)) = CHR ''/'' # rev (slashed ds)"
    using n(4) by (auto simp: takeWhile_append dropWhile_append takeWhile_eq_all_conv)
  then have "rsplit_once CHR ''/'' ?s = Some (slashed ds, n)" by (simp add: rsplit_once_def)
  moreover have "starts_with ?s ''/''" using path_of_absolute [of "ds @ [n]"] eq by simp
  ultimately show ?thesis using n(1) unfolding split_parent_def eq Let_def trim by (cases ds) (simp_all add: path_of_def)
qed

section \<open>Resolution picks the longest mount\<close>

lemma max_by_key_None: "max_by_key f xs = None \<longleftrightarrow> xs = []"
  by (cases xs) (auto split: option.splits)

lemma max_by_key_Some: "max_by_key f xs = Some y \<Longrightarrow> y \<in> set xs \<and> (\<forall>x \<in> set xs. f x \<le> f y)"
proof (induction xs arbitrary: y)
  case (Cons x xs)
  show ?case
  proof (cases "max_by_key f xs")
    case None
    then show ?thesis using Cons.prems max_by_key_None [of f xs] by simp
  next
    case (Some z)
    then show ?thesis using Cons.prems Cons.IH [OF Some] by (auto split: if_splits)
  qed
qed simp

text \<open>The mount table \<open>ms\<close> that a state represents: mount points as lists of names.\<close>

definition mounted :: "'s Vfs \<Rightarrow> (string list \<times> fs_ref) list \<Rightarrow> bool" where
  "mounted v ms \<longleftrightarrow>
    mounts v = map (\<lambda>(m, r). \<lparr>mount_path = path_of m, mount_fs = r\<rparr>) ms \<and>
    distinct (map fst ms) \<and> list_all (\<lambda>(m, _). list_all name_ok m) ms"

definition longest_mount :: "(string list \<times> fs_ref) list \<Rightarrow> string list \<Rightarrow> string list \<Rightarrow> fs_ref \<Rightarrow> bool" where
  "longest_mount ms cs m r \<longleftrightarrow>
    (m, r) \<in> set ms \<and> prefix m cs \<and> (\<forall>(m', r') \<in> set ms. prefix m' cs \<longrightarrow> length m' \<le> length m)"

lemma slashed_length: "list_all name_ok cs \<Longrightarrow> cs \<noteq> [] \<Longrightarrow> 1 < length (slashed cs)"
  by (cases cs) (auto dest: name_okD(1))

lemma path_length_mono:
  assumes "list_all name_ok (m @ ds)" "ds \<noteq> []"
  shows "length (path_of m) < length (path_of (m @ ds))"
  using slashed_length [of ds] slashed_length [of "m @ ds"] assms by (auto simp: path_of_def)

lemma mountedD:
  assumes "mounted v ms"
  shows "(m, r) \<in> set ms \<Longrightarrow> list_all name_ok m" "(m, r) \<in> set ms \<Longrightarrow> (m, r') \<in> set ms \<Longrightarrow> r' = r"
proof -
  show "(m, r) \<in> set ms \<Longrightarrow> list_all name_ok m" using assms by (auto simp: mounted_def list_all_iff)
  show "(m, r) \<in> set ms \<Longrightarrow> (m, r') \<in> set ms \<Longrightarrow> r' = r"
    using assms by (auto simp: mounted_def dest: eq_key_imp_eq_value)
qed

lemma mount_found:
  assumes v: "mounted v ms" and cs: "list_all name_ok cs" and l: "longest_mount ms cs m r"
  shows "max_by_key (\<lambda>m. length (mount_path m)) (filter (\<lambda>m. path_starts_with_mount (path_of cs) (mount_path m)) (mounts v)) =
    Some \<lparr>mount_path = path_of m, mount_fs = r\<rparr>"
proof -
  let ?key = "\<lambda>m. length (mount_path m)"
  let ?L = "filter (\<lambda>m. path_starts_with_mount (path_of cs) (mount_path m)) (mounts v)"
  have mem: "x \<in> set ?L \<longleftrightarrow> (\<exists>m' r'. (m', r') \<in> set ms \<and> prefix m' cs \<and> x = \<lparr>mount_path = path_of m', mount_fs = r'\<rparr>)" for x
    using v mountedD(1) [OF v] covers_iff [OF _ cs] unfolding mounted_def by fastforce
  have m: "(m, r) \<in> set ms" "prefix m cs" using l by (auto simp: longest_mount_def)
  then have "?L \<noteq> []" using mem by (metis list.set_intros(1) neq_Nil_conv set_empty empty_iff)
  then obtain y where y: "max_by_key ?key ?L = Some y"
    using max_by_key_None [of ?key ?L] by (cases "max_by_key ?key ?L") blast+
  note ymax = max_by_key_Some [OF y]
  then obtain m1 r1 where m1: "(m1, r1) \<in> set ms" "prefix m1 cs" "y = \<lparr>mount_path = path_of m1, mount_fs = r1\<rparr>" using mem by blast
  have le: "length (path_of m) \<le> length (path_of m1)" using ymax m m1(3) mem by fastforce
  have "length m1 \<le> length m" using l m1 unfolding longest_mount_def by blast
  then have "prefix m1 m" using m(2) m1(2) prefix_length_prefix by blast
  then obtain ds where ds: "m = m1 @ ds" by (auto simp: prefix_def)
  then have "ds = []" using path_length_mono [of m1 ds] le mountedD(1) [OF v m(1)] by force
  then have "m1 = m" using ds by simp
  then have "r1 = r" using mountedD(2) [OF v m(1)] m1(1) by blast
  then show ?thesis using y m1(3) \<open>m1 = m\<close> by simp
qed

lemma resolve_path:
  assumes v: "mounted v ms" and cs: "list_all name_ok cs" and l: "longest_mount ms cs m r"
  shows "vfs_resolve D (path_of cs) v =
    map_sum id (Pair r) (walk_components D (drivers v r) (root_inode D (drivers v r)) (drop (length m) cs))"
proof -
  obtain ds where ds: "cs = m @ ds" using l by (auto simp: longest_mount_def prefix_def)
  have m: "list_all name_ok m" "list_all name_ok ds" using cs ds by auto
  have d1: "drop (length (path_of m)) (path_of cs) = slashed ds" if "m \<noteq> []"
    using that by (simp add: path_of_def ds)
  have d2: "components (drop 1 (path_of cs)) = ds" if "m = []"
    using that components_slashed [OF m(2)] by (cases ds) (auto simp: path_of_def ds components_def)
  have comp: "components (if path_of m = ''/'' then drop 1 (path_of cs) else drop (length (path_of m)) (path_of cs)) = ds"
    using path_of_eq [OF m(1)] d1 d2 components_slashed [OF m(2)] by auto
  have ok: "filter (\<lambda>c. c \<noteq> [] \<and> c \<noteq> ''.'') (split_on CHR ''/'' (trim_start_matches CHR ''/''
      (if path_of m = ''/'' then drop 1 (path_of cs) else drop (length (path_of m)) (path_of cs)))) = ds"
    using comp components_trim unfolding components_def by simp
  have dr: "drop (length m) cs = ds" by (simp add: ds)
  have w: "walk_components D s i (split_on CHR ''/'' (trim_start_matches CHR ''/''
      (if path_of m = ''/'' then drop 1 (path_of cs) else drop (length (path_of m)) (path_of cs)))) =
    walk_components D s i (drop (length m) cs)" for s i
    by (subst walk_components_eq) (simp only: ok dr)
  show ?thesis
    unfolding vfs_resolve_def mount_found [OF v cs l] Let_def option.case MountEntry.simps w
    by (simp split: sum.split)
qed

lemma resolve_no_mount:
  assumes "mounted v ms" "list_all name_ok cs" "\<And>m r. (m, r) \<in> set ms \<Longrightarrow> \<not> prefix m cs"
  shows "vfs_resolve D (path_of cs) v = Err NotFound"
proof -
  have "filter (\<lambda>m. path_starts_with_mount (path_of cs) (mount_path m)) (mounts v) = []"
    using assms covers_iff [OF mountedD(1) [OF assms(1)] assms(2)] by (auto simp: mounted_def filter_empty_conv)
  then show ?thesis by (simp add: vfs_resolve_def)
qed

section \<open>The driver contract\<close>

text \<open>
  What the VFS relies on.  \<open>child\<close> are the directory entries, \<open>data\<close> the contents of the regular files, \<open>dir\<close> the
  directories; \<open>room\<close> says a file can still be created.  The names passed down are valid names.
\<close>

locale file_system =
  fixes D :: "'s FileSystem" and inv room :: "'s \<Rightarrow> bool" and dir :: "'s \<Rightarrow> InodeNum \<Rightarrow> bool"
    and data :: "'s \<Rightarrow> InodeNum \<Rightarrow> u8 list option" and child :: "'s \<Rightarrow> (InodeNum, string) edges"
  assumes tree_edges: "inv s \<Longrightarrow> \<exists>up. edges_ok (child s) up (root_inode D s)"
    and lookup_child: "inv s \<Longrightarrow> name_ok n \<Longrightarrow> child s i n = Some j \<Longrightarrow> fs_lookup D i n s = Ok j"
    and lookup_missing: "inv s \<Longrightarrow> name_ok n \<Longrightarrow> dir s i \<Longrightarrow> child s i n = None \<Longrightarrow> fs_lookup D i n s = Err NotFound"
    and create_file: "inv s \<Longrightarrow> room s \<Longrightarrow> dir s p \<Longrightarrow> name_ok n \<Longrightarrow> child s p n = None \<Longrightarrow>
      \<exists>j s'. fs_create D p n Regular md s = (Ok j, s') \<and> inv s' \<and> root_inode D s' = root_inode D s \<and>
        child s' = upd p n (Some j) (child s) \<and> data s' = (data s)(j := Some [])"
    and write_file: "inv s \<Longrightarrow> data s i = Some d \<Longrightarrow> unat off + length buf < 2 ^ 64 \<Longrightarrow>
      \<exists>s'. fs_write D i off buf s = (Ok (length buf), s') \<and> inv s' \<and> root_inode D s' = root_inode D s \<and>
        child s' = child s \<and> data s' = (data s)(i := Some (written (unat off) buf d))"
    and truncate_file: "inv s \<Longrightarrow> data s i = Some d \<Longrightarrow>
      \<exists>s'. fs_truncate D i sz s = (Ok (), s') \<and> inv s' \<and> root_inode D s' = root_inode D s \<and>
        child s' = child s \<and> data s' = (data s)(i := Some (resize (unat sz) 0 d))"
    and read_file: "inv s \<Longrightarrow> data s i = Some d \<Longrightarrow> fs_read D i off k s = Ok (take k (drop (unat off) d))"
    and size_file: "inv s \<Longrightarrow> data s i = Some d \<Longrightarrow> \<exists>m. fs_metadata D i s = Ok m \<and> md_size m = of_nat (length d)"
begin

lemma walk_child:
  "inv s \<Longrightarrow> list_all name_ok cs \<Longrightarrow> walk (child s) i cs = Some j \<Longrightarrow> walk_components D s i cs = Ok j"
proof (induction cs arbitrary: i)
  case (Cons c cs)
  then obtain k where "child s i c = Some k" "walk (child s) k cs = Some j" by (auto split: option.splits)
  then show ?case using Cons lookup_child [of s c i k] name_okD(1,2) [of c] by simp
qed simp

lemma walk_components_append:
  "walk_components D s i (cs @ ds) =
    (case walk_components D s i cs of Inl e \<Rightarrow> Err e | Inr j \<Rightarrow> walk_components D s j ds)"
  by (induction cs arbitrary: i) (auto split: sum.split)

lemma open_existing:
  assumes "vfs_resolve D pth v = Ok (r, i)" "\<not> fl_exclusive fl" "inv (drivers v r)" "data (drivers v r) i = Some d"
    "fl_truncate fl" "fl_write fl" "\<not> fl_append fl"
  obtains s where "vfs_open D pth fl v = (Ok \<lparr>file_fs = r, file_inode = i, offset = 0, flags = fl\<rparr>, set_driver r s v)"
    "inv s" "root_inode D s = root_inode D (drivers v r)" "child s = child (drivers v r)"
    "data s = (data (drivers v r))(i := Some [])"
proof -
  obtain s where s: "fs_truncate D i 0 (drivers v r) = (Ok (), s)" "inv s" "root_inode D s = root_inode D (drivers v r)"
    "child s = child (drivers v r)" "data s = (data (drivers v r))(i := Some (resize (unat (0 :: u64)) 0 d))"
    using truncate_file [OF assms(3,4), of 0] by blast
  show ?thesis
    by (rule that [OF _ s(2-4)]) (use s assms in \<open>simp_all add: vfs_open_def open_inode_def on_driver_def resize_def\<close>)
qed

lemma open_created:
  assumes "vfs_resolve D pth v = Err NotFound" "split_parent pth = Ok (pp, n)" "vfs_resolve D pp v = Ok (r, p)"
    and "inv (drivers v r)" "room (drivers v r)" "dir (drivers v r) p" "name_ok n" "child (drivers v r) p n = None"
    and fl: "fl_create fl" "fl_truncate fl" "fl_write fl" "\<not> fl_append fl"
  obtains i s where "vfs_open D pth fl v = (Ok \<lparr>file_fs = r, file_inode = i, offset = 0, flags = fl\<rparr>, set_driver r s v)"
    "inv s" "root_inode D s = root_inode D (drivers v r)" "child s = upd p n (Some i) (child (drivers v r))"
    "data s = (data (drivers v r))(i := Some [])"
proof -
  obtain i s where s: "fs_create D p n Regular 0x1A4 (drivers v r) = (Ok i, s)" "inv s"
    "root_inode D s = root_inode D (drivers v r)" "child s = upd p n (Some i) (child (drivers v r))"
    "data s = (data (drivers v r))(i := Some [])"
    using create_file [OF assms(4-8)] by blast
  have fi: "data s i = Some []" using s(5) by simp
  obtain s' where s': "fs_truncate D i 0 s = (Ok (), s')" "inv s'" "root_inode D s' = root_inode D s"
    "child s' = child s" "data s' = (data s)(i := Some (resize (unat (0 :: u64)) 0 []))"
    using truncate_file [OF s(2) fi, of 0] by blast
  show ?thesis
    by (rule that [of i s'])
      (use s s' assms in \<open>simp_all add: vfs_open_def open_inode_def on_driver_def set_driver_def resize_def\<close>)
qed

text \<open>Writing through a fresh handle at offset zero of an empty file, then reading through another one.\<close>

lemma write_then_read:
  assumes "inv s" "data s i = Some []" "length buf < 2 ^ 64" "length buf \<le> k"
    and f: "file_fs f = r" "file_inode f = i" "offset f = 0" "fl_write (flags f)" "\<not> fl_append (flags f)"
  obtains s' where "file_write D buf f (set_driver r s v) =
      (Ok (length buf), f\<lparr>offset := of_nat (length buf)\<rparr>, set_driver r s' v)"
    "inv s'" "root_inode D s' = root_inode D s" "child s' = child s"
    "fs_read D i 0 k s' = Ok buf"
proof -
  have fit: "unat (0 :: u64) + length buf < 2 ^ 64" using assms(3) by simp
  obtain s' where s': "fs_write D i 0 buf s = (Ok (length buf), s')" "inv s'" "root_inode D s' = root_inode D s"
    "child s' = child s" "data s' = (data s)(i := Some (written (unat (0 :: u64)) buf []))"
    using write_file [OF assms(1,2) fit] by blast
  have fi: "data s' i = Some buf" using s'(5) by (simp add: written_split)
  show ?thesis
    by (rule that [OF _ s'(2-4)])
      (use s' f read_file [OF s'(2) fi, of 0 k] assms(4) in \<open>simp_all add: file_write_def on_driver_def set_driver_def\<close>)
qed

lemma resolve_child:
  assumes "mounted v ms" "list_all name_ok cs" "longest_mount ms cs m r" "inv (drivers v r)"
    and "walk (child (drivers v r)) (root_inode D (drivers v r)) (drop (length m) cs) = Some i"
  shows "vfs_resolve D (path_of cs) v = Ok (r, i)"
proof -
  have "list_all name_ok (drop (length m) cs)" using assms(2) by (auto simp: list_all_iff dest: in_set_dropD)
  then show ?thesis using resolve_path [OF assms(1-3)] walk_child [OF assms(4)] assms(5) by simp
qed

lemma resolve_missing:
  assumes v: "mounted v ms" and l: "longest_mount ms (ds @ [n]) m r" "prefix m ds" and ok: "list_all name_ok ds" "name_ok n"
    and s: "inv (drivers v r)" "dir (drivers v r) p" "child (drivers v r) p n = None"
    and w: "walk (child (drivers v r)) (root_inode D (drivers v r)) (drop (length m) ds) = Some p"
  shows "vfs_resolve D (path_of (ds @ [n])) v = Err NotFound"
proof -
  have "list_all name_ok (drop (length m) ds)" using ok(1) by (auto simp: list_all_iff dest: in_set_dropD)
  then have "walk_components D (drivers v r) (root_inode D (drivers v r)) (drop (length m) ds @ [n]) = Err NotFound"
    using walk_child [OF s(1) _ w] lookup_missing [OF s(1) ok(2) s(2,3)] name_okD(1,2) [OF ok(2)]
    by (simp add: walk_components_append)
  moreover have "drop (length m) (ds @ [n]) = drop (length m) ds @ [n]" using prefix_length_le [OF l(2)] by simp
  ultimately show ?thesis using resolve_path [OF v _ l(1)] ok by simp
qed

lemma open_for_writing:
  assumes v: "mounted v ms" and l: "longest_mount ms (ds @ [n]) m r" "prefix m ds" and ok: "list_all name_ok ds" "name_ok n"
    and s: "inv (drivers v r)" "room (drivers v r)" "dir (drivers v r) p"
    and w: "walk (child (drivers v r)) (root_inode D (drivers v r)) (drop (length m) ds) = Some p"
    and free: "\<And>i. child (drivers v r) p n = Some i \<Longrightarrow> data (drivers v r) i \<noteq> None"
    and fl: "fl_create fl" "fl_truncate fl" "fl_write fl" "\<not> fl_append fl" "\<not> fl_exclusive fl"
  obtains i s where "vfs_open D (path_of (ds @ [n])) fl v = (Ok \<lparr>file_fs = r, file_inode = i, offset = 0, flags = fl\<rparr>, set_driver r s v)"
    "inv s" "data s i = Some []" "walk (child s) (root_inode D s) (drop (length m) (ds @ [n])) = Some i"
proof -
  let ?s = "drivers v r"
  have dr: "drop (length m) (ds @ [n]) = drop (length m) ds @ [n]" using prefix_length_le [OF l(2)] by simp
  have lp: "longest_mount ms ds m r" using l by (auto simp: longest_mount_def intro: prefix_prefix)
  show ?thesis
  proof (cases "child ?s p n")
    case None
    obtain i s where s': "vfs_open D (path_of (ds @ [n])) fl v = (Ok \<lparr>file_fs = r, file_inode = i, offset = 0, flags = fl\<rparr>, set_driver r s v)"
      "inv s" "root_inode D s = root_inode D ?s" "child s = upd p n (Some i) (child ?s)" "data s = (data ?s)(i := Some [])"
      by (rule open_created [OF resolve_missing [OF v l ok s(1,3) None w] split_parent_path [OF ok]
            resolve_child [OF v ok(1) lp s(1) w] s ok(2) None fl(1-4)])
    obtain up where "edges_ok (child ?s) up (root_inode D ?s)" using tree_edges [OF s(1)] by blast
    then have "walk (child s) (root_inode D s) (drop (length m) ds) = Some p"
      using walk_upd_other [of _ up _ "drop (length m) ds" p n "drop (length m) ds"] w s'(3,4) by simp
    then have "walk (child s) (root_inode D s) (drop (length m) (ds @ [n])) = Some i"
      unfolding dr by (simp add: walk_snoc s'(4) upd_apply)
    then show ?thesis using that [OF s'(1,2)] s'(5) by simp
  next
    case (Some i)
    then have wi: "walk (child ?s) (root_inode D ?s) (drop (length m) (ds @ [n])) = Some i" using w unfolding dr by (simp add: walk_snoc)
    obtain d where d: "data ?s i = Some d" using free [OF Some] by blast
    have "list_all name_ok (ds @ [n])" using ok by simp
    from open_existing [OF resolve_child [OF v this l(1) s(1) wi] fl(5) s(1) d fl(2-4)] that wi
    show ?thesis by (metis fun_upd_same)
  qed
qed

lemma create_write_read:
  assumes v: "mounted v ms" and l: "longest_mount ms (ds @ [n]) m r" "prefix m ds" and ok: "list_all name_ok ds" "name_ok n"
    and s: "inv (drivers v r)" "room (drivers v r)" "dir (drivers v r) p"
    and w: "walk (child (drivers v r)) (root_inode D (drivers v r)) (drop (length m) ds) = Some p"
    and free: "\<And>i. child (drivers v r) p n = Some i \<Longrightarrow> data (drivers v r) i \<noteq> None"
    and fl: "fl_create fl" "fl_truncate fl" "fl_write fl" "\<not> fl_append fl" "\<not> fl_exclusive fl"
    and buf: "length buf < 2 ^ 64" "length buf \<le> k"
  shows "\<exists>f v1 f' v2 g. vfs_open D (path_of (ds @ [n])) fl v = (Ok f, v1) \<and>
    file_write D buf f v1 = (Ok (length buf), f', v2) \<and>
    vfs_open D (path_of (ds @ [n])) read_only v2 = (Ok g, v2) \<and> fst (file_read D k g v2) = Ok buf"
proof -
  obtain i s1 where o: "vfs_open D (path_of (ds @ [n])) fl v =
      (Ok \<lparr>file_fs = r, file_inode = i, offset = 0, flags = fl\<rparr>, set_driver r s1 v)"
    "inv s1" "data s1 i = Some []" "walk (child s1) (root_inode D s1) (drop (length m) (ds @ [n])) = Some i"
    by (rule open_for_writing [OF v l ok s w free fl])
  let ?f = "\<lparr>file_fs = r, file_inode = i, offset = 0, flags = fl\<rparr>"
  obtain s2 where wr: "file_write D buf ?f (set_driver r s1 v) =
      (Ok (length buf), ?f\<lparr>offset := of_nat (length buf)\<rparr>, set_driver r s2 v)"
    "inv s2" "root_inode D s2 = root_inode D s1" "child s2 = child s1" "fs_read D i 0 k s2 = Ok buf"
    by (rule write_then_read [OF o(2,3) buf, of ?f r]) (use fl in simp_all)
  let ?v2 = "set_driver r s2 v"
  have d2: "drivers ?v2 r = s2" by (simp add: set_driver_def)
  have "mounted ?v2 ms" using v by (simp add: mounted_def set_driver_def)
  moreover have "list_all name_ok (ds @ [n])" using ok by simp
  ultimately have "vfs_resolve D (path_of (ds @ [n])) ?v2 = Ok (r, i)"
    by (rule resolve_child [OF _ _ l(1)]) (use o(4) wr in \<open>simp_all add: d2\<close>)
  then have "vfs_open D (path_of (ds @ [n])) read_only ?v2 =
      (Ok \<lparr>file_fs = r, file_inode = i, offset = 0, flags = read_only\<rparr>, ?v2)"
    by (simp add: vfs_open_def open_inode_def read_only_def)
  moreover have "fst (file_read D k \<lparr>file_fs = r, file_inode = i, offset = 0, flags = read_only\<rparr> ?v2) = Ok buf"
    using wr(5) by (simp add: file_read_def read_only_def d2)
  ultimately show ?thesis using o(1) wr(1) by blast
qed

end

section \<open>RamFs fulfils the contract\<close>

definition file_data :: "RamFs \<Rightarrow> InodeNum \<Rightarrow> u8 list option" where
  "file_data fs i = (case contents fs i of Some (AFile d) \<Rightarrow> Some d | _ \<Rightarrow> None)"

definition inodes_left :: "RamFs \<Rightarrow> bool" where
  "inodes_left fs \<longleftrightarrow> unat (next_inode fs) + 1 < 2 ^ 64"

lemma file_data_Some: "file_data fs i = Some d \<longleftrightarrow> contents fs i = Some (AFile d)"
  by (auto simp: file_data_def split: option.splits content.splits)

lemma file_data_upd: "contents fs' = (contents fs)(i := Some (AFile d)) \<Longrightarrow> file_data fs' = (file_data fs)(i := Some d)"
  by (rule ext) (simp add: file_data_def)

lemma ram_lookup_eq:
  assumes "name_ok n"
  shows "ram_lookup i n fs =
    (if contents fs i = None then Err NotFound else if contents fs i \<noteq> Some ADir then Err NotADirectory
     else case entry fs i n of None \<Rightarrow> Err NotFound | Some j \<Rightarrow> Ok j)"
  using name_okD(2,3) [OF assms]
  by (cases "get_node i fs") (auto simp: ram_lookup_def contents_def entry_def dir_entries_def split: NodeKind.splits option.splits)

lemma ram_file_ok:
  assumes "contents fs i = Some (AFile d)"
  shows "unat off + length buf < 2 ^ 64 \<Longrightarrow> \<exists>fs'. ram_write i off buf fs = (Ok (length buf), fs')"
    "\<exists>fs'. ram_truncate i sz fs = (Ok (), fs')"
    "\<exists>m. ram_metadata i fs = Ok m \<and> md_size m = of_nat (length d)"
  using assms by (auto simp: contents_def ram_write_def ram_truncate_def ram_metadata_def Let_def
      elim!: content_of.elims split: NodeKind.splits)

lemma ram_create_file:
  assumes "fs_wf fs" "inodes_left fs" "contents fs p = Some ADir" "name_ok n" "entry fs p n = None"
  obtains j fs' where "ram_create p n Regular md fs = (Ok j, fs')" "fs_wf fs'" "entry fs' = upd p n (Some j) (entry fs)"
    "contents fs' = (contents fs)(j := Some (AFile []))"
proof -
  have n: "validate_name n = Ok ()" using assms(4) by (simp add: name_ok_def)
  have eq: "ram_create p n Regular md fs = insert_child p n (FileNode []) md fs"
    using assms(3,5) n by (simp add: ram_create_link_new link_new_def)
  obtain r fs' where r: "insert_child p n (FileNode []) md fs = (r, fs')" by fastforce
  then obtain j where j: "r = Ok j"
    using insert_child_Err [of p n "FileNode []" md fs _ fs'] assms(2) by (cases r) (auto simp: inodes_left_def)
  note v = insert_child_view [OF assms(1,3,5) n _ r [unfolded j]]
  show ?thesis by (rule that [of j fs']) (use v r j eq in simp_all)
qed

lemma driver_simps [simp]:
  "fs_lookup RamFs_driver = ram_lookup" "fs_create RamFs_driver = ram_create" "fs_write RamFs_driver = ram_write"
  "fs_truncate RamFs_driver = ram_truncate" "fs_read RamFs_driver = ram_read" "fs_metadata RamFs_driver = ram_metadata"
  "root_inode RamFs_driver fs = ROOT_INODE"
  by (simp_all add: RamFs_driver_def RamFs_root_inode_def)

interpretation ram: file_system RamFs_driver fs_wf inodes_left "\<lambda>s i. contents s i = Some ADir" file_data entry
proof (unfold_locales, goal_cases)
  case (1 s)
  then show ?case using tree_wfD(3) [OF fs_wfD(1)] by auto
next
  case (2 s n i j)
  then show ?case using ram_lookup_eq [of n i s] tree_wfD(4) [OF fs_wfD(1) [OF 2(1)]] by simp
next
  case (3 s n i)
  then show ?case using ram_lookup_eq [of n i s] by simp
next
  case (4 s p n md)
  then obtain j fs' where "ram_create p n Regular md s = (Ok j, fs')" "fs_wf fs'" "entry fs' = upd p n (Some j) (entry s)"
    "contents fs' = (contents s)(j := Some (AFile []))" by (rule ram_create_file)
  then show ?case by (auto simp: file_data_upd)
next
  case (5 s i d off buf)
  have d: "contents s i = Some (AFile d)" using 5(2) by (simp add: file_data_Some)
  obtain fs' where r: "ram_write i off buf s = (Ok (length buf), fs')" using ram_file_ok(1) [OF d 5(3)] ..
  then show ?case by (rule ram_write_Ok [OF 5(1)]) (use r d in \<open>auto simp: file_data_upd\<close>)
next
  case (6 s i d sz)
  have d: "contents s i = Some (AFile d)" using 6(2) by (simp add: file_data_Some)
  obtain fs' where r: "ram_truncate i sz s = (Ok (), fs')" using ram_file_ok(2) [OF d] ..
  then show ?case by (rule ram_truncate_Ok [OF 6(1)]) (use r d in \<open>auto simp: file_data_upd\<close>)
next
  case (7 s i d off k)
  then show ?case by (simp add: file_data_Some ram_read_file)
next
  case (8 s i d)
  then show ?case using ram_file_ok(3) by (simp add: file_data_Some)
qed

section \<open>Properties\<close>

definition lookup_error :: "RamFs \<Rightarrow> InodeNum \<Rightarrow> string list \<Rightarrow> FsError" where
  "lookup_error fs i cs =
    (if \<exists>k < length cs. \<exists>j. walk (entry fs) i (take k cs) = Some j \<and> contents fs j \<noteq> Some ADir
     then NotADirectory else NotFound)"

lemma lookup_error_Cons:
  assumes "entry fs i c = Some j" "contents fs i = Some ADir"
  shows "lookup_error fs i (c # cs) = lookup_error fs j cs"
proof -
  have "(\<exists>k < length (c # cs). \<exists>x. walk (entry fs) i (take k (c # cs)) = Some x \<and> contents fs x \<noteq> Some ADir) \<longleftrightarrow>
    (\<exists>k < length cs. \<exists>x. walk (entry fs) j (take k cs) = Some x \<and> contents fs x \<noteq> Some ADir)" (is "?L \<longleftrightarrow> ?R")
  proof
    assume ?L
    then obtain k x where k: "k < length (c # cs)" "walk (entry fs) i (take k (c # cs)) = Some x" "contents fs x \<noteq> Some ADir" by blast
    then obtain k' where "k = Suc k'" using assms(2) by (cases k) auto
    then show ?R using k assms(1) by auto
  next
    assume ?R
    then obtain k x where k: "k < length cs" "walk (entry fs) j (take k cs) = Some x" "contents fs x \<noteq> Some ADir" by blast
    then show ?L using assms(1) by (intro exI [of _ "Suc k"]) auto
  qed
  then show ?thesis unfolding lookup_error_def by simp
qed

lemma ram_walk:
  assumes "fs_wf fs"
  shows "list_all name_ok cs \<Longrightarrow> contents fs i \<noteq> None \<Longrightarrow> walk_components RamFs_driver fs i cs =
    (case walk (entry fs) i cs of Some j \<Rightarrow> Ok j | None \<Rightarrow> Err (lookup_error fs i cs))"
proof (induction cs arbitrary: i)
  case (Cons c cs)
  have c: "name_ok c" using Cons.prems(1) by simp
  note L = ram_lookup_eq [OF c, of i fs] and ne = name_okD(1,2) [OF c]
  note T = tree_wfD [OF fs_wfD(1) [OF assms]]
  show ?case
  proof (cases "contents fs i = Some ADir")
    case False
    then have "entry fs i c = None" by (rule entry_None)
    moreover have "lookup_error fs i (c # cs) = NotADirectory"
      unfolding lookup_error_def using False by (auto intro: exI [of _ 0])
    ultimately show ?thesis using False Cons.prems(2) L ne by simp
  next
    case d: True
    show ?thesis
    proof (cases "entry fs i c")
      case None
      then have "\<not> (\<exists>k < length (c # cs). \<exists>j. walk (entry fs) i (take k (c # cs)) = Some j \<and> contents fs j \<noteq> Some ADir)"
        using d by (auto simp: take_Cons split: nat.splits)
      then show ?thesis using None d L ne by (simp add: lookup_error_def)
    next
      case (Some j)
      then have "ram_lookup i c fs = Ok j" using d L by simp
      then show ?thesis using Cons.IH [of j] Cons.prems(1) T(5) [OF Some] ne Some lookup_error_Cons [OF Some d, of cs]
        by (auto split: option.split)
    qed
  qed
qed simp

definition example_vfs :: "RamFs Vfs" where
  "example_vfs = \<lparr>mounts = [\<lparr>mount_path = ''/'', mount_fs = 0\<rparr>, \<lparr>mount_path = ''/mnt'', mount_fs = 1\<rparr>],
    drivers = (\<lambda>r. if r = 0 then RamFs_new else example_fs)\<rparr>"

lemma example_mounted: "mounted example_vfs [([], 0), ([''mnt''], 1)]"
  by (simp add: mounted_def example_vfs_def path_of_def name_ok_def validate_name_def)

lemma example_longest: "longest_mount [([], 0), ([''mnt''], 1)] [''mnt'', ''a''] [''mnt''] 1"
  "longest_mount [([], 0), ([''mnt''], 1)] [''b''] [] 0"
  by (auto simp: longest_mount_def)

lemma example_drivers [simp]: "drivers example_vfs (Suc 0) = example_fs" "drivers example_vfs 0 = RamFs_new"
  by (simp_all add: example_vfs_def)

text \<open>C19: a canonical path resolves in the file system of the longest mount point that is a prefix of its names,
  to the inode the remaining names lead to; otherwise the error is \<open>NotADirectory\<close> if the names pass through a
  file or a link and \<open>NotFound\<close> if not.  Without a covering mount the error is \<open>NotFound\<close>.\<close>

theorem vfs_resolve_correct:
  assumes "mounted v ms" "list_all name_ok cs"
  shows "(\<forall>m r. longest_mount ms cs m r \<longrightarrow> fs_wf (drivers v r) \<longrightarrow>
      vfs_resolve RamFs_driver (path_of cs) v =
        (case inode_at (drivers v r) (drop (length m) cs) of
           Some i \<Rightarrow> Ok (r, i)
         | None \<Rightarrow> Err (lookup_error (drivers v r) ROOT_INODE (drop (length m) cs)))) \<and>
    ((\<forall>(m, r) \<in> set ms. \<not> prefix m cs) \<longrightarrow> vfs_resolve RamFs_driver (path_of cs) v = Err NotFound)"
proof (intro conjI allI impI)
  fix m r assume l: "longest_mount ms cs m r" and wf: "fs_wf (drivers v r)"
  have "list_all name_ok (drop (length m) cs)" using assms(2) by (auto simp: list_all_iff dest: in_set_dropD)
  moreover have "contents (drivers v r) ROOT_INODE \<noteq> None" using tree_wfD(1) [OF fs_wfD(1) [OF wf]] by simp
  ultimately show "vfs_resolve RamFs_driver (path_of cs) v =
        (case inode_at (drivers v r) (drop (length m) cs) of
           Some i \<Rightarrow> Ok (r, i)
         | None \<Rightarrow> Err (lookup_error (drivers v r) ROOT_INODE (drop (length m) cs)))"
    using resolve_path [OF assms l, of RamFs_driver] ram_walk [OF wf] by (simp add: inode_at_def split: option.split)
qed (rule resolve_no_mount [OF assms], blast)

theorem vfs_resolve_correct_witness:
  "vfs_resolve RamFs_driver (path_of [''mnt'', ''a'']) example_vfs = Ok (1, 2)"
proof -
  have "inode_at example_fs [''a''] = Some 2"
    by (simp add: inode_at_def entry_def dir_entries_def example_fs_def new_node_def bt_get_def ROOT_INODE_def)
  then show ?thesis
    using vfs_resolve_correct [OF example_mounted, of "[''mnt'', ''a'']"] example_longest(1) example_fs_wf
    by (auto simp: name_ok_def validate_name_def)
qed

text \<open>
  Only canonical spellings respect the mounts: a doubled slash is not a prefix match, so the path falls through
  to the root file system.
\<close>

lemma double_slash_bypasses_mount:
  "vfs_resolve RamFs_driver ''/mnt'' example_vfs = Ok (1, ROOT_INODE)"
  "vfs_resolve RamFs_driver ''//mnt'' example_vfs = Err NotFound"
  by (simp_all add: vfs_resolve_def example_vfs_def path_starts_with_mount_def starts_with_def Let_def
      trim_start_matches_def ram_lookup_def RamFs_new_def new_node_def bt_get_def bt_new_def)

text \<open>C20: what is written under a path is read back under it.  Opening a path for writing with \<open>create\<close> and
  \<open>truncate\<close>, in an existing directory, where it is absent or a file, succeeds; after a write of any buffer, opening
  the path again and reading at least its length returns exactly the buffer.\<close>

theorem vfs_write_read_back:
  assumes "mounted v ms" "longest_mount ms (ds @ [n]) m r" "prefix m ds" "list_all name_ok ds" "name_ok n"
    and wf: "fs_wf (drivers v r)" "inodes_left (drivers v r)"
    and d: "tree_of (drivers v r) (drop (length m) ds) = Some ADir"
    and free: "\<And>c. tree_of (drivers v r) (drop (length m) ds @ [n]) = Some c \<Longrightarrow> \<exists>d. c = AFile d"
    and "fl_create fl" "fl_truncate fl" "fl_write fl" "\<not> fl_append fl" "\<not> fl_exclusive fl"
    and "length buf < 2 ^ 64" "length buf \<le> k"
  shows "\<exists>f v1 f' v2 g. vfs_open RamFs_driver (path_of (ds @ [n])) fl v = (Ok f, v1) \<and>
    file_write RamFs_driver buf f v1 = (Ok (length buf), f', v2) \<and>
    vfs_open RamFs_driver (path_of (ds @ [n])) read_only v2 = (Ok g, v2) \<and>
    fst (file_read RamFs_driver k g v2) = Ok buf"
proof -
  obtain p where p: "inode_at (drivers v r) (drop (length m) ds) = Some p" "contents (drivers v r) p = Some ADir"
    using d by (auto simp: tree_of_def tree_def inode_at_def split: option.splits)
  have "file_data (drivers v r) i \<noteq> None" if "entry (drivers v r) p n = Some i" for i
    using tree_child(2) [OF wf(1) p(1) that] free by (auto simp: file_data_def)
  then show ?thesis
    using ram.create_write_read [OF assms(1-5) wf p(2) _ _ assms(10-16)] p(1) by (simp add: inode_at_def)
qed

theorem vfs_write_read_back_witness:
  "\<exists>f v1 f' v2 g. vfs_open RamFs_driver (path_of ([] @ [''b''])) (write_only\<lparr>fl_create := True, fl_truncate := True\<rparr>) example_vfs = (Ok f, v1) \<and>
    file_write RamFs_driver [1, 2] f v1 = (Ok (length [1 :: u8, 2]), f', v2) \<and>
    vfs_open RamFs_driver (path_of ([] @ [''b''])) read_only v2 = (Ok g, v2) \<and>
    fst (file_read RamFs_driver 8 g v2) = Ok [1, 2]"
proof (rule vfs_write_read_back [OF example_mounted, where m = "[]" and r = 0])
  have "entry RamFs_new d n = None" for d n
    by (simp add: entry_def dir_entries_def RamFs_new_def new_node_def bt_simps)
  moreover have "contents RamFs_new ROOT_INODE = Some ADir" using tree_wfD(1) [OF fs_wfD(1) [OF RamFs_new_wf]] .
  ultimately show "tree_of (drivers example_vfs 0) (drop (length []) []) = Some ADir"
    "\<And>c. tree_of (drivers example_vfs 0) (drop (length []) [] @ [''b'']) = Some c \<Longrightarrow> \<exists>d. c = AFile d"
    by (simp_all add: tree_of_def tree_def)
qed (use example_longest(2) RamFs_new_wf in
    \<open>simp_all add: name_ok_def validate_name_def inodes_left_def RamFs_new_def ROOT_INODE_def write_only_def\<close>)

text \<open>\<open>seek\<close> rejects exactly the negative positions; a position below \<open>2^64\<close> becomes the offset; a position
  past the largest offset, which only a large file or offset can produce, is not rejected but wraps to a small one.\<close>

theorem file_seek_correct:
  assumes "fs_metadata D (file_inode f) (drivers v (file_fs f)) = Ok md"
    and b: "b = (case pos of Start p \<Rightarrow> uint p | End d \<Rightarrow> uint (md_size md) + sint d | Current d \<Rightarrow> uint (offset f) + sint d)"
  shows "(b < 0 \<longrightarrow> file_seek D pos f v = (Err InvalidOffset, f)) \<and>
    (0 \<le> b \<longrightarrow> (\<exists>new. file_seek D pos f v = (Ok new, f\<lparr>offset := new\<rparr>) \<and>
      uint new = (if b < 2 ^ 64 then b else b - 2 ^ 64)))"
proof -
  have s: "sint d < 2 ^ 63" for d :: "64 word" using sint_lt [of d] by simp
  have u: "uint x < 2 ^ 64" for x :: u64 using uint_bounded [of x] by simp
  have "b < 2 ^ 64 + 2 ^ 64"
  proof (cases pos)
    case (Start p)
    then show ?thesis using b u [of p] by simp
  next
    case (End d)
    then show ?thesis using b s [of d] u [of "md_size md"] by simp
  next
    case (Current d)
    then show ?thesis using b s [of d] u [of "offset f"] by simp
  qed
  then have w: "uint (word_of_int b :: u64) = (if b < 2 ^ 64 then b else b - 2 ^ 64)" if "0 \<le> b"
    using that mod_pos_pos_trivial [of "b - 2 ^ 64" "2 ^ 64"] minus_mod_self2 [of b "2 ^ 64"] by (simp add: uint_word_of_int)
  show ?thesis
    using assms w by (cases pos) (auto simp: file_seek_def seek_to_def)
qed

theorem file_seek_correct_example:
  "\<exists>new. file_seek RamFs_driver (Current 1) \<lparr>file_fs = 1, file_inode = 2, offset = 0xFFFFFFFFFFFFFFFF, flags = read_only\<rparr> example_vfs =
      (Ok new, \<lparr>file_fs = 1, file_inode = 2, offset = new, flags = read_only\<rparr>) \<and> uint new = 0"
proof -
  let ?f = "\<lparr>file_fs = 1, file_inode = 2, offset = 0xFFFFFFFFFFFFFFFF, flags = read_only\<rparr>"
  obtain md where "fs_metadata RamFs_driver (file_inode ?f) (drivers example_vfs (file_fs ?f)) = Ok md"
    by (simp add: ram_metadata_def example_fs_def new_node_def bt_get_def)
  from file_seek_correct [OF this, where pos = "Current 1" and b = "2 ^ 64"] show ?thesis by simp
qed

definition skeleton_fs :: RamFs where
  "skeleton_fs = \<lparr>nodes = [
      (1, new_node 1 (DirNode [(''dev'', 2), (''proc'', 3), (''sys'', 4), (''tmp'', 5)]) 0x1ED),
      (2, new_node 1 (DirNode []) 0x1ED), (3, new_node 1 (DirNode []) 0x16D),
      (4, new_node 1 (DirNode []) 0x16D), (5, new_node 1 (DirNode []) 0x3FF)], next_inode = 6\<rparr>"

lemmas fs_eval = vfs_mkdir_def vfs_at_parent_def split_parent_def starts_with_def trim_end_matches_def rsplit_once_def
  vfs_resolve_def path_starts_with_mount_def trim_start_matches_def Let_def on_driver_def set_driver_def
  ram_create_def validate_name_def dir_entries_def insert_child_def checked_add_def edit_dir_def bt_get_mut_def
  bt_get_def bt_contains_key_def bt_new_def new_node_def ROOT_INODE_def

lemma fs_init_eval:
  "fs_init r \<lparr>vfs = vfs_new heap, initialized = False\<rparr> =
    Some \<lparr>vfs = \<lparr>mounts = [\<lparr>mount_path = ''/'', mount_fs = r\<rparr>], drivers = heap(r := skeleton_fs)\<rparr>, initialized = True\<rparr>"
  by (simp add: fs_init_def vfs_new_def vfs_mount_def normalize_mount_path_def SKELETON_def RamFs_new_def fs_eval skeleton_fs_def)

lemma skeleton_fs_wf: "fs_wf skeleton_fs"
proof -
  let ?ops = "[RCreate 1 ''dev'' Directory 0x1ED, RCreate 1 ''proc'' Directory 0x16D,
      RCreate 1 ''sys'' Directory 0x16D, RCreate 1 ''tmp'' Directory 0x3FF]"
  have "ram_run ?ops RamFs_new = Some skeleton_fs" by (simp add: RamFs_new_def fs_eval skeleton_fs_def)
  then show ?thesis using ram_run_wf [OF RamFs_new_wf, of ?ops] by (simp only: option.inject ex_simps simp_thms)
qed

text \<open>On the empty mount table the bring-up does not panic.  It mounts a well-formed RamFs at \<open>/\<close> whose only
  entries are the directories of the skeleton, each with its mode; a second call changes nothing.\<close>

theorem fs_init_correct:
  "\<exists>st. fs_init r \<lparr>vfs = vfs_new heap, initialized = False\<rparr> = Some st \<and> is_initialized st \<and>
    mounted (vfs st) [([], r)] \<and> fs_wf (drivers (vfs st) r) \<and>
    (\<forall>P. tree_of (drivers (vfs st) r) P =
      (if P = [] \<or> P \<in> {[''dev''], [''proc''], [''sys''], [''tmp'']} then Some ADir else None)) \<and>
    list_all (\<lambda>(pth, md). \<exists>m. vfs_metadata RamFs_driver pth (vfs st) = Ok m \<and>
      md_file_type m = Directory \<and> md_mode m = md) SKELETON \<and>
    fs_init r' st = Some st"
proof (intro exI conjI, rule fs_init_eval)
  let ?v = "\<lparr>mounts = [\<lparr>mount_path = ''/'', mount_fs = r\<rparr>], drivers = heap(r := skeleton_fs)\<rparr>"
  let ?st = "\<lparr>vfs = ?v, initialized = True\<rparr>"
  show "is_initialized ?st" "fs_init r' ?st = Some ?st" by (simp_all add: is_initialized_def fs_init_def)
  show "mounted (vfs ?st) [([], r)]" by (simp add: mounted_def path_of_def)
  show "fs_wf (drivers (vfs ?st) r)" by (simp add: skeleton_fs_wf)
  have e: "entry skeleton_fs d n =
      (if d = 1 then map_of [(''dev'', 2), (''proc'', 3), (''sys'', 4), (''tmp'', 5)] n else None)" for d n
    by (simp add: entry_def dir_entries_def skeleton_fs_def new_node_def bt_get_def)
  have c: "contents skeleton_fs i = (if i \<in> {1, 2, 3, 4, 5} then Some ADir else None)" for i
    by (simp add: contents_def skeleton_fs_def new_node_def bt_get_def)
  show "\<forall>P. tree_of (drivers (vfs ?st) r) P =
      (if P = [] \<or> P \<in> {[''dev''], [''proc''], [''sys''], [''tmp'']} then Some ADir else None)"
  proof
    fix P
    show "tree_of (drivers (vfs ?st) r) P =
      (if P = [] \<or> P \<in> {[''dev''], [''proc''], [''sys''], [''tmp'']} then Some ADir else None)"
      by (cases P rule: remdups_adj.cases) (simp_all add: tree_of_def tree_def ROOT_INODE_def e c)
  qed
  show "list_all (\<lambda>(pth, md). \<exists>m. vfs_metadata RamFs_driver pth (vfs ?st) = Ok m \<and>
      md_file_type m = Directory \<and> md_mode m = md) SKELETON"
    by (simp add: SKELETON_def vfs_metadata_def fs_eval ram_lookup_def ram_metadata_def skeleton_fs_def)
qed

section \<open>Mounting and unmounting\<close>

lemma normalize_path:
  assumes "list_all name_ok m"
  shows "normalize_mount_path (path_of m) = path_of m"
proof (cases m rule: rev_cases)
  case Nil
  then show ?thesis by (simp add: normalize_mount_path_def path_of_def)
next
  case (snoc ds n)
  have n: "n \<noteq> []" "CHR ''/'' \<notin> set n" using assms snoc name_okD(1,4) [of n] by auto
  then obtain x xs where x: "rev n = x # xs" by (cases "rev n") auto
  then have "x \<in> set n" by (metis list.set_intros(1) set_rev)
  then have "x \<noteq> CHR ''/''" using n(2) by auto
  then show ?thesis using x by (simp add: normalize_mount_path_def path_of_def snoc trim_end_matches_def)
qed

lemma vfs_mount_mounted:
  assumes v: "mounted v ms" and m: "list_all name_ok m"
  shows "m \<in> fst ` set ms \<Longrightarrow> vfs_mount (path_of m) r v = (Err AlreadyExists, v)"
    "m \<notin> fst ` set ms \<Longrightarrow> \<exists>v'. vfs_mount (path_of m) r v = (Ok (), v') \<and> mounted v' (ms @ [(m, r)]) \<and> drivers v' = drivers v"
proof -
  have iff: "(\<exists>e \<in> set (mounts v). mount_path e = path_of m) \<longleftrightarrow> m \<in> fst ` set ms"
    using v path_of_inj [OF mountedD(1) [OF v] m] by (force simp: mounted_def)
  note M = vfs_mount_def [of "path_of m" r v, unfolded normalize_path [OF m] Let_def iff]
  show "m \<in> fst ` set ms \<Longrightarrow> vfs_mount (path_of m) r v = (Err AlreadyExists, v)" by (simp add: M)
  show "m \<notin> fst ` set ms \<Longrightarrow> \<exists>v'. vfs_mount (path_of m) r v = (Ok (), v') \<and> mounted v' (ms @ [(m, r)]) \<and> drivers v' = drivers v"
    using v m by (auto simp: M mounted_def)
qed

text \<open>A path of slashes only is accepted and recorded as the empty string, which begins with no slash.\<close>

lemma mount_double_slash: "vfs_mount ''//'' r (vfs_new heap) = (Ok (), \<lparr>mounts = [\<lparr>mount_path = [], mount_fs = r\<rparr>], drivers = heap\<rparr>)"
  by (simp add: vfs_mount_def vfs_new_def normalize_mount_path_def trim_end_matches_def starts_with_def)

end
