(* ===== verification/Syscall_Dispatch.thy ===== *)
theory Syscall_Dispatch
  imports Golem_Prelude
begin

text \<open>
  System-call dispatch: \<open>syscall/dispatch.rs\<close> and \<open>syscall/handlers.rs\<close>.  The features \<open>vfs\<close> and \<open>process\<close> are not
  declared by the crate, so the handlers are those of the build without them.  An \<open>i64\<close> result is the 64-bit word
  userspace finds in \<open>rax\<close>.
\<close>

section \<open>Numbers\<close>

definition SYSCALL_TABLE_SIZE :: nat where "SYSCALL_TABLE_SIZE = 512"

datatype Errno = EPERM | ENOENT | EINTR | EIO | EBADF | ECHILD | ENOMEM | EACCES | EFAULT | EBUSY | EEXIST | ENOTDIR
  | EISDIR | EINVAL | ENFILE | EMFILE | ENOSYS

fun errno_value :: "Errno \<Rightarrow> u64" where
  "errno_value EPERM = 1"
| "errno_value ENOENT = 2"
| "errno_value EINTR = 4"
| "errno_value EIO = 5"
| "errno_value EBADF = 9"
| "errno_value ECHILD = 10"
| "errno_value ENOMEM = 12"
| "errno_value EACCES = 13"
| "errno_value EFAULT = 14"
| "errno_value EBUSY = 16"
| "errno_value EEXIST = 17"
| "errno_value ENOTDIR = 20"
| "errno_value EISDIR = 21"
| "errno_value EINVAL = 22"
| "errno_value ENFILE = 23"
| "errno_value EMFILE = 24"
| "errno_value ENOSYS = 38"

type_synonym SyscallResult = "Errno + u64"
type_synonym Handler = "u64 \<Rightarrow> u64 \<Rightarrow> u64 \<Rightarrow> u64 \<Rightarrow> u64 \<Rightarrow> u64 \<Rightarrow> SyscallResult"

definition nr_READ :: u64 where "nr_READ = 0"
definition nr_WRITE :: u64 where "nr_WRITE = 1"
definition nr_OPEN :: u64 where "nr_OPEN = 2"
definition nr_CLOSE :: u64 where "nr_CLOSE = 3"
definition nr_FORK :: u64 where "nr_FORK = 57"
definition nr_EXECVE :: u64 where "nr_EXECVE = 59"
definition nr_EXIT :: u64 where "nr_EXIT = 60"

lemmas nr_defs = nr_READ_def nr_WRITE_def nr_OPEN_def nr_CLOSE_def nr_FORK_def nr_EXECVE_def nr_EXIT_def

section \<open>Handlers\<close>

definition USER_VA_MAX :: u64 where "USER_VA_MAX = 0x800000000000"
definition i32_MAX :: u64 where "i32_MAX = 0x7FFFFFFF"

definition validate_user_ptr :: "u64 \<Rightarrow> u64 \<Rightarrow> Errno + unit" where
  "validate_user_ptr ptr len =
    (if ptr = 0 then Err EFAULT
     else case checked_add ptr len of
       None \<Rightarrow> Err EFAULT
     | Some stop \<Rightarrow> if USER_VA_MAX < stop then Err EFAULT else Ok ())"

definition validate_fd :: "u64 \<Rightarrow> Errno + u32" where
  "validate_fd raw = (if i32_MAX < raw then Err EBADF else Ok (ucast raw))"

definition sys_read :: Handler where
  "sys_read fd buf count _ _ _ =
    (case validate_fd fd of
       Inl e \<Rightarrow> Err e
     | Inr _ \<Rightarrow> (case validate_user_ptr buf count of Inl e \<Rightarrow> Err e | Inr _ \<Rightarrow> Err ENOSYS))"

definition sys_write :: Handler where
  "sys_write fd buf count _ _ _ =
    (case validate_fd fd of
       Inl e \<Rightarrow> Err e
     | Inr _ \<Rightarrow> (case validate_user_ptr buf count of Inl e \<Rightarrow> Err e | Inr _ \<Rightarrow> Err ENOSYS))"

definition sys_open :: Handler where
  "sys_open path flags mode _ _ _ =
    (case validate_user_ptr path 1 of
       Inl e \<Rightarrow> Err e
     | Inr _ \<Rightarrow> if i32_MAX < flags then Err EINVAL else Err ENOSYS)"

definition sys_close :: Handler where
  "sys_close fd _ _ _ _ _ = (case validate_fd fd of Inl e \<Rightarrow> Err e | Inr _ \<Rightarrow> Err ENOSYS)"

definition sys_fork :: Handler where
  "sys_fork _ _ _ _ _ _ = Err ENOSYS"

definition sys_execve :: Handler where
  "sys_execve path argv envp _ _ _ =
    (case validate_user_ptr path 1 of
       Inl e \<Rightarrow> Err e
     | Inr _ \<Rightarrow>
         (case (if argv \<noteq> 0 then validate_user_ptr argv 8 else Ok ()) of
            Inl e \<Rightarrow> Err e
          | Inr _ \<Rightarrow>
              (case (if envp \<noteq> 0 then validate_user_ptr envp 8 else Ok ()) of
                 Inl e \<Rightarrow> Err e
               | Inr _ \<Rightarrow> Err ENOSYS)))"

definition sys_exit :: Handler where
  "sys_exit status _ _ _ _ _ = Err ENOSYS"

section \<open>The table\<close>

definition enosys :: Handler where
  "enosys _ _ _ _ _ _ = Err ENOSYS"

definition SYSCALL_TABLE :: "Handler list" where
  "SYSCALL_TABLE = replicate SYSCALL_TABLE_SIZE enosys"

definition dispatch_init :: "Handler list \<Rightarrow> Handler list" where
  "dispatch_init t =
    t[unat nr_READ := sys_read, unat nr_WRITE := sys_write, unat nr_OPEN := sys_open, unat nr_CLOSE := sys_close,
      unat nr_FORK := sys_fork, unat nr_EXECVE := sys_execve, unat nr_EXIT := sys_exit]"

definition syscall_dispatch :: "Handler list \<Rightarrow> u64 \<Rightarrow> u64 \<Rightarrow> u64 \<Rightarrow> u64 \<Rightarrow> u64 \<Rightarrow> u64 \<Rightarrow> u64 \<Rightarrow> u64" where
  "syscall_dispatch t nr a0 a1 a2 a3 a4 a5 =
    (let handler = (if unat nr < SYSCALL_TABLE_SIZE then t ! unat nr else enosys) in
     case handler a0 a1 a2 a3 a4 a5 of Inr v \<Rightarrow> v | Inl e \<Rightarrow> - errno_value e)"

section \<open>Properties\<close>

lemma validate_user_ptr_iff:
  "validate_user_ptr ptr len = (if ptr \<noteq> 0 \<and> unat ptr + unat len \<le> 2 ^ 47 then Ok () else Err EFAULT)"
proof (cases "checked_add ptr len")
  case None
  then have "2 ^ 64 \<le> unat ptr + unat len" using checked_add_None [of ptr len] by simp
  then show ?thesis using None by (simp add: validate_user_ptr_def)
next
  case (Some stop)
  then have "unat stop = unat ptr + unat len" using checked_add_Some [of ptr len stop] by blast
  then show ?thesis using Some by (auto simp: validate_user_ptr_def USER_VA_MAX_def word_less_nat_alt)
qed

lemma validate_fd_iff: "validate_fd raw = (if unat raw < 2 ^ 31 then Ok (ucast raw) else Err EBADF)"
  by (auto simp: validate_fd_def i32_MAX_def word_less_nat_alt)

text \<open>The user range \<open>[ptr, ptr + len)\<close> is usable: not null and entirely in the lower half.\<close>

definition user_range :: "u64 \<Rightarrow> u64 \<Rightarrow> bool" where
  "user_range ptr len \<longleftrightarrow> ptr \<noteq> 0 \<and> unat ptr + unat len \<le> 2 ^ 47"

definition expected_errno :: "u64 \<Rightarrow> u64 \<Rightarrow> u64 \<Rightarrow> u64 \<Rightarrow> Errno" where
  "expected_errno nr a0 a1 a2 =
    (if nr \<in> {nr_READ, nr_WRITE} then
       if 2 ^ 31 \<le> unat a0 then EBADF else if \<not> user_range a1 a2 then EFAULT else ENOSYS
     else if nr = nr_OPEN then
       if \<not> user_range a0 1 then EFAULT else if 2 ^ 31 \<le> unat a1 then EINVAL else ENOSYS
     else if nr = nr_CLOSE then if 2 ^ 31 \<le> unat a0 then EBADF else ENOSYS
     else if nr = nr_EXECVE then
       if \<not> user_range a0 1 \<or> a1 \<noteq> 0 \<and> \<not> user_range a1 8 \<or> a2 \<noteq> 0 \<and> \<not> user_range a2 8 then EFAULT else ENOSYS
     else ENOSYS)"

lemma table_lookup:
  assumes "unat nr < SYSCALL_TABLE_SIZE"
  shows "dispatch_init SYSCALL_TABLE ! unat nr =
    (if nr = nr_READ then sys_read else if nr = nr_WRITE then sys_write else if nr = nr_OPEN then sys_open
     else if nr = nr_CLOSE then sys_close else if nr = nr_FORK then sys_fork else if nr = nr_EXECVE then sys_execve
     else if nr = nr_EXIT then sys_exit else enosys)"
  using assms
  by (simp add: dispatch_init_def SYSCALL_TABLE_def SYSCALL_TABLE_SIZE_def nth_list_update nr_defs word_unat_eq_iff)

text \<open>C26: with the table built at boot, every system call answers with exactly the error its arguments call for:
  numbers outside the table and unimplemented ones give \<open>ENOSYS\<close>; a descriptor that is not an \<open>int\<close> gives \<open>EBADF\<close>;
  a buffer that is null, wraps around or reaches past the lower half gives \<open>EFAULT\<close>; a call that passes these checks
  reaches the missing subsystem and gives \<open>ENOSYS\<close>.  The result is always a negative error number.\<close>

theorem syscall_dispatch_correct:
  "syscall_dispatch (dispatch_init SYSCALL_TABLE) nr a0 a1 a2 a3 a4 a5 = - errno_value (expected_errno nr a0 a1 a2) \<and>
   sint (syscall_dispatch (dispatch_init SYSCALL_TABLE) nr a0 a1 a2 a3 a4 a5) \<in> {-38 .. -1}"
proof -
  let ?d = "syscall_dispatch (dispatch_init SYSCALL_TABLE) nr a0 a1 a2 a3 a4 a5"
  have eq: "?d = - errno_value (expected_errno nr a0 a1 a2)"
  proof (cases "unat nr < SYSCALL_TABLE_SIZE")
    case True
    then show ?thesis unfolding syscall_dispatch_def Let_def table_lookup [OF True]
      by (auto simp: expected_errno_def user_range_def validate_user_ptr_iff validate_fd_iff sys_read_def sys_write_def
          sys_open_def sys_close_def sys_fork_def sys_execve_def sys_exit_def enosys_def nr_defs i32_MAX_def
          word_less_nat_alt split: if_splits)
  next
    case False
    then have "nr \<notin> {nr_READ, nr_WRITE, nr_OPEN, nr_CLOSE, nr_EXECVE}" by (auto simp: nr_defs SYSCALL_TABLE_SIZE_def)
    then show ?thesis using False by (simp add: syscall_dispatch_def enosys_def expected_errno_def)
  qed
  have "sint (- errno_value e) \<in> {-38 .. -1}" for e by (cases e) simp_all
  then show ?thesis unfolding eq by blast
qed

end
