(* ===== verification/Syscall_Entry.thy ===== *)
theory Syscall_Entry
  imports Syscall_Dispatch X86_Machine
begin

text \<open>
  The CPU side of a system call: \<open>syscall/entry.rs\<close>.  Model-specific registers are a map from numbers to values.
  The trampoline is its instructions up to and after the call of \<open>syscall_dispatch\<close>; the compiled body of that
  function is known only through the C calling convention (\<open>sysv_call\<close>).  The instruction \<open>syscall\<close> itself is the
  hardware's: it saves the instruction pointer and the flags and masks the flags.
\<close>

section \<open>Model-specific registers\<close>

definition MSR_EFER :: u32 where "MSR_EFER = 0xC0000080"
definition MSR_STAR :: u32 where "MSR_STAR = 0xC0000081"
definition MSR_LSTAR :: u32 where "MSR_LSTAR = 0xC0000082"
definition MSR_FMASK :: u32 where "MSR_FMASK = 0xC0000084"
definition EFER_SCE :: u64 where "EFER_SCE = 1"
definition STAR_VALUE :: u64 where "STAR_VALUE = 0x0023000800000000"
definition FMASK_VALUE :: u64 where "FMASK_VALUE = 0x47700"

lemmas msr_defs = MSR_EFER_def MSR_STAR_def MSR_LSTAR_def MSR_FMASK_def

type_synonym msrs = "u32 \<Rightarrow> u64"

definition rdmsr :: "u32 \<Rightarrow> msrs \<Rightarrow> u64" where
  "rdmsr msr st =
    (let low = ucast (st msr) :: u32; high = ucast (drop_bit 32 (st msr)) :: u32
     in push_bit 32 (ucast high) OR ucast low)"

definition wrmsr :: "u32 \<Rightarrow> u64 \<Rightarrow> msrs \<Rightarrow> msrs" where
  "wrmsr msr val st =
    (let low = ucast val :: u32; high = ucast (drop_bit 32 val) :: u32
     in st(msr := push_bit 32 (ucast high) OR ucast low))"

definition init_cpu :: "u64 \<Rightarrow> msrs \<Rightarrow> msrs" where
  "init_cpu syscall_entry st =
    (let efer = rdmsr MSR_EFER st;
         st = wrmsr MSR_EFER (efer OR EFER_SCE) st;
         st = wrmsr MSR_STAR STAR_VALUE st;
         st = wrmsr MSR_LSTAR syscall_entry st
     in wrmsr MSR_FMASK FMASK_VALUE st)"

text \<open>Bring-up of the subsystem (\<open>syscall/mod.rs\<close>): first the table, then the registers.\<close>

definition syscall_init :: "u64 \<Rightarrow> Handler list \<times> msrs \<Rightarrow> Handler list \<times> msrs" where
  "syscall_init syscall_entry st = (dispatch_init (fst st), init_cpu syscall_entry (snd st))"

section \<open>The trampoline\<close>

definition syscall_entry_save :: "instr list" where
  "syscall_entry_save =
    [SWAPGS, MOVQ_TO_GS RSP 8, MOVQ_FROM_GS 0 RSP, PUSHQ_GS 8,
     PUSHQ R11, PUSHQ RCX, PUSHQ RAX,
     PUSHQ RDI, PUSHQ RSI, PUSHQ RDX, PUSHQ R10, PUSHQ R8, PUSHQ R9,
     PUSHQ RBX, PUSHQ RBP, PUSHQ R12, PUSHQ R13, PUSHQ R14, PUSHQ R15]"

definition syscall_entry_args :: "instr list" where
  "syscall_entry_args =
    [SUBQ 8 RSP, PUSHQ R9, MOVQ R8 R9, MOVQ R10 R8, MOVQ RDX RCX, MOVQ RSI RDX, MOVQ RDI RSI, MOVQ RAX RDI]"

definition syscall_entry_restore :: "instr list" where
  "syscall_entry_restore =
    [ADDQ 16 RSP,
     POPQ R15, POPQ R14, POPQ R13, POPQ R12, POPQ RBP, POPQ RBX,
     POPQ R9, POPQ R8, POPQ R10, POPQ RDX, POPQ RSI, POPQ RDI,
     ADDQ 8 RSP, POPQ RCX, POPQ R11, POPQ RSP, SWAPGS, SYSRETQ]"

definition syscall_entry :: "(machine \<Rightarrow> machine) \<Rightarrow> machine \<Rightarrow> machine" where
  "syscall_entry call_dispatch m =
    exec syscall_entry_restore (call_dispatch (exec (syscall_entry_save @ syscall_entry_args) m))"

text \<open>
  What the instruction \<open>syscall\<close> does, and what the trampoline relies on when it calls a C function \<open>f\<close> of seven
  arguments: the result in \<open>rax\<close>, the callee-saved registers and the stack pointer restored, the caller's frame
  above the argument slot and its pad untouched, the GS bases as they were.
\<close>

definition syscall_instruction :: "msrs \<Rightarrow> machine \<Rightarrow> machine" where
  "syscall_instruction st m =
    m\<lparr>regs := (regs m)(RCX := rip m, R11 := rflags m), rip := st MSR_LSTAR, rflags := rflags m AND NOT (st MSR_FMASK)\<rparr>"

definition sysv_call ::
  "(u64 \<Rightarrow> u64 \<Rightarrow> u64 \<Rightarrow> u64 \<Rightarrow> u64 \<Rightarrow> u64 \<Rightarrow> u64 \<Rightarrow> u64) \<Rightarrow> nat \<Rightarrow> machine \<Rightarrow> machine \<Rightarrow> bool" where
  "sysv_call f n m m' \<longleftrightarrow>
    regs m' RAX = f (regs m RDI) (regs m RSI) (regs m RDX) (regs m RCX) (regs m R8) (regs m R9) (qwords m (regs m RSP)) \<and>
    (\<forall>r \<in> {RBX, RBP, RSP, R12, R13, R14, R15}. regs m' r = regs m r) \<and>
    (\<forall>a \<in> set (stack_words (regs m RSP + 16) n). qwords m' a = qwords m a) \<and>
    gs_base m' = gs_base m \<and> kernel_gs_base m' = kernel_gs_base m"

section \<open>Register pairs\<close>

lemma halves_join: "push_bit 32 (ucast (ucast (drop_bit 32 x) :: u32)) OR ucast (ucast x :: u32) = (x :: u64)"
  by (rule bit_word_eqI) (auto simp: bit_or_iff bit_push_bit_iff bit_ucast_iff bit_drop_bit_eq)

lemma rdmsr_eq [simp]: "rdmsr msr st = st msr" "wrmsr msr x st = st(msr := x)"
  unfolding rdmsr_def wrmsr_def Let_def halves_join by (rule refl)+

lemma init_cpu_registers:
  "init_cpu e st MSR_EFER = st MSR_EFER OR 1" "init_cpu e st MSR_STAR = STAR_VALUE"
  "init_cpu e st MSR_LSTAR = e" "init_cpu e st MSR_FMASK = FMASK_VALUE"
  "r \<notin> {MSR_EFER, MSR_STAR, MSR_LSTAR, MSR_FMASK} \<Longrightarrow> init_cpu e st r = st r"
  by (simp_all add: init_cpu_def EFER_SCE_def msr_defs)

text \<open>The code selector \<open>sysret\<close> loads: bits 48 and up of \<open>STAR\<close>, plus 16, with privilege level 3.\<close>

lemma sysret_selector: "(drop_bit 48 STAR_VALUE + 16) OR 3 = (0x33 :: u64)"
  by (simp add: STAR_VALUE_def)

section \<open>The frame\<close>

abbreviation frame_regs :: "reg list" where
  "frame_regs \<equiv> [R11, RCX, RAX, RDI, RSI, RDX, R10, R8, R9, RBX, RBP, R12, R13, R14, R15]"

abbreviation restored_regs :: "reg list" where
  "restored_regs \<equiv> [R15, R14, R13, R12, RBP, RBX, R9, R8, R10, RDX, RSI, RDI]"

definition trap_frame :: "machine \<Rightarrow> u64 list" where
  "trap_frame m = map (regs m) (restored_regs @ [RAX, RCX, R11, RSP])"

lemma save_spec:
  assumes "m1 = exec syscall_entry_save m" "K = qwords m (kernel_gs_base m)"
  shows "regs m1 = (regs m)(RSP := K - 128)" "map (qwords m1) (stack_words (K - 128) 16) = trap_frame m"
    "gs_base m1 = kernel_gs_base m" "kernel_gs_base m1 = gs_base m" "rip m1 = rip m" "rflags m1 = rflags m"
    "\<And>a. a \<notin> insert (kernel_gs_base m + 8) (set (stack_words (K - 128) 16)) \<Longrightarrow> qwords m1 a = qwords m a"
proof -
  define m0 where "m0 = exec [SWAPGS, MOVQ_TO_GS RSP 8, MOVQ_FROM_GS 0 RSP] m"
  have m0: "regs m0 = (regs m)(RSP := K)" "qwords m0 = (qwords m)(kernel_gs_base m + 8 := regs m RSP)"
    "gs_base m0 = kernel_gs_base m" "kernel_gs_base m0 = gs_base m" "rip m0 = rip m" "rflags m0 = rflags m"
    by (simp_all add: m0_def assms(2))
  let ?u = "regs m RSP"
  have code: "syscall_entry_save = [SWAPGS, MOVQ_TO_GS RSP 8, MOVQ_FROM_GS 0 RSP] @ [PUSHQ_GS 8] @ map PUSHQ frame_regs"
    by (simp add: syscall_entry_save_def)
  have "exec [PUSHQ_GS 8] m0 = push ?u m0" by (simp add: m0)
  then have m1: "m1 = exec (map PUSHQ frame_regs) (push ?u m0)"
    unfolding assms(1) code exec_append m0_def [symmetric] by (simp only:)
  have "pushed (map (regs (push ?u m0)) frame_regs) (push ?u m0) m1" unfolding m1 by (rule exec_pushes) simp_all
  then have "pushed (?u # map (regs (push ?u m0)) frame_regs) m0 m1" by (rule pushed_Cons) simp
  note p = pushedD [OF this, of 16]
  have "rev (?u # map (regs (push ?u m0)) frame_regs) = trap_frame m" by (simp add: trap_frame_def m0)
  then show "map (qwords m1) (stack_words (K - 128) 16) = trap_frame m" using p(2) by (simp add: m0)
  show "regs m1 = (regs m)(RSP := K - 128)" using p(1) by (simp add: m0)
  show "gs_base m1 = kernel_gs_base m" "kernel_gs_base m1 = gs_base m" "rip m1 = rip m" "rflags m1 = rflags m"
    using p(4) by (simp_all add: same_control_def m0)
  show "\<And>a. a \<notin> insert (kernel_gs_base m + 8) (set (stack_words (K - 128) 16)) \<Longrightarrow> qwords m1 a = qwords m a"
    using p(3) by (simp add: m0)
qed

lemma args_spec:
  assumes "m2 = exec syscall_entry_args m1"
  shows "regs m2 = (regs m1)(RSP := regs m1 RSP - 16, R9 := regs m1 R8, R8 := regs m1 R10, RCX := regs m1 RDX,
      RDX := regs m1 RSI, RSI := regs m1 RDI, RDI := regs m1 RAX)"
    "qwords m2 = (qwords m1)(regs m1 RSP - 16 := regs m1 R9)"
    "gs_base m2 = gs_base m1" "kernel_gs_base m2 = kernel_gs_base m1" "rflags m2 = rflags m1"
  unfolding assms syscall_entry_args_def by (auto simp: diff_diff_add)

lemma stack_words_16: "stack_words s 16 = stack_words s 12 @ [s + 96, s + 104, s + 112, s + 120]"
  by (simp add: stack_words.simps eval_nat_numeral add.assoc)

lemma restore_spec:
  assumes m4: "m4 = exec syscall_entry_restore m3" and s: "s = regs m3 RSP + 16"
    and F: "map (qwords m3) (stack_words s 16) = map f restored_regs @ [nr, ip, fl, sp]"
  shows "map (regs m4) restored_regs = map f restored_regs" "regs m4 RCX = ip" "regs m4 R11 = fl" "regs m4 RSP = sp"
    "regs m4 RAX = regs m3 RAX" "rip m4 = ip" "rflags m4 = (fl AND 0x3C7FD7) OR 2" "qwords m4 = qwords m3"
    "gs_base m4 = kernel_gs_base m3" "kernel_gs_base m4 = gs_base m3"
proof -
  define m3' where "m3' = exec_instr (ADDQ 16 RSP) m3"
  define m5 where "m5 = exec (map POPQ restored_regs) m3'"
  have m3': "regs m3' RSP = s" "qwords m3' = qwords m3" "regs m3' RAX = regs m3 RAX"
    "gs_base m3' = gs_base m3" "kernel_gs_base m3' = kernel_gs_base m3"
    by (simp_all add: m3'_def s)
  have p: "popped restored_regs m3' m5" unfolding m5_def by (rule exec_pops) simp_all
  note d = poppedD [OF p, of 12]
  have F12: "map (qwords m3) (stack_words s 12) = map f restored_regs"
    "[qwords m3 (s + 96), qwords m3 (s + 104), qwords m3 (s + 112), qwords m3 (s + 120)] = [nr, ip, fl, sp]"
    using F unfolding stack_words_16 by (simp_all add: append_eq_append_conv)
  have code: "syscall_entry_restore =
      [ADDQ 16 RSP] @ map POPQ restored_regs @ [ADDQ 8 RSP, POPQ RCX, POPQ R11, POPQ RSP, SWAPGS, SYSRETQ]"
    by (simp add: syscall_entry_restore_def)
  have "exec [ADDQ 16 RSP] m3 = m3'" by (simp add: m3'_def)
  then have m4': "m4 = exec [ADDQ 8 RSP, POPQ RCX, POPQ R11, POPQ RSP, SWAPGS, SYSRETQ] m5"
    unfolding m4 code exec_append m5_def by (simp only:)
  have m5: "regs m5 RSP = s + 96" "qwords m5 = qwords m3" "regs m5 RAX = regs m3 RAX"
    "gs_base m5 = gs_base m3" "kernel_gs_base m5 = kernel_gs_base m3"
    using d(2,4,5) d(3) [of RAX] m3' by (simp_all add: same_control_def)
  have regs4: "regs m4 = (regs m5)(RCX := ip, R11 := fl, RSP := sp)"
    using F12(2) by (simp add: m4' m5 add.assoc fun_upd_twist)
  have "map (regs m5) restored_regs = map f restored_regs" using d(1) F12(1) m3' by simp
  then show "map (regs m4) restored_regs = map f restored_regs" by (simp add: regs4)
  show "regs m4 RCX = ip" "regs m4 R11 = fl" "regs m4 RSP = sp" "regs m4 RAX = regs m3 RAX" by (simp_all add: regs4 m5)
  show "rip m4 = ip" "rflags m4 = (fl AND 0x3C7FD7) OR 2" "qwords m4 = qwords m3"
    "gs_base m4 = kernel_gs_base m3" "kernel_gs_base m4 = gs_base m3"
    using F12(2) by (simp_all add: m4' m5 add.assoc)
qed

lemma below_frame: "K - 144 \<notin> set (stack_words (K - 128) 16)"
proof
  assume "K - 144 \<in> set (stack_words (K - 128) 16)"
  then obtain k where k: "k < 16" "K - 144 = K - 128 + 8 * of_nat k" by (auto simp: in_stack_words_iff)
  then have "8 * of_nat (k + 2) = (0 :: u64)" by (simp add: algebra_simps)
  then show False using of_nat_8_mult_eq_0 [of "k + 2"] k(1) by simp
qed

section \<open>Properties\<close>

text \<open>C27: a system call from user code.  If the kernel's per-CPU area holds the kernel stack and the call of the
  dispatcher obeys the C convention, the dispatcher runs with interrupts off on the kernel stack, receives the number
  and the six arguments of the Linux convention, and the user continues behind its \<open>syscall\<close> instruction with the
  dispatcher's result in \<open>rax\<close> and every other register, the stack pointer and the GS bases as before, except
  \<open>rcx\<close> and \<open>r11\<close>, which hold the return address and the flags.\<close>

theorem syscall_round_trip:
  assumes msr: "st = init_cpu entry st0" and m: "m = syscall_instruction st user"
    and K: "K = qwords m (kernel_gs_base m)"
    and inside: "m2 = exec (syscall_entry_save @ syscall_entry_args) m"
    and call: "sysv_call (syscall_dispatch table) 16 m2 (call_dispatch m2)"
  shows "rip m = entry \<and> rflags m2 AND IF_FLAG = 0 \<and> regs m2 RSP = K - 144 \<and>
    (\<forall>r. r \<notin> {RAX, RCX, R11} \<longrightarrow> regs (syscall_entry call_dispatch m) r = regs user r) \<and>
    regs (syscall_entry call_dispatch m) RAX =
      syscall_dispatch table (regs user RAX) (regs user RDI) (regs user RSI) (regs user RDX) (regs user R10)
        (regs user R8) (regs user R9) \<and>
    regs (syscall_entry call_dispatch m) RCX = rip user \<and> regs (syscall_entry call_dispatch m) R11 = rflags user \<and>
    rip (syscall_entry call_dispatch m) = rip user \<and>
    rflags (syscall_entry call_dispatch m) = (rflags user AND 0x3C7FD7) OR 2 \<and>
    gs_base (syscall_entry call_dispatch m) = gs_base user \<and>
    kernel_gs_base (syscall_entry call_dispatch m) = kernel_gs_base user"
proof -
  define m1 where "m1 = exec syscall_entry_save m"
  define m3 where "m3 = call_dispatch m2"
  have m2: "m2 = exec syscall_entry_args m1" by (simp add: inside m1_def)
  have e: "syscall_entry call_dispatch m = exec syscall_entry_restore m3" by (simp add: syscall_entry_def m3_def inside)
  note sv = save_spec [OF m1_def K] and ar = args_spec [OF m2]
  note c = call [folded m3_def, unfolded sysv_call_def]
  have hw: "regs m = (regs user)(RCX := rip user, R11 := rflags user)" "rip m = entry"
    "rflags m = rflags user AND NOT FMASK_VALUE" "gs_base m = gs_base user" "kernel_gs_base m = kernel_gs_base user"
    by (simp_all add: m syscall_instruction_def msr init_cpu_registers)
  have rsp: "regs m2 RSP = K - 144" "regs m3 RSP = K - 144" using c by (simp_all add: ar(1) sv(1))
  have "qwords m3 a = qwords m1 a" if "a \<in> set (stack_words (K - 128) 16)" for a
  proof -
    have "a \<noteq> K - 144" using that below_frame by blast
    moreover have "qwords m3 a = qwords m2 a" using c that rsp by simp
    ultimately show ?thesis using ar(2) sv(1) by simp
  qed
  then have "map (qwords m3) (stack_words (K - 128) 16) = map (qwords m1) (stack_words (K - 128) 16)" by simp
  then have F: "map (qwords m3) (stack_words (K - 128) 16) = map (regs m) restored_regs @ [regs m RAX, regs m RCX, regs m R11, regs m RSP]"
    using sv(2) by (simp add: trap_frame_def)
  have s: "K - 128 = regs m3 RSP + 16" using rsp by simp
  note rs = restore_spec [OF e s F]
  have "NOT FMASK_VALUE AND IF_FLAG = 0" by (simp add: FMASK_VALUE_def IF_FLAG_def)
  then have if0: "rflags m2 AND IF_FLAG = 0" using ar(5) sv(6) hw(3) by (simp add: and.assoc)
  have keep: "regs (syscall_entry call_dispatch m) r = regs user r" if "r \<notin> {RAX, RCX, R11}" for r
    using that rs(1,4) hw(1) by (cases r) simp_all
  have arg: "regs m3 RAX = syscall_dispatch table (regs user RAX) (regs user RDI) (regs user RSI) (regs user RDX)
      (regs user R10) (regs user R8) (regs user R9)"
    using c by (simp add: ar(1,2) sv(1) hw(1) rsp)
  show ?thesis using hw keep arg rs if0 rsp c ar sv by simp
qed

definition example_user :: machine where
  "example_user = \<lparr>regs = (\<lambda>r. if r = RAX then 1 else if r = RSP then 0x7000 else 3), rip = 0x400000, rflags = 0x202,
    qwords = (\<lambda>a. if a = 0x1000 then 0x9000 else 0), gs_base = 0, kernel_gs_base = 0x1000\<rparr>"

definition example_dispatch :: "machine \<Rightarrow> machine" where
  "example_dispatch m = m\<lparr>regs := (regs m)(RAX := syscall_dispatch (dispatch_init SYSCALL_TABLE) (regs m RDI) (regs m RSI)
    (regs m RDX) (regs m RCX) (regs m R8) (regs m R9) (qwords m (regs m RSP)))\<rparr>"

theorem syscall_round_trip_witness:
  "let m = syscall_instruction (init_cpu 0xFFFF800000001000 (\<lambda>_. 0)) example_user in
    rip (syscall_entry example_dispatch m) = 0x400000 \<and> regs (syscall_entry example_dispatch m) RSP = 0x7000 \<and>
    regs (syscall_entry example_dispatch m) RAX = syscall_dispatch (dispatch_init SYSCALL_TABLE) 1 3 3 3 3 3 3"
proof -
  let ?m = "syscall_instruction (init_cpu 0xFFFF800000001000 (\<lambda>_. 0)) example_user"
  let ?m2 = "exec (syscall_entry_save @ syscall_entry_args) ?m"
  have "sysv_call (syscall_dispatch (dispatch_init SYSCALL_TABLE)) 16 ?m2 (example_dispatch ?m2)"
    by (simp add: sysv_call_def example_dispatch_def)
  from syscall_round_trip [where call_dispatch = example_dispatch, OF refl refl refl refl this] show ?thesis by (simp add: example_user_def Let_def)
qed

end
