(* ===== verification/F32.thy ===== *)
theory F32
  imports Complex_Main Golem_Prelude "HOL-Library.Log_Nat"
begin

text \<open>
  The IEEE 754 single-precision numbers behind Rust's type f32.  A stored number is its 32-bit
  pattern (what to_bits returns); arithmetic works on the decoded number: a NaN, an infinity, or a
  sign and a rational magnitude (a zero keeps its sign).  Every operation computes the exact result
  and rounds it to the nearest representable number, ties to even, with overflow to infinity and
  gradual underflow.  NaN payloads are not distinguished by arithmetic.

  The lemmas show that rounding is monotone, exact on the representable numbers used as bounds, and
  so that quotients of counts lie between 0 and 1.
\<close>

section \<open>Patterns and decoded numbers\<close>

type_synonym f32 = "32 word"

text \<open>Fin s m is the finite number with sign s (True for negative) and magnitude m.\<close>

datatype fval = NaN | Infty bool | Fin bool rat

definition pow2 :: "int \<Rightarrow> rat" where
  "pow2 e = (if 0 \<le> e then 2 ^ nat e else 1 / 2 ^ nat (- e))"

definition decode :: "f32 \<Rightarrow> fval" where
  "decode b =
     (let s = 2 ^ 31 \<le> unat b;
          e = unat b div 2 ^ 23 mod 2 ^ 8;
          f = unat b mod 2 ^ 23
      in if e = 255 then (if f = 0 then Infty s else NaN)
         else if e = 0 then Fin s (of_nat f * pow2 (- 149))
         else Fin s (of_nat (2 ^ 23 + f) * pow2 (int e - 150)))"

fun is_finite :: "fval \<Rightarrow> bool" where
  "is_finite (Fin s m) = True"
| "is_finite _ = False"

fun signed :: "fval \<Rightarrow> rat" where
  "signed (Fin s m) = (if s then - m else m)"
| "signed _ = 0"

section \<open>Rounding\<close>

text \<open>The exponent of the leading binary digit of a positive rational.\<close>

definition ilog2 :: "rat \<Rightarrow> int" where
  "ilog2 x =
     (let (p, q) = quotient_of x;
          k = int (floorlog 2 (nat p)) - int (floorlog 2 (nat q))
      in if pow2 k \<le> x then k else k - 1)"

definition round_even :: "rat \<Rightarrow> int" where
  "round_even x =
     (let n = \<lfloor>x\<rfloor>; d = x - of_int n
      in if d < 1 / 2 then n else if 1 / 2 < d then n + 1 else if even n then n else n + 1)"

text \<open>The exponent of the last place: 24 digits, or the fixed spacing of the subnormal numbers.\<close>

definition ulp_exp :: "rat \<Rightarrow> int" where
  "ulp_exp x = max (ilog2 x - 23) (- 149)"

definition round_mag :: "rat \<Rightarrow> rat" where
  "round_mag x = of_int (round_even (x / pow2 (ulp_exp x))) * pow2 (ulp_exp x)"

definition rnd :: "bool \<Rightarrow> rat \<Rightarrow> fval" where
  "rnd z v =
     (if v = 0 then Fin z 0
      else let m = round_mag \<bar>v\<bar>
           in if pow2 128 \<le> m then Infty (v < 0) else Fin (v < 0) m)"

text \<open>A pattern from its sign, exponent field and fraction field.\<close>

definition pattern :: "bool \<Rightarrow> nat \<Rightarrow> nat \<Rightarrow> f32" where
  "pattern s e f = word_of_nat ((if s then 2 ^ 31 else 0) + e * 2 ^ 23 + f)"

text \<open>The pattern of a decoded number; a NaN gets the default quiet pattern.\<close>

fun encode :: "fval \<Rightarrow> f32" where
  "encode NaN = 0x7FC00000"
| "encode (Infty s) = (if s then 0xFF800000 else 0x7F800000)"
| "encode (Fin s m) =
     (let e = ulp_exp m;
          k = nat \<lfloor>m / pow2 e\<rfloor>
      in if m = 0 then pattern s 0 0
         else if k < 2 ^ 23 then pattern s 0 k
         else pattern s (nat (e + 150)) (k - 2 ^ 23))"

section \<open>Arithmetic and comparison\<close>

fun fadd :: "fval \<Rightarrow> fval \<Rightarrow> fval" where
  "fadd (Fin s a) (Fin t b) = rnd (s \<and> t) (signed (Fin s a) + signed (Fin t b))"
| "fadd (Infty s) (Infty t) = (if s = t then Infty s else NaN)"
| "fadd (Infty s) (Fin t b) = Infty s"
| "fadd (Fin s a) (Infty t) = Infty t"
| "fadd _ _ = NaN"

fun fneg :: "fval \<Rightarrow> fval" where
  "fneg (Fin s m) = Fin (\<not> s) m"
| "fneg (Infty s) = Infty (\<not> s)"
| "fneg NaN = NaN"

definition fsub :: "fval \<Rightarrow> fval \<Rightarrow> fval" where
  "fsub x y = fadd x (fneg y)"

fun fmul :: "fval \<Rightarrow> fval \<Rightarrow> fval" where
  "fmul (Fin s a) (Fin t b) = rnd (s \<noteq> t) (signed (Fin s a) * signed (Fin t b))"
| "fmul (Infty s) (Infty t) = Infty (s \<noteq> t)"
| "fmul (Infty s) (Fin t b) = (if b = 0 then NaN else Infty (s \<noteq> t))"
| "fmul (Fin s a) (Infty t) = (if a = 0 then NaN else Infty (s \<noteq> t))"
| "fmul _ _ = NaN"

fun fdiv :: "fval \<Rightarrow> fval \<Rightarrow> fval" where
  "fdiv (Fin s a) (Fin t b) =
     (if b = 0 then (if a = 0 then NaN else Infty (s \<noteq> t))
      else rnd (s \<noteq> t) (signed (Fin s a) / signed (Fin t b)))"
| "fdiv (Infty s) (Fin t b) = Infty (s \<noteq> t)"
| "fdiv (Fin s a) (Infty t) = Fin (s \<noteq> t) 0"
| "fdiv _ _ = NaN"

fun flt :: "fval \<Rightarrow> fval \<Rightarrow> bool" where
  "flt (Fin s a) (Fin t b) = (signed (Fin s a) < signed (Fin t b))"
| "flt (Infty s) (Infty t) = (s \<and> \<not> t)"
| "flt (Infty s) (Fin t b) = s"
| "flt (Fin s a) (Infty t) = (\<not> t)"
| "flt _ _ = False"

fun fle :: "fval \<Rightarrow> fval \<Rightarrow> bool" where
  "fle (Fin s a) (Fin t b) = (signed (Fin s a) \<le> signed (Fin t b))"
| "fle (Infty s) (Infty t) = (s \<or> \<not> t)"
| "fle (Infty s) (Fin t b) = s"
| "fle (Fin s a) (Infty t) = (\<not> t)"
| "fle _ _ = False"

text \<open>f32::min returns the other argument on a NaN; f32::clamp keeps a NaN.\<close>

definition fmin :: "fval \<Rightarrow> fval \<Rightarrow> fval" where
  "fmin x y = (if x = NaN then y else if y = NaN then x else if flt y x then y else x)"

definition fclamp :: "fval \<Rightarrow> fval \<Rightarrow> fval \<Rightarrow> fval" where
  "fclamp x lo hi = (let x = (if flt x lo then lo else x) in if flt hi x then hi else x)"

text \<open>The conversion "n as f32" of an unsigned integer.\<close>

definition f32_of_nat :: "nat \<Rightarrow> fval" where
  "f32_of_nat n = rnd False (of_nat n)"

abbreviation f0 :: fval where "f0 \<equiv> Fin False 0"
abbreviation f1 :: fval where "f1 \<equiv> Fin False 1"

section \<open>Powers of two and the leading digit\<close>

lemma pow2_powi: "pow2 e = 2 powi e"
  by (simp add: pow2_def power_int_def power_one_over inverse_eq_divide)

lemma pow2_pos [simp]: "0 < pow2 e" "0 \<le> pow2 e" "pow2 e \<noteq> 0"
  by (simp_all add: pow2_powi)

lemma pow2_add: "pow2 (a + b) = pow2 a * pow2 b"
  by (simp add: pow2_powi power_int_add)

lemma pow2_diff: "pow2 (a - b) = pow2 a / pow2 b"
  by (simp add: pow2_powi power_int_diff)

lemma pow2_le_iff: "pow2 a \<le> pow2 b \<longleftrightarrow> a \<le> b"
proof (cases "a \<le> b")
  case True
  then show ?thesis by (simp add: pow2_powi power_int_increasing)
next
  case False
  then have "pow2 b < pow2 a" by (simp add: pow2_powi power_int_strict_increasing)
  then show ?thesis using False by simp
qed

lemma pow2_less_iff: "pow2 a < pow2 b \<longleftrightarrow> a < b"
  using pow2_le_iff [of b a] by linarith

lemma pow2_nat: "0 \<le> e \<Longrightarrow> pow2 e = of_int (2 ^ nat e)"
  by (simp add: pow2_def)

lemma floorlog_pow2:
  assumes "0 < n"
  shows "pow2 (int (floorlog 2 n) - 1) \<le> of_nat n" "of_nat n < pow2 (int (floorlog 2 n))"
proof -
  have b: "2 ^ (floorlog 2 n - 1) \<le> n" "n < 2 ^ floorlog 2 n" using floorlog_bounds [of n 2] assms by auto
  have pos: "0 < floorlog 2 n" using assms by (simp add: floorlog_def)
  have "(of_nat (2 ^ (floorlog 2 n - 1)) :: rat) \<le> of_nat n" using b(1) of_nat_mono by blast
  then show "pow2 (int (floorlog 2 n) - 1) \<le> of_nat n" using pos by (simp add: pow2_def nat_diff_distrib')
  have "(of_nat n :: rat) < of_nat (2 ^ floorlog 2 n)" using b(2) of_nat_less_iff by blast
  then show "of_nat n < pow2 (int (floorlog 2 n))" by (simp add: pow2_def)
qed

lemma ilog2_bounds:
  assumes "0 < x"
  shows "pow2 (ilog2 x) \<le> x" "x < pow2 (ilog2 x + 1)"
proof -
  obtain p q where pq: "quotient_of x = (p, q)" by fastforce
  have q: "0 < q" using quotient_of_denom_pos [OF pq] .
  have x: "x = of_int p / of_int q" using quotient_of_div [OF pq] .
  have p: "0 < p" using assms q x by (simp add: zero_less_divide_iff)
  let ?a = "int (floorlog 2 (nat p))" and ?b = "int (floorlog 2 (nat q))"
  have P: "pow2 (?a - 1) \<le> of_int p" "of_int p < pow2 ?a"
    using floorlog_pow2 [of "nat p"] p by simp_all
  have Q: "pow2 (?b - 1) \<le> of_int q" "of_int q < pow2 ?b"
    using floorlog_pow2 [of "nat q"] q by simp_all
  have lo: "pow2 (?a - ?b - 1) \<le> x"
  proof -
    have "pow2 (?a - 1) / pow2 ?b \<le> of_int p / of_int q"
      by (rule frac_le) (use P Q p q in simp_all)
    then show ?thesis using x by (simp add: pow2_diff [symmetric] algebra_simps)
  qed
  have hi: "x < pow2 (?a - ?b + 1)"
  proof -
    have "of_int p / of_int q < pow2 ?a / pow2 (?b - 1)"
      by (rule frac_less) (use P Q p q in simp_all)
    then show ?thesis using x by (simp add: pow2_diff [symmetric] algebra_simps)
  qed
  have e: "ilog2 x = (if pow2 (?a - ?b) \<le> x then ?a - ?b else ?a - ?b - 1)"
    by (simp add: ilog2_def pq Let_def)
  show "pow2 (ilog2 x) \<le> x" using lo by (simp add: e)
  show "x < pow2 (ilog2 x + 1)" using hi by (auto simp: e)
qed

lemma ilog2_unique:
  assumes "0 < x" "pow2 k \<le> x" "x < pow2 (k + 1)"
  shows "ilog2 x = k"
proof -
  have "pow2 k < pow2 (ilog2 x + 1)" "pow2 (ilog2 x) < pow2 (k + 1)"
    using assms ilog2_bounds [OF assms(1)] by linarith+
  then show ?thesis by (simp add: pow2_less_iff)
qed

lemma ilog2_mono:
  assumes "0 < x" "x \<le> y"
  shows "ilog2 x \<le> ilog2 y"
proof -
  have "pow2 (ilog2 x) < pow2 (ilog2 y + 1)"
    using ilog2_bounds [of x] ilog2_bounds [of y] assms by linarith
  then show ?thesis by (simp add: pow2_less_iff)
qed

lemma ulp_exp_mono: "0 < x \<Longrightarrow> x \<le> y \<Longrightarrow> ulp_exp x \<le> ulp_exp y"
  using ilog2_mono [of x y] by (simp add: ulp_exp_def)

lemma ilog2_pow2 [simp]: "ilog2 (pow2 k) = k"
  by (rule ilog2_unique) (simp_all add: pow2_less_iff)

section \<open>Rounding is monotone and exact where it should be\<close>

lemma round_even_int [simp]: "round_even (of_int n) = n"
  by (simp add: round_even_def)

lemma round_even_near: "\<lfloor>x\<rfloor> \<le> round_even x" "round_even x \<le> \<lfloor>x\<rfloor> + 1"
  by (simp_all add: round_even_def Let_def)

lemma round_even_mono:
  assumes "x \<le> y"
  shows "round_even x \<le> round_even y"
proof (cases "\<lfloor>x\<rfloor> = \<lfloor>y\<rfloor>")
  case True
  then show ?thesis using assms by (auto simp: round_even_def Let_def)
next
  case False
  then have "\<lfloor>x\<rfloor> + 1 \<le> \<lfloor>y\<rfloor>" using floor_mono [OF assms] by simp
  then show ?thesis using round_even_near [of x] round_even_near [of y] by linarith
qed

lemma round_mag_at:
  assumes "0 < x" "ulp_exp x \<le> k"
  shows "x \<le> pow2 k \<Longrightarrow> round_mag x \<le> pow2 k" "pow2 k \<le> x \<Longrightarrow> pow2 k \<le> round_mag x"
proof -
  let ?e = "ulp_exp x" and ?n = "2 ^ nat (k - ulp_exp x) :: int"
  have n: "of_int ?n = pow2 k / pow2 ?e" using assms pow2_nat [of "k - ?e"] by (simp add: pow2_diff)
  have eq: "pow2 k = of_int ?n * pow2 ?e" unfolding n by simp
  {
    assume "x \<le> pow2 k"
    then have "x / pow2 ?e \<le> of_int ?n" unfolding n by (intro divide_right_mono) simp_all
    then have "round_even (x / pow2 ?e) \<le> ?n" using round_even_mono round_even_int by metis
    then have "of_int (round_even (x / pow2 ?e)) \<le> (of_int ?n :: rat)" by simp
    then show "round_mag x \<le> pow2 k"
      unfolding round_mag_def eq by (intro mult_right_mono) simp_all
  }
  {
    assume "pow2 k \<le> x"
    then have "of_int ?n \<le> x / pow2 ?e" unfolding n by (intro divide_right_mono) simp_all
    then have "?n \<le> round_even (x / pow2 ?e)" using round_even_mono round_even_int by metis
    then have "(of_int ?n :: rat) \<le> of_int (round_even (x / pow2 ?e))" by simp
    then show "pow2 k \<le> round_mag x"
      unfolding round_mag_def eq by (intro mult_right_mono) simp_all
  }
qed

lemma round_mag_mono:
  assumes "0 < x" "x \<le> y"
  shows "round_mag x \<le> round_mag y"
proof (cases "ulp_exp x = ulp_exp y")
  case True
  have "x / pow2 (ulp_exp y) \<le> y / pow2 (ulp_exp y)" using assms by (simp add: divide_right_mono)
  then have "round_even (x / pow2 (ulp_exp y)) \<le> round_even (y / pow2 (ulp_exp y))" by (rule round_even_mono)
  then show ?thesis unfolding round_mag_def True by (simp add: mult_right_mono)
next
  case False
  then have lt: "ulp_exp x < ulp_exp y" using ulp_exp_mono [OF assms] by simp
  let ?k = "ilog2 y"
  have k: "ulp_exp y = ?k - 23" using lt by (auto simp: ulp_exp_def max_def split: if_splits)
  have "ilog2 x + 1 \<le> ?k" using lt k by (simp add: ulp_exp_def)
  then have "x \<le> pow2 ?k" using ilog2_bounds(2) [OF assms(1)] pow2_le_iff [of "ilog2 x + 1" ?k] by simp
  then have "round_mag x \<le> pow2 ?k" using round_mag_at(1) [of x ?k] assms lt k by simp
  moreover have "pow2 ?k \<le> round_mag y" using round_mag_at(2) [of y ?k] ilog2_bounds(1) [of y] assms k by simp
  ultimately show ?thesis by simp
qed

lemma round_mag_pow2: "- 149 \<le> k \<Longrightarrow> round_mag (pow2 k) = pow2 k"
  using round_mag_at [of "pow2 k" k] by (simp add: ulp_exp_def antisym)

lemma round_mag_nonneg: "0 < x \<Longrightarrow> 0 \<le> round_mag x"
proof -
  assume "0 < x"
  then have "of_int 0 \<le> x / pow2 (ulp_exp x)" by simp
  then have "0 \<le> round_even (x / pow2 (ulp_exp x))" using round_even_mono round_even_int by metis
  then show ?thesis by (simp add: round_mag_def)
qed

lemma pow2_0 [simp]: "pow2 0 = 1"
  by (simp add: pow2_def)

lemma round_mag_1 [simp]: "round_mag 1 = 1"
  using round_mag_pow2 [of 0] by simp

text \<open>The rounded value of an exact result, without the sign of a zero.\<close>

definition rounded :: "rat \<Rightarrow> rat" where
  "rounded v = (if v = 0 then 0 else sgn v * round_mag \<bar>v\<bar>)"

lemma rounded_simps [simp]: "rounded 0 = 0" "rounded 1 = 1" "rounded (- v) = - rounded v"
  by (simp_all add: rounded_def)

lemma rounded_nonneg: "0 \<le> v \<Longrightarrow> 0 \<le> rounded v"
  using round_mag_nonneg [of v] by (simp add: rounded_def)

lemma rounded_mono:
  assumes "x \<le> y"
  shows "rounded x \<le> rounded y"
proof (cases "0 \<le> x")
  case True
  then show ?thesis using assms round_mag_mono [of x y] rounded_nonneg [of y]
    by (cases "x = 0") (simp_all add: rounded_def)
next
  case x: False
  show ?thesis
  proof (cases "0 \<le> y")
    case True
    then show ?thesis using x rounded_nonneg [of y] rounded_nonneg [of "- x"] by simp
  next
    case False
    then have "round_mag (- y) \<le> round_mag (- x)" using assms by (intro round_mag_mono) simp_all
    then show ?thesis using x False by (simp add: rounded_def)
  qed
qed

lemma rounded_pow2: "- 149 \<le> k \<Longrightarrow> rounded (pow2 k) = pow2 k"
  by (simp add: rounded_def round_mag_pow2)

lemma rounded_bound: "\<bar>v\<bar> \<le> pow2 k \<Longrightarrow> - 149 \<le> k \<Longrightarrow> \<bar>rounded v\<bar> \<le> pow2 k"
  using rounded_mono [of v "pow2 k"] rounded_mono [of "- pow2 k" v] by (simp add: rounded_pow2 abs_le_iff)

text \<open>To evaluate a rounding: the binary exponent and the significand of the result.\<close>

lemma round_even_at:
  assumes "\<bar>x - of_int n\<bar> < 1 / 2 \<or> \<bar>x - of_int n\<bar> = 1 / 2 \<and> even n"
  shows "round_even x = n"
proof -
  have "\<lfloor>x\<rfloor> = n \<or> \<lfloor>x\<rfloor> = n - 1" using assms by (auto simp: floor_eq_iff abs_if split: if_splits)
  then show ?thesis
  proof
    assume "\<lfloor>x\<rfloor> = n"
    then show ?thesis using assms by (auto simp: round_even_def Let_def abs_if split: if_splits)
  next
    assume f: "\<lfloor>x\<rfloor> = n - 1"
    then have "of_int n - x \<le> 1 / 2" "x < of_int n" using assms by (auto simp: floor_eq_iff abs_if split: if_splits)
    then show ?thesis using assms f by (auto simp: round_even_def Let_def abs_if split: if_splits)
  qed
qed

lemma rounded_at:
  assumes "pow2 k \<le> v" "v < pow2 (k + 1)" "- 126 \<le> k"
    "\<bar>v / pow2 (k - 23) - of_int n\<bar> < 1 / 2 \<or> \<bar>v / pow2 (k - 23) - of_int n\<bar> = 1 / 2 \<and> even n"
    "w = of_int n * pow2 (k - 23)"
  shows "rounded v = w"
proof -
  have v: "0 < v" using assms(1) pow2_pos(1) [of k] by linarith
  then have "ulp_exp v = k - 23" using ilog2_unique [OF v assms(1,2)] assms(3) by (simp add: ulp_exp_def)
  then show ?thesis using v round_even_at [OF assms(4)] assms(5) by (simp add: rounded_def round_mag_def)
qed

lemma rounded_unit: "0 \<le> v \<Longrightarrow> v \<le> 1 \<Longrightarrow> 0 \<le> rounded v \<and> rounded v \<le> 1"
  using rounded_mono [of v 1] rounded_nonneg [of v] by simp

lemma rnd_finite:
  assumes "\<bar>v\<bar> \<le> pow2 127"
  shows "is_finite (rnd z v)" "signed (rnd z v) = rounded v"
proof -
  have "round_mag \<bar>v\<bar> < pow2 128" if "v \<noteq> 0"
  proof -
    have "\<bar>rounded v\<bar> \<le> pow2 127" using assms by (rule rounded_bound) simp
    then have "\<bar>round_mag \<bar>v\<bar>\<bar> \<le> pow2 127" using that by (simp add: rounded_def abs_mult abs_sgn_eq)
    moreover have "pow2 127 < pow2 128" by (simp add: pow2_less_iff)
    ultimately show ?thesis by linarith
  qed
  then show "is_finite (rnd z v)" "signed (rnd z v) = rounded v"
    by (cases "v = 0"; auto simp: rnd_def rounded_def Let_def not_le [symmetric])+
qed

section \<open>Finite arithmetic\<close>

lemma finite_fval: "is_finite x \<Longrightarrow> \<exists>s m. x = Fin s m"
  by (cases x) simp_all

lemma fadd_finite:
  assumes "is_finite x" "is_finite y" "\<bar>signed x + signed y\<bar> \<le> pow2 127"
  shows "is_finite (fadd x y) \<and> signed (fadd x y) = rounded (signed x + signed y)"
  using assms by (cases x; cases y) (simp_all add: rnd_finite del: signed.simps)

lemma fneg_finite [simp]: "is_finite (fneg x) = is_finite x" "signed (fneg x) = - signed x"
  by (cases x; simp)+

lemma fsub_finite:
  assumes "is_finite x" "is_finite y" "\<bar>signed x - signed y\<bar> \<le> pow2 127"
  shows "is_finite (fsub x y) \<and> signed (fsub x y) = rounded (signed x - signed y)"
  using fadd_finite [of x "fneg y"] assms by (simp add: fsub_def)

lemma fmul_finite:
  assumes "is_finite x" "is_finite y" "\<bar>signed x * signed y\<bar> \<le> pow2 127"
  shows "is_finite (fmul x y) \<and> signed (fmul x y) = rounded (signed x * signed y)"
  using assms by (cases x; cases y) (simp_all add: rnd_finite del: signed.simps)

lemma fdiv_finite:
  assumes "is_finite x" "is_finite y" "signed y \<noteq> 0" "\<bar>signed x / signed y\<bar> \<le> pow2 127"
  shows "is_finite (fdiv x y) \<and> signed (fdiv x y) = rounded (signed x / signed y)"
proof -
  obtain s a t b where xy: "x = Fin s a" "y = Fin t b" using assms(1,2) finite_fval by metis
  then have "b \<noteq> 0" using assms(3) by (auto split: if_splits)
  then show ?thesis using assms(4) unfolding xy fdiv.simps by (simp add: rnd_finite del: signed.simps)
qed

lemma fle_finite: "is_finite x \<Longrightarrow> is_finite y \<Longrightarrow> fle x y \<longleftrightarrow> signed x \<le> signed y"
  by (cases x; cases y) simp_all

lemma flt_finite: "is_finite x \<Longrightarrow> is_finite y \<Longrightarrow> flt x y \<longleftrightarrow> signed x < signed y"
  by (cases x; cases y) simp_all

lemma fle_NaN [simp]: "\<not> fle NaN x" "\<not> fle x NaN" "\<not> flt NaN x" "\<not> flt x NaN"
  by (cases x; simp)+

lemma fclamp_unit:
  assumes "is_finite x"
  shows "is_finite (fclamp x f0 f1) \<and> signed (fclamp x f0 f1) = max 0 (min 1 (signed x))"
  using assms by (auto simp: fclamp_def Let_def flt_finite)

lemma fclamp_NaN: "fclamp NaN lo hi = NaN"
  by (simp add: fclamp_def)

text \<open>Numbers between 0 and 1.\<close>

definition in_unit :: "fval \<Rightarrow> bool" where
  "in_unit x \<longleftrightarrow> is_finite x \<and> 0 \<le> signed x \<and> signed x \<le> 1"

lemma in_unit_consts [simp]: "in_unit f0" "in_unit f1"
  by (simp_all add: in_unit_def)

lemma in_unit_iff: "in_unit x \<longleftrightarrow> fle f0 x \<and> fle x f1"
  by (cases x) (auto simp: in_unit_def)

lemma in_unit_clamp: "x \<noteq> NaN \<Longrightarrow> in_unit (fclamp x f0 f1)"
  by (cases x) (auto simp: fclamp_def in_unit_def Let_def)

lemma in_unit_fmin: "in_unit x \<Longrightarrow> y \<noteq> NaN \<Longrightarrow> fle f0 y \<Longrightarrow> in_unit (fmin y x)"
  by (cases x; cases y) (auto simp: fmin_def in_unit_def)

lemma f32_of_nat_finite:
  assumes "n < 2 ^ 64"
  shows "is_finite (f32_of_nat n)" "signed (f32_of_nat n) = rounded (of_nat n)"
proof -
  have "(of_nat n :: rat) < of_nat (2 ^ 64)" using assms of_nat_less_iff by blast
  also have "\<dots> = pow2 64" by (simp add: pow2_def)
  also have "\<dots> \<le> pow2 127" by (simp add: pow2_le_iff)
  finally have "\<bar>of_nat n :: rat\<bar> \<le> pow2 127" by simp
  then show "is_finite (f32_of_nat n)" "signed (f32_of_nat n) = rounded (of_nat n)"
    by (simp_all add: f32_of_nat_def rnd_finite)
qed

lemma rounded_of_nat_ge_1: "0 < n \<Longrightarrow> 1 \<le> rounded (of_nat n)"
  using rounded_mono [of 1 "of_nat n"] by simp

lemma unit_le_pow2: "\<bar>x\<bar> \<le> 1 \<Longrightarrow> \<bar>x\<bar> \<le> pow2 127"
  using pow2_le_iff [of 0 127] by simp

text \<open>The quotient of two counts, the first at most the second, lies between 0 and 1.\<close>

lemma count_quotient:
  assumes "k \<le> n" "0 < n" "n < 2 ^ 64"
  shows "in_unit (fdiv (f32_of_nat k) (f32_of_nat n))"
    "signed (fdiv (f32_of_nat k) (f32_of_nat n)) = rounded (rounded (of_nat k) / rounded (of_nat n))"
proof -
  let ?q = "rounded (of_nat k) / rounded (of_nat n) :: rat"
  have k: "is_finite (f32_of_nat k)" "signed (f32_of_nat k) = rounded (of_nat k)"
    using assms by (simp_all add: f32_of_nat_finite)
  have n: "is_finite (f32_of_nat n)" "signed (f32_of_nat n) = rounded (of_nat n)"
    using assms by (simp_all add: f32_of_nat_finite)
  have le: "0 \<le> rounded (of_nat k)" "rounded (of_nat k) \<le> rounded (of_nat n)" "1 \<le> rounded (of_nat n)"
    using assms by (simp_all add: rounded_nonneg rounded_mono rounded_of_nat_ge_1)
  then have q: "0 \<le> ?q" "?q \<le> 1" by simp_all
  then have "\<bar>?q\<bar> \<le> pow2 127" by (intro unit_le_pow2) simp
  then have d: "is_finite (fdiv (f32_of_nat k) (f32_of_nat n)) \<and> signed (fdiv (f32_of_nat k) (f32_of_nat n)) = rounded ?q"
    using fdiv_finite [OF k(1) n(1)] k n le by simp
  then show "signed (fdiv (f32_of_nat k) (f32_of_nat n)) = rounded ?q" by simp
  show "in_unit (fdiv (f32_of_nat k) (f32_of_nat n))" using d rounded_unit [OF q] by (simp add: in_unit_def)
qed

section \<open>Patterns round trip\<close>

text \<open>A magnitude is representable when it is a whole number of units in the last place.\<close>

definition representable :: "rat \<Rightarrow> bool" where
  "representable m \<longleftrightarrow> m = 0 \<or> (0 < m \<and> m < pow2 128 \<and> (\<exists>k. m = of_int k * pow2 (ulp_exp m)))"

lemma decode_pattern:
  assumes "e < 2 ^ 8" "f < 2 ^ 23"
  shows "decode (pattern s e f) =
    (if e = 255 then (if f = 0 then Infty s else NaN)
     else if e = 0 then Fin s (of_nat f * pow2 (- 149))
     else Fin s (of_nat (2 ^ 23 + f) * pow2 (int e - 150)))"
proof -
  let ?n = "(if s then 2 ^ 31 else 0) + e * 2 ^ 23 + f"
  have "?n < 2 ^ 32" using assms by simp
  then have n: "unat (pattern s e f) = ?n" unfolding pattern_def unat_of_nat by (intro mod_less) simp
  have n': "?n = f + ((if s then 2 ^ 8 else 0) + e) * 2 ^ 23" by simp
  have "?n div 2 ^ 23 = (if s then 2 ^ 8 else 0) + e" unfolding n' using assms(2) by (simp only: div_mult_self1) simp
  then have "?n div 2 ^ 23 mod 2 ^ 8 = e" using assms by simp
  moreover have "?n mod 2 ^ 23 = f" unfolding n' using assms(2) by (simp only: mod_mult_self1) simp
  moreover have "2 ^ 31 \<le> ?n \<longleftrightarrow> s" using assms by simp
  ultimately show ?thesis unfolding decode_def n Let_def by (simp only:)
qed

lemma representable_units:
  assumes "representable m" "m \<noteq> 0"
  obtains k where "m = of_nat k * pow2 (ulp_exp m)" "0 < k" "k < 2 ^ 24" "ulp_exp m < 105"
    "k < 2 ^ 23 \<Longrightarrow> ulp_exp m = - 149"
proof -
  let ?e = "ulp_exp m"
  obtain j where j: "0 < m" "m < pow2 128" "m = of_int j * pow2 ?e"
    using assms by (auto simp: representable_def)
  then have "0 < j" by (metis of_int_0_less_iff pow2_pos(1) zero_less_mult_pos2)
  then obtain k where k: "j = int k" "0 < k" by (metis int_nat_eq nat_0_iff not_le order_less_le zero_less_nat_eq)
  have m: "m = of_nat k * pow2 ?e" using j(3) k by simp
  note b = ilog2_bounds [OF j(1)]
  have "pow2 (ilog2 m) < pow2 128" using b j by simp
  then have l: "ilog2 m < 128" by (simp add: pow2_less_iff)
  have "ilog2 m + 1 \<le> ?e + 24" unfolding ulp_exp_def by linarith
  then have "m < pow2 (?e + 24)" using b(2) pow2_le_iff order_less_le_trans by blast
  then have "of_nat k * pow2 ?e < pow2 24 * pow2 ?e" using m by (metis mult.commute pow2_add)
  then have "of_nat k < pow2 24" by (rule mult_right_less_imp_less) simp
  then have "(of_nat k :: rat) < of_nat (2 ^ 24)" by (simp add: pow2_def)
  then have k24: "k < 2 ^ 24" by (rule of_nat_less_imp_less)
  have "?e = - 149" if "k < 2 ^ 23"
  proof (rule ccontr)
    assume "?e \<noteq> - 149"
    then have "ilog2 m = ?e + 23" by (auto simp: ulp_exp_def max_def split: if_splits)
    then have "pow2 23 * pow2 ?e \<le> of_nat k * pow2 ?e" using b(1) m by (metis mult.commute pow2_add)
    then have "pow2 23 \<le> of_nat k" by (rule mult_right_le_imp_le) simp
    then have "(of_nat (2 ^ 23) :: rat) \<le> of_nat k" by (simp add: pow2_def)
    then have "2 ^ 23 \<le> k" by (simp only: of_nat_le_iff)
    then show False using that by simp
  qed
  moreover have "?e < 105" using l by (simp add: ulp_exp_def)
  ultimately show thesis using that m k k24 by blast
qed

lemma decode_encode:
  assumes "representable m"
  shows "decode (encode (Fin s m)) = Fin s m"
proof (cases "m = 0")
  case True
  then show ?thesis by (simp add: decode_pattern)
next
  case False
  let ?e = "ulp_exp m"
  obtain k where k: "m = of_nat k * pow2 ?e" "0 < k" "k < 2 ^ 24" "?e < 105" "k < 2 ^ 23 \<Longrightarrow> ?e = - 149"
    using representable_units [OF assms False] by blast
  have "m / pow2 ?e = of_nat k" using k(1) by (metis nonzero_mult_div_cancel_right pow2_pos(3))
  then have f: "nat \<lfloor>m / pow2 ?e\<rfloor> = k" by simp
  show ?thesis
  proof (cases "k < 2 ^ 23")
    case True
    then show ?thesis using False f k(1) k(5) by (simp add: decode_pattern Let_def)
  next
    case big: False
    have e: "0 < ?e + 150" "nat (?e + 150) < 255" using k(4) by (auto simp: ulp_exp_def)
    then have "int (nat (?e + 150)) - 150 = ?e" by simp
    then show ?thesis using False f big k(1,3) e by (simp add: decode_pattern Let_def)
  qed
qed

lemma representable_multiple:
  assumes "0 < m" "m < pow2 128" "m = of_int j * pow2 e" "ulp_exp m \<le> e"
  shows "representable m"
proof -
  have "pow2 e = of_int (2 ^ nat (e - ulp_exp m)) * pow2 (ulp_exp m)"
    using pow2_nat [of "e - ulp_exp m"] assms(4) pow2_add [of "e - ulp_exp m" "ulp_exp m"] by simp
  then have "m = of_int (j * 2 ^ nat (e - ulp_exp m)) * pow2 (ulp_exp m)" using assms(3) by simp
  then show ?thesis using assms(1,2) unfolding representable_def by blast
qed

lemma round_mag_representable:
  assumes "0 < x" "round_mag x < pow2 128"
  shows "representable (round_mag x)"
proof (cases "round_mag x = 0")
  case False
  let ?m = "round_mag x" and ?e = "ulp_exp x"
  have m: "0 < ?m" using False round_mag_nonneg [OF assms(1)] by simp
  have "ilog2 x + 1 \<le> ?e + 24" unfolding ulp_exp_def by linarith
  then have "x \<le> pow2 (?e + 24)" using ilog2_bounds(2) [OF assms(1)] pow2_le_iff [of "ilog2 x + 1" "?e + 24"] by simp
  then have le: "?m \<le> pow2 (?e + 24)" by (intro round_mag_at(1)) (use assms in simp_all)
  have e: "- 149 \<le> ?e" by (simp add: ulp_exp_def)
  have u: "ulp_exp ?m \<le> ?e \<or> ?m = pow2 (?e + 24)"
  proof (cases "?m = pow2 (?e + 24)")
    case False
    then have "pow2 (ilog2 ?m) < pow2 (?e + 24)" using le ilog2_bounds(1) [OF m] by simp
    then show ?thesis using e by (simp add: pow2_less_iff ulp_exp_def)
  qed simp
  then show ?thesis
  proof
    assume "ulp_exp ?m \<le> ?e"
    then show ?thesis by (intro representable_multiple [OF m assms(2)]) (simp add: round_mag_def)
  next
    assume p: "?m = pow2 (?e + 24)"
    have "ulp_exp ?m \<le> ?e + 24" unfolding p using e by (simp add: ulp_exp_def)
    then show ?thesis using representable_multiple [OF m assms(2), of 1 "?e + 24"] p by simp
  qed
qed (simp add: representable_def)

text \<open>The stored pattern of a rounded result decodes to that result.\<close>

lemma decode_encode_rnd: "decode (encode (rnd z v)) = rnd z v"
proof -
  have i: "decode (encode (Infty s)) = Infty s" for s
    using decode_pattern [of 255 0 s] by (cases s) (simp_all add: pattern_def)
  show ?thesis
  proof (cases "rnd z v")
    case (Fin s m)
    then have "representable m"
      using round_mag_representable [of "\<bar>v\<bar>"]
      by (auto simp: rnd_def Let_def representable_def [of 0] split: if_splits)
    then show ?thesis using Fin decode_encode by simp
  qed (use i in \<open>auto simp: rnd_def Let_def split: if_splits\<close>)
qed

end
