(* ===== verification/Rust_Format.thy ===== *)
theory Rust_Format
  imports Golem_Prelude
begin

text \<open>
  The pieces of Rust's formatting and encoding that the sources use: decimal and hexadecimal numbers (\<open>{}\<close> and
  \<open>{:x}\<close> on an unsigned integer), the bytes of a string, the little-endian bytes of a word and UTF-8.
\<close>

section \<open>Numbers and texts\<close>

fun dec :: "nat \<Rightarrow> string" where
  "dec n = (if n < 10 then [char_of (48 + n)] else dec (n div 10) @ [char_of (48 + n mod 10)])"

declare dec.simps [simp del]

definition bytes :: "string \<Rightarrow> u8 list" where
  "bytes s = map (\<lambda>c. of_nat (of_char c)) s"

abbreviation nl :: string where "nl \<equiv> [CHR 0x0A]"
abbreviation em_dash :: string where "em_dash \<equiv> [CHR 0xE2, CHR 0x80, CHR 0x94]"
abbreviation quoted :: "string \<Rightarrow> string" where "quoted s \<equiv> [CHR 0x27] @ s @ [CHR 0x27]"

lemma bytes_inj [simp]: "bytes s = bytes t \<longleftrightarrow> s = t"
proof
  have "inj (\<lambda>c. of_nat (of_char c) :: u8)"
  proof (rule injI)
    fix c d :: char assume "of_nat (of_char c) = (of_nat (of_char d) :: u8)"
    then have "unat (of_nat (of_char c) :: u8) = unat (of_nat (of_char d) :: u8)" by simp
    then show "c = d" by (simp add: unat_of_nat)
  qed
  then show "bytes s = bytes t \<Longrightarrow> s = t" unfolding bytes_def by (rule map_injective [rotated])
qed simp

definition digit_char :: "char \<Rightarrow> bool" where
  "digit_char c \<longleftrightarrow> of_char c \<in> {48..<58 :: nat}"

lemma dec_digits: "c \<in> set (dec n) \<Longrightarrow> digit_char c"
proof (induction n rule: dec.induct)
  case (1 n)
  have "digit_char (char_of (48 + k))" if "k < 10" for k :: nat using that by (simp add: digit_char_def)
  then show ?case using 1 by (auto simp: dec.simps [of n] split: if_splits)
qed

fun undec :: "nat \<Rightarrow> string \<Rightarrow> nat" where
  "undec a [] = a"
| "undec a (c # cs) = undec (10 * a + (of_char c - 48)) cs"

lemma undec_append: "undec a (s @ t) = undec (undec a s) t"
  by (induction s arbitrary: a) simp_all

lemma undec_dec: "undec 0 (dec n) = n"
proof (induction n rule: dec.induct)
  case (1 n)
  then show ?case by (cases "n < 10") (simp_all add: dec.simps [of n] undec_append)
qed

lemma dec_inj [simp]: "dec m = dec n \<longleftrightarrow> m = n"
  using undec_dec by metis

section \<open>Little-endian words\<close>

definition le_bytes :: "nat \<Rightarrow> 'a::len word \<Rightarrow> u8 list" where
  "le_bytes n w = map (\<lambda>i. ucast (drop_bit (8 * i) w)) [0..<n]"

fun from_le :: "u8 list \<Rightarrow> 'a::len word" where
  "from_le [] = 0"
| "from_le (b # bs) = ucast b OR push_bit 8 (from_le bs)"

lemma length_le_bytes [simp]: "length (le_bytes n w) = n"
  by (simp add: le_bytes_def)

lemma from_le_drop:
  fixes w :: "'a::len word"
  assumes "LENGTH('a) \<le> 8 * n" "k \<le> n"
  shows "from_le (map (\<lambda>i. ucast (drop_bit (8 * i) w)) [k..<n]) = drop_bit (8 * k) w"
  using assms(2)
proof (induction "n - k" arbitrary: k)
  case 0
  have "drop_bit (8 * n) w = 0"
    by (rule bit_word_eqI) (use assms(1) in \<open>auto simp: bit_drop_bit_eq dest!: bit_imp_le_length\<close>)
  then show ?case using 0 by simp
next
  case (Suc d)
  then have "from_le (map (\<lambda>i. ucast (drop_bit (8 * i) w)) [Suc k..<n]) = drop_bit (8 * Suc k) w" by simp
  moreover have "[k..<n] = k # [Suc k..<n]" using Suc.hyps(2) by (simp add: upt_conv_Cons)
  moreover have "(ucast (ucast (drop_bit (8 * k) w) :: u8) :: 'a word) OR push_bit 8 (drop_bit (8 * Suc k) w) = drop_bit (8 * k) w"
  proof (rule bit_word_eqI)
    fix j assume j: "j < LENGTH('a)"
    show "bit ((ucast (ucast (drop_bit (8 * k) w) :: u8) :: 'a word) OR push_bit 8 (drop_bit (8 * Suc k) w)) j = bit (drop_bit (8 * k) w) j"
    proof (cases "j < 8")
      case False
      then have "8 * Suc k + (j - 8) = 8 * k + j" by simp
      then show ?thesis using j False by (simp add: bit_or_iff bit_ucast_iff bit_drop_bit_eq bit_push_bit_iff)
    qed (use j in \<open>simp add: bit_or_iff bit_ucast_iff bit_drop_bit_eq bit_push_bit_iff\<close>)
  qed
  ultimately show ?case by simp
qed

lemma from_le_bytes [simp]:
  "LENGTH('a::len) \<le> 8 * n \<Longrightarrow> from_le (le_bytes n w) = (w :: 'a word)"
  using from_le_drop [of n 0 w] by (simp add: le_bytes_def)

fun hexnum :: "nat \<Rightarrow> string" where
  "hexnum n =
     (let d = (\<lambda>k. char_of (if k < 10 then 48 + k else 87 + k))
      in if n < 16 then [d n] else hexnum (n div 16) @ [d (n mod 16)])"

declare hexnum.simps [simp del]

section \<open>UTF-8\<close>

text \<open>The length of the first encoded character, by the table of well-formed sequences of the Unicode standard.\<close>

definition byte_in :: "u8 \<Rightarrow> u8 \<Rightarrow> u8 list \<Rightarrow> nat \<Rightarrow> bool" where
  "byte_in lo hi s i \<longleftrightarrow> i < length s \<and> lo \<le> s ! i \<and> s ! i \<le> hi"

definition utf8_len :: "u8 list \<Rightarrow> nat option" where
  "utf8_len s =
     (if byte_in 0 0x7F s 0 then Some 1
      else if byte_in 0xC2 0xDF s 0 \<and> byte_in 0x80 0xBF s 1 then Some 2
      else if byte_in 0xE0 0xEF s 0 \<and>
              byte_in (if s ! 0 = 0xE0 then 0xA0 else 0x80) (if s ! 0 = 0xED then 0x9F else 0xBF) s 1 \<and>
              byte_in 0x80 0xBF s 2 then Some 3
      else if byte_in 0xF0 0xF4 s 0 \<and>
              byte_in (if s ! 0 = 0xF0 then 0x90 else 0x80) (if s ! 0 = 0xF4 then 0x8F else 0xBF) s 1 \<and>
              byte_in 0x80 0xBF s 2 \<and> byte_in 0x80 0xBF s 3 then Some 4
      else None)"

definition cont_byte :: "u8 \<Rightarrow> bool" where
  "cont_byte b \<longleftrightarrow> 0x80 \<le> b \<and> b \<le> 0xBF"

lemma utf8_len_bounds: "utf8_len s = Some n \<Longrightarrow> 0 < n \<and> n \<le> length s"
  by (auto simp: utf8_len_def byte_in_def Suc_le_eq split: if_splits)

function utf8_valid :: "u8 list \<Rightarrow> bool" where
  "utf8_valid s = (s = [] \<or> (case utf8_len s of None \<Rightarrow> False | Some n \<Rightarrow> utf8_valid (drop n s)))"
  by auto
termination
  by (relation "measure length") (auto dest!: utf8_len_bounds)

declare utf8_valid.simps [simp del]

definition is_char_boundary :: "nat \<Rightarrow> u8 list \<Rightarrow> bool" where
  "is_char_boundary i s \<longleftrightarrow> i = 0 \<or> i = length s \<or> i < length s \<and> \<not> cont_byte (s ! i)"

text \<open>\<open>str::get\<close> on a range of bytes.\<close>

definition str_get :: "nat \<Rightarrow> nat \<Rightarrow> u8 list \<Rightarrow> u8 list option" where
  "str_get a b s =
     (if a \<le> b \<and> b \<le> length s \<and> is_char_boundary a s \<and> is_char_boundary b s then Some (take (b - a) (drop a s)) else None)"

lemma byte_weaken:
  "160 \<le> b \<Longrightarrow> 128 \<le> b" "144 \<le> b \<Longrightarrow> 128 \<le> b" "b \<le> 159 \<Longrightarrow> b \<le> 191" "b \<le> 143 \<Longrightarrow> b \<le> 191" for b :: u8
  by (simp_all add: word_le_nat_alt)

lemma utf8_len_cont:
  assumes "utf8_len s = Some n" "0 < i" "i < n"
  shows "cont_byte (s ! i)"
proof -
  have "i = 1 \<or> i = 2 \<or> i = 3" using assms by (auto simp: utf8_len_def split: if_splits)
  then show ?thesis
    using assms by (elim disjE) (auto simp: utf8_len_def byte_in_def cont_byte_def intro: byte_weaken split: if_splits)
qed

lemma byte_in_append: "byte_in lo hi xs i \<Longrightarrow> byte_in lo hi (xs @ ys) i"
  by (simp add: byte_in_def nth_append)

lemma byte_in_disjoint:
  "byte_in 0xC2 0xDF s 0 \<Longrightarrow> \<not> byte_in 0 0x7F s 0 \<and> \<not> byte_in 0xE0 0xEF s 0 \<and> \<not> byte_in 0xF0 0xF4 s 0"
  "byte_in 0xE0 0xEF s 0 \<Longrightarrow> \<not> byte_in 0 0x7F s 0 \<and> \<not> byte_in 0xC2 0xDF s 0 \<and> \<not> byte_in 0xF0 0xF4 s 0"
  "byte_in 0xF0 0xF4 s 0 \<Longrightarrow> \<not> byte_in 0 0x7F s 0 \<and> \<not> byte_in 0xC2 0xDF s 0 \<and> \<not> byte_in 0xE0 0xEF s 0"
  by (auto simp: byte_in_def word_le_nat_alt)

lemma utf8_len_append:
  assumes "utf8_len xs = Some n"
  shows "utf8_len (xs @ ys) = Some n"
proof -
  have xs: "(xs @ ys) ! 0 = xs ! 0" using assms by (cases xs) (simp_all add: utf8_len_def byte_in_def)
  consider (a) "byte_in 0 0x7F xs 0" | (b) "byte_in 0xC2 0xDF xs 0" | (c) "byte_in 0xE0 0xEF xs 0" | (d) "byte_in 0xF0 0xF4 xs 0"
    using assms by (auto simp: utf8_len_def split: if_splits)
  then show ?thesis
  proof cases
    case a
    then show ?thesis using assms byte_in_append [OF a, of ys] by (simp add: utf8_len_def)
  next
    case b
    then show ?thesis
      using assms byte_in_disjoint(1) [OF b] byte_in_disjoint(1) [OF byte_in_append [OF b, of ys]] byte_in_append [of _ _ xs _ ys]
      by (auto simp only: utf8_len_def split: if_splits)
  next
    case c
    then show ?thesis
      using assms byte_in_disjoint(2) [OF c] byte_in_disjoint(2) [OF byte_in_append [OF c, of ys]] byte_in_append [of _ _ xs _ ys] xs
      by (auto simp only: utf8_len_def split: if_splits)
  next
    case d
    then show ?thesis
      using assms byte_in_disjoint(3) [OF d] byte_in_disjoint(3) [OF byte_in_append [OF d, of ys]] byte_in_append [of _ _ xs _ ys] xs
      by (auto simp only: utf8_len_def split: if_splits)
  qed
qed

lemma utf8_len_prefix:
  assumes "utf8_len (xs @ ys) = Some n" "n \<le> length xs"
  shows "utf8_len xs = Some n"
  using assms by (auto simp: utf8_len_def byte_in_def nth_append split: if_splits)

lemma utf8_valid_Nil [simp]: "utf8_valid []"
  by (simp add: utf8_valid.simps [of "[]"])

lemma utf8_valid_Cons_ascii: "b \<le> 0x7F \<Longrightarrow> utf8_valid (b # s) = utf8_valid s"
  by (simp add: utf8_valid.simps [of "b # s"] utf8_len_def byte_in_def)

lemma utf8_valid_ascii: "\<forall>b \<in> set s. b \<le> 0x7F \<Longrightarrow> utf8_valid s"
  by (induction s) (simp_all add: utf8_valid_Cons_ascii)

lemma utf8_valid_append:
  assumes "ys = [] \<or> \<not> cont_byte (hd ys)"
  shows "utf8_valid (xs @ ys) \<longleftrightarrow> utf8_valid xs \<and> utf8_valid ys"
proof (induction xs rule: length_induct)
  case (1 xs)
  show ?case
  proof (cases "xs = []")
    case False
    show ?thesis
    proof (cases "utf8_len (xs @ ys)")
      case None
      then show ?thesis using False utf8_len_append [of xs _ ys] by (cases "utf8_len xs") (auto simp: utf8_valid.simps [of "xs @ ys"] utf8_valid.simps [of xs])
    next
      case (Some n)
      have "n \<le> length xs"
      proof (rule ccontr)
        assume "\<not> n \<le> length xs"
        then have "cont_byte ((xs @ ys) ! length xs)" "ys \<noteq> []"
          using utf8_len_cont [OF Some, of "length xs"] utf8_len_bounds [OF Some] False by auto
        then show False using assms by (simp add: hd_conv_nth nth_append)
      qed
      moreover have "length (drop n xs) < length xs" using utf8_len_bounds [OF Some] False by simp
      ultimately show ?thesis
        using Some 1 False utf8_len_prefix [OF Some] by (simp add: utf8_valid.simps [of "xs @ ys"] utf8_valid.simps [of xs])
    qed
  qed simp
qed

lemma utf8_valid_slice:
  assumes "utf8_valid s" "str_get a b s = Some t"
  shows "utf8_valid t"
proof -
  have b: "is_char_boundary a s" "is_char_boundary b s" "a \<le> b" "b \<le> length s" "t = take (b - a) (drop a s)"
    using assms(2) by (auto simp: str_get_def split: if_splits)
  have "utf8_valid (drop i s) \<and> utf8_valid (take i s)" if "is_char_boundary i s" "i \<le> length s" for i
  proof -
    have "drop i s = [] \<or> \<not> cont_byte (hd (drop i s)) \<or> i = 0"
      using that by (auto simp: is_char_boundary_def hd_drop_conv_nth)
    then show ?thesis using assms(1) utf8_valid_append [of "drop i s" "take i s"] by (cases "i = 0") simp_all
  qed
  then have v: "utf8_valid (drop a s)" using b by simp
  have e: "drop a s = t @ drop b s" using b(3,5) append_take_drop_id [of "b - a" "drop a s"] by simp
  show ?thesis
  proof (cases "b = 0")
    case True
    then show ?thesis using b(5) by simp
  next
    case False
    then have "drop b s = [] \<or> \<not> cont_byte (hd (drop b s))"
      using b(2) by (auto simp: is_char_boundary_def hd_drop_conv_nth)
    then show ?thesis using utf8_valid_append [of "drop b s" t] v unfolding e by blast
  qed
qed

lemma utf8_valid_hd:
  assumes "utf8_valid (b # s)"
  shows "\<not> cont_byte b"
proof
  assume "cont_byte b"
  then have "utf8_len (b # s) = None" by (auto simp: utf8_len_def byte_in_def cont_byte_def word_le_nat_alt)
  then show False using assms by (simp add: utf8_valid.simps [of "b # s"])
qed

lemma boundary_at_ascii:
  assumes "utf8_valid s" "j < length s" "s ! j \<le> 0x7F"
  shows "is_char_boundary j s" "is_char_boundary (Suc j) s"
proof -
  have n: "\<not> cont_byte (s ! j)" using assms(3) by (auto simp: cont_byte_def word_le_nat_alt)
  then show "is_char_boundary j s" using assms(2) by (simp add: is_char_boundary_def)
  have d: "drop j s = s ! j # drop (Suc j) s" using assms(2) by (simp add: Cons_nth_drop_Suc)
  then have "drop j s = [] \<or> \<not> cont_byte (hd (drop j s))" using n by simp
  then have "utf8_valid (drop j s)" using assms(1) utf8_valid_append [of "drop j s" "take j s"] unfolding append_take_drop_id by blast
  then have v: "utf8_valid (drop (Suc j) s)" using d assms(3) utf8_valid_Cons_ascii by simp
  show "is_char_boundary (Suc j) s"
  proof (cases "Suc j < length s")
    case True
    then have "drop (Suc j) s = s ! Suc j # drop (Suc (Suc j)) s" by (simp add: Cons_nth_drop_Suc)
    then show ?thesis using v utf8_valid_hd True by (simp add: is_char_boundary_def)
  qed (use assms(2) in \<open>simp add: is_char_boundary_def\<close>)
qed


end
