(* ===== verification/Rust_Str.thy ===== *)
theory Rust_Str
  imports F32 Rust_Format
begin

text \<open>
  The string operations of the standard library that the configuration console uses: white space, splitting,
  \<open>parse\<close> to \<open>u32\<close> and \<open>f32\<close>, and the display of an \<open>f32\<close>.  A character is a code point below 256, which is all
  the console can produce from a byte; \<open>utf8\<close> gives its bytes when it is printed.
\<close>

section \<open>White space and words\<close>

definition is_whitespace :: "char \<Rightarrow> bool" where
  "is_whitespace c \<longleftrightarrow> of_char c \<in> {9..13 :: nat} \<or> of_char c \<in> {32, 0x85, 0xA0 :: nat}"

definition trim :: "('c \<Rightarrow> bool) \<Rightarrow> 'c list \<Rightarrow> 'c list" where
  "trim ws s = rev (dropWhile ws (rev (dropWhile ws s)))"

function split_whitespace :: "string \<Rightarrow> string list" where
  "split_whitespace s =
     (let t = dropWhile is_whitespace s
      in if t = [] then []
         else takeWhile (\<lambda>c. \<not> is_whitespace c) t # split_whitespace (dropWhile (\<lambda>c. \<not> is_whitespace c) t))"
  by auto
termination
proof (relation "measure length")
  fix s t assume t: "t = dropWhile is_whitespace s" "t \<noteq> []"
  then obtain c cs where c: "t = c # cs" by (metis list.exhaust)
  then have "\<not> is_whitespace c" using t hd_dropWhile [of is_whitespace s] by simp
  then have "length (dropWhile (\<lambda>c. \<not> is_whitespace c) t) \<le> length cs" using c by (simp add: length_dropWhile_le)
  also have "\<dots> < length s" using c t length_dropWhile_le [of is_whitespace s] by simp
  finally show "(dropWhile (\<lambda>c. \<not> is_whitespace c) t, s) \<in> measure length" by simp
qed simp

declare split_whitespace.simps [simp del]

definition to_ascii_lowercase :: "string \<Rightarrow> string" where
  "to_ascii_lowercase = map (\<lambda>c. if of_char c \<in> {65..90 :: nat} then char_of (of_char c + 32 :: nat) else c)"

definition utf8 :: "string \<Rightarrow> string" where
  "utf8 s = concat (map (\<lambda>c. let n = of_char c :: nat
                             in if n < 128 then [c] else [char_of (0xC0 + n div 64), char_of (0x80 + n mod 64)]) s)"

section \<open>Parsing numbers\<close>

definition str_parse_u32 :: "string \<Rightarrow> u32 option" where
  "str_parse_u32 s =
     (let d = (case s of c # r \<Rightarrow> if c = CHR ''+'' then r else s | [] \<Rightarrow> [])
      in if d = [] \<or> \<not> list_all digit_char d then None
         else let n = undec 0 d in if n < 2 ^ 32 then Some (of_nat n) else None)"

definition pow10 :: "int \<Rightarrow> rat" where
  "pow10 e = (if 0 \<le> e then 10 ^ nat e else 1 / 10 ^ nat (- e))"

definition parse_exp :: "string \<Rightarrow> int option" where
  "parse_exp s =
     (case s of
        [] \<Rightarrow> Some 0
      | c # r \<Rightarrow>
          if c \<noteq> CHR ''e'' \<and> c \<noteq> CHR ''E'' then None
          else let (neg, d) = (case r of
                                 x # r' \<Rightarrow> if x = CHR ''-'' then (True, r') else if x = CHR ''+'' then (False, r') else (False, r)
                               | [] \<Rightarrow> (False, []))
               in if d = [] \<or> \<not> list_all digit_char d then None
                  else Some (if neg then - int (undec 0 d) else int (undec 0 d)))"

definition parse_number :: "string \<Rightarrow> rat option" where
  "parse_number s =
     (let i = takeWhile digit_char s;
          r = dropWhile digit_char s;
          (f, rest) = (case r of
                         c # r' \<Rightarrow> if c = CHR ''.'' then (takeWhile digit_char r', dropWhile digit_char r') else ([], r)
                       | [] \<Rightarrow> ([], []))
      in if i = [] \<and> f = [] then None
         else case parse_exp rest of
                None \<Rightarrow> None
              | Some e \<Rightarrow> Some (of_nat (undec 0 (i @ f)) * pow10 (e - int (length f))))"

definition str_parse_f32 :: "string \<Rightarrow> f32 option" where
  "str_parse_f32 s =
     (let (neg, d) = (case s of
                        c # r \<Rightarrow> if c = CHR ''-'' then (True, r) else if c = CHR ''+'' then (False, r) else (False, s)
                      | [] \<Rightarrow> (False, []))
      in case parse_number d of
           Some v \<Rightarrow> Some (encode (rnd neg (if neg then - v else v)))
         | None \<Rightarrow>
             let l = to_ascii_lowercase d
             in if l = ''inf'' \<or> l = ''infinity'' then Some (encode (Infty neg))
                else if l = ''nan'' then Some (encode NaN)
                else None)"

section \<open>Displaying an f32\<close>

text \<open>The number of decimal digits before the point: the least k with the magnitude below 10 to the k.\<close>

definition dec_exp :: "rat \<Rightarrow> int" where
  "dec_exp v = (case filter (\<lambda>k. v < pow10 k) [- 50..40] of k # _ \<Rightarrow> k | [] \<Rightarrow> 41)"

text \<open>The nearest decimals with n digits below and above that read back as the same number.\<close>

definition short_candidate :: "rat \<Rightarrow> nat \<Rightarrow> nat option" where
  "short_candidate v n =
     (let unit = pow10 (dec_exp v - int n);
          lo = nat \<lfloor>v / unit\<rfloor>;
          hi = lo + 1;
          ok = (\<lambda>c. round_mag (of_nat c * unit) = v)
      in if ok hi \<and> (\<not> ok lo \<or> unit \<le> 2 * (v - of_nat lo * unit)) then Some hi
         else if ok lo then Some lo else None)"

definition shortest_digits :: "rat \<Rightarrow> string \<times> int" where
  "shortest_digits v =
     (case filter (\<lambda>n. short_candidate v n \<noteq> None) [1..<18] of
        n # _ \<Rightarrow>
          let ds = dec (the (short_candidate v n))
          in (rev (dropWhile (\<lambda>c. c = CHR ''0'') (rev ds)), dec_exp v - int n + int (length ds))
      | [] \<Rightarrow> ([], 0))"

fun fmt_fval :: "fval \<Rightarrow> string" where
  "fmt_fval NaN = ''NaN''"
| "fmt_fval (Infty s) = (if s then ''-inf'' else ''inf'')"
| "fmt_fval (Fin s m) =
     (if s then ''-'' else []) @
     (if m = 0 then ''0''
      else case shortest_digits m of
        (ds, e) \<Rightarrow>
          if e \<le> 0 then ''0.'' @ replicate (nat (- e)) (CHR ''0'') @ ds
          else if nat e < length ds then take (nat e) ds @ ''.'' @ drop (nat e) ds
          else ds @ replicate (nat e - length ds) (CHR ''0''))"

definition fmt_f32 :: "f32 \<Rightarrow> string" where
  "fmt_f32 b = fmt_fval (decode b)"

section \<open>Facts\<close>

lemma split_whitespace_words:
  "w \<in> set (split_whitespace s) \<Longrightarrow> w \<noteq> [] \<and> (\<forall>c \<in> set w. \<not> is_whitespace c)"
proof (induction s rule: split_whitespace.induct)
  case (1 s)
  let ?t = "dropWhile is_whitespace s"
  let ?w = "takeWhile (\<lambda>c. \<not> is_whitespace c) ?t"
  have ne: "?t \<noteq> []" using 1(2) split_whitespace.simps [of s] by (simp add: Let_def split: if_splits)
  then have "split_whitespace s = ?w # split_whitespace (dropWhile (\<lambda>c. \<not> is_whitespace c) ?t)"
    by (subst split_whitespace.simps) (simp only: Let_def if_False)
  then consider "w = ?w" | "w \<in> set (split_whitespace (dropWhile (\<lambda>c. \<not> is_whitespace c) ?t))"
    using 1(2) by auto
  then show ?case
  proof cases
    case 1
    have "?w \<noteq> []" using hd_dropWhile [OF ne] ne by (metis takeWhile_eq_Nil_iff)
    then show ?thesis using 1 set_takeWhileD by fastforce
  next
    case 2
    then show ?thesis using 1(1) [OF refl ne] by blast
  qed
qed

lemma str_parse_u32_dec: "n < 2 ^ 32 \<Longrightarrow> str_parse_u32 (dec n) = Some (of_nat n)"
proof -
  assume n: "n < 2 ^ 32"
  have d: "list_all digit_char (dec n)" using dec_digits by (auto simp: list_all_iff)
  have ne: "dec n \<noteq> []" by (simp add: dec.simps [of n])
  then obtain c r where c: "dec n = c # r" by (cases "dec n") auto
  then have "digit_char c" using d by simp
  then have "c \<noteq> CHR ''+''" by (auto simp: digit_char_def)
  then have "(case dec n of c # r \<Rightarrow> if c = CHR ''+'' then r else dec n | [] \<Rightarrow> []) = dec n" using c by simp
  then show ?thesis using d ne n by (simp add: str_parse_u32_def undec_dec Let_def)
qed

text \<open>A parsed decimal is the nearest single-precision number.\<close>

lemma str_parse_f32_nearest:
  assumes "parse_number s = Some v" "s = c # r" "c \<noteq> CHR ''-''" "c \<noteq> CHR ''+''"
  shows "\<exists>b. str_parse_f32 s = Some b \<and> decode b = rnd False v"
  using assms by (simp add: str_parse_f32_def decode_encode_rnd)

end
