(* ===== verification/Sha256.thy ===== *)
theory Sha256
  imports Complex_Main Golem_Prelude "HOL-Library.Word"
begin

unbundle bit_operations_syntax

text \<open>
  The embedded hash of \<open>sentinel/audit.rs\<close>: the loops of \<open>sha256_hex\<close> over bytes and 32-bit words, and the
  hash as FIPS 180-4 defines it (constants from the roots of
  the first primes, recursive message schedule, rotations as pairs of shifts, least padding).  The
  theory proves that the loops compute the standard's function.
\<close>

section \<open>The implementation\<close>

definition K :: "u32 list" where
  "K = concat [
    [0x428a2f98, 0x71374491, 0xb5c0fbcf, 0xe9b5dba5],
    [0x3956c25b, 0x59f111f1, 0x923f82a4, 0xab1c5ed5],
    [0xd807aa98, 0x12835b01, 0x243185be, 0x550c7dc3],
    [0x72be5d74, 0x80deb1fe, 0x9bdc06a7, 0xc19bf174],
    [0xe49b69c1, 0xefbe4786, 0x0fc19dc6, 0x240ca1cc],
    [0x2de92c6f, 0x4a7484aa, 0x5cb0a9dc, 0x76f988da],
    [0x983e5152, 0xa831c66d, 0xb00327c8, 0xbf597fc7],
    [0xc6e00bf3, 0xd5a79147, 0x06ca6351, 0x14292967],
    [0x27b70a85, 0x2e1b2138, 0x4d2c6dfc, 0x53380d13],
    [0x650a7354, 0x766a0abb, 0x81c2c92e, 0x92722c85],
    [0xa2bfe8a1, 0xa81a664b, 0xc24b8b70, 0xc76c51a3],
    [0xd192e819, 0xd6990624, 0xf40e3585, 0x106aa070],
    [0x19a4c116, 0x1e376c08, 0x2748774c, 0x34b0bcb5],
    [0x391c0cb3, 0x4ed8aa4a, 0x5b9cca4f, 0x682e6ff3],
    [0x748f82ee, 0x78a5636f, 0x84c87814, 0x8cc70208],
    [0x90befffa, 0xa4506ceb, 0xbef9a3f7, 0xc67178f2]]"

type_synonym digest = "u32 \<times> u32 \<times> u32 \<times> u32 \<times> u32 \<times> u32 \<times> u32 \<times> u32"

definition H_INIT :: digest where
  "H_INIT = (0x6a09e667, 0xbb67ae85, 0x3c6ef372, 0xa54ff53a, 0x510e527f, 0x9b05688c, 0x1f83d9ab, 0x5be0cd19)"

definition ch :: "u32 \<Rightarrow> u32 \<Rightarrow> u32 \<Rightarrow> u32" where
  "ch x y z = (x AND y) XOR (NOT x AND z)"

definition maj :: "u32 \<Rightarrow> u32 \<Rightarrow> u32 \<Rightarrow> u32" where
  "maj x y z = (x AND y) XOR (x AND z) XOR (y AND z)"

definition big_sigma0 :: "u32 \<Rightarrow> u32" where
  "big_sigma0 x = word_rotr 2 x XOR word_rotr 13 x XOR word_rotr 22 x"

definition big_sigma1 :: "u32 \<Rightarrow> u32" where
  "big_sigma1 x = word_rotr 6 x XOR word_rotr 11 x XOR word_rotr 25 x"

definition small_sigma0 :: "u32 \<Rightarrow> u32" where
  "small_sigma0 x = word_rotr 7 x XOR word_rotr 18 x XOR drop_bit 3 x"

definition small_sigma1 :: "u32 \<Rightarrow> u32" where
  "small_sigma1 x = word_rotr 17 x XOR word_rotr 19 x XOR drop_bit 10 x"

function push_zeros :: "u8 list \<Rightarrow> u8 list" where
  "push_zeros msg = (if length msg mod 64 \<noteq> 56 then push_zeros (msg @ [0]) else msg)"
  by auto

definition zeros_left :: "nat \<Rightarrow> nat" where
  "zeros_left n = (if n mod 64 \<le> 56 then 56 - n mod 64 else 120 - n mod 64)"

lemma zeros_left_step: "n mod 64 \<noteq> 56 \<Longrightarrow> zeros_left n = Suc (zeros_left (Suc n))"
  using mod_less_divisor [of 64 n] unfolding zeros_left_def mod_Suc by auto

termination push_zeros
  by (relation "measure (\<lambda>msg. zeros_left (length msg))") (simp_all add: zeros_left_step)

declare push_zeros.simps [simp del]

definition to_be_bytes64 :: "u64 \<Rightarrow> u8 list" where
  "to_be_bytes64 x = map (\<lambda>i. ucast (drop_bit (8 * (7 - i)) x)) [0..<8]"

definition from_be_bytes :: "u8 \<Rightarrow> u8 \<Rightarrow> u8 \<Rightarrow> u8 \<Rightarrow> u32" where
  "from_be_bytes b0 b1 b2 b3 =
    push_bit 24 (ucast b0) OR push_bit 16 (ucast b1) OR push_bit 8 (ucast b2) OR ucast b3"

definition pad_message :: "u8 list \<Rightarrow> u8 list" where
  "pad_message data = push_zeros (data @ [0x80]) @ to_be_bytes64 (of_nat (length data) * 8)"

function chunks_exact :: "nat \<Rightarrow> 'a list \<Rightarrow> 'a list list" where
  "chunks_exact n xs = (if n = 0 \<or> length xs < n then [] else take n xs # chunks_exact n (drop n xs))"
  by auto
termination by (relation "measure (\<lambda>(_, xs). length xs)") auto

declare chunks_exact.simps [simp del]

definition schedule_words :: "u8 list \<Rightarrow> u32 list" where
  "schedule_words block =
    (let w = replicate 64 0;
         w = fold (\<lambda>i w. w[i := from_be_bytes (block ! (i * 4)) (block ! (i * 4 + 1))
                                             (block ! (i * 4 + 2)) (block ! (i * 4 + 3))]) [0..<16] w
     in fold (\<lambda>i w. w[i := small_sigma1 (w ! (i - 2)) + w ! (i - 7) + small_sigma0 (w ! (i - 15)) + w ! (i - 16)])
          [16..<64] w)"

fun compress_step :: "u32 list \<Rightarrow> nat \<Rightarrow> digest \<Rightarrow> digest" where
  "compress_step w i (a, b, c, d, e, f, g, hh) =
    (let t1 = hh + big_sigma1 e + ch e f g + K ! i + w ! i;
         t2 = big_sigma0 a + maj a b c
     in (t1 + t2, a, b, c, d + t1, e, f, g))"

fun digest_add :: "digest \<Rightarrow> digest \<Rightarrow> digest" where
  "digest_add (a, b, c, d, e, f, g, h) (a', b', c', d', e', f', g', h') =
    (a + a', b + b', c + c', d + d', e + e', f + f', g + g', h + h')"

definition process_block :: "u8 list \<Rightarrow> digest \<Rightarrow> digest" where
  "process_block block h =
    (let w = schedule_words block in digest_add h (fold (compress_step w) [0..<64] h))"

definition hex_digit :: "nat \<Rightarrow> char" where
  "hex_digit n = ''0123456789abcdef'' ! n"

text \<open>The format \<open>{v:08x}\<close>.\<close>

definition hex8 :: "u32 \<Rightarrow> string" where
  "hex8 v = map (\<lambda>i. hex_digit (unat (drop_bit (4 * (7 - i)) v) mod 16)) [0..<8]"

fun digest_hex :: "digest \<Rightarrow> string" where
  "digest_hex (a, b, c, d, e, f, g, h) = concat (map hex8 [a, b, c, d, e, f, g, h])"

definition sha256_hex :: "u8 list \<Rightarrow> string" where
  "sha256_hex data = digest_hex (fold process_block (chunks_exact 64 (pad_message data)) H_INIT)"

section \<open>The standard\<close>

text \<open>The round constants are the first 32 bits of the fractional parts of the cube roots of the first 64
  primes, the initial hash value those of the square roots of the first eight: multiplied by $2^{32}$ and cut to an
  integer, of which a 32-bit word keeps the fraction.\<close>

definition small_primes :: "nat list" where
  "small_primes = filter (\<lambda>p. \<forall>d \<in> set [2..<18]. d < p \<longrightarrow> \<not> d dvd p) [2..<312]"

definition root_fraction :: "nat \<Rightarrow> nat \<Rightarrow> u32" where
  "root_fraction k p = of_nat (nat \<lfloor>root k (real (p * 2 ^ (32 * k)))\<rfloor>)"

definition K_std :: "u32 list" where
  "K_std = map (root_fraction 3) small_primes"

fun digest_of :: "u32 list \<Rightarrow> digest" where
  "digest_of [a, b, c, d, e, f, g, h] = (a, b, c, d, e, f, g, h)"
| "digest_of _ = (0, 0, 0, 0, 0, 0, 0, 0)"

definition H_std :: digest where
  "H_std = digest_of (map (root_fraction 2) (take 8 small_primes))"

definition ROTR :: "nat \<Rightarrow> u32 \<Rightarrow> u32" where
  "ROTR n x = drop_bit n x OR push_bit (32 - n) x"

definition Sigma0 :: "u32 \<Rightarrow> u32" where
  "Sigma0 x = ROTR 2 x XOR ROTR 13 x XOR ROTR 22 x"

definition Sigma1 :: "u32 \<Rightarrow> u32" where
  "Sigma1 x = ROTR 6 x XOR ROTR 11 x XOR ROTR 25 x"

definition sigma0 :: "u32 \<Rightarrow> u32" where
  "sigma0 x = ROTR 7 x XOR ROTR 18 x XOR drop_bit 3 x"

definition sigma1 :: "u32 \<Rightarrow> u32" where
  "sigma1 x = ROTR 17 x XOR ROTR 19 x XOR drop_bit 10 x"

text \<open>Padding: the bit 1, the least number of zero bits, the length in bits; here in bytes.\<close>

definition padding_zeros :: "nat \<Rightarrow> nat" where
  "padding_zeros l = (LEAST k. (l + 1 + k) mod 64 = 56)"

definition be_bytes :: "nat \<Rightarrow> nat \<Rightarrow> u8 list" where
  "be_bytes n x = map (\<lambda>i. of_nat (x div 256 ^ (n - 1 - i))) [0..<n]"

definition padded :: "u8 list \<Rightarrow> u8 list" where
  "padded M = M @ [0x80] @ replicate (padding_zeros (length M)) 0 @ be_bytes 8 (8 * length M)"

definition message_word :: "u8 list \<Rightarrow> nat \<Rightarrow> u32" where
  "message_word M t = of_nat (\<Sum>j<4. unat (M ! (4 * t + j)) * 256 ^ (3 - j))"

function W :: "u8 list \<Rightarrow> nat \<Rightarrow> u32" where
  "W M t = (if t < 16 then message_word M t
            else sigma1 (W M (t - 2)) + W M (t - 7) + sigma0 (W M (t - 15)) + W M (t - 16))"
  by auto
termination by (relation "measure snd") auto

declare W.simps [simp del]

fun hash_round :: "u8 list \<Rightarrow> nat \<Rightarrow> digest \<Rightarrow> digest" where
  "hash_round M t (a, b, c, d, e, f, g, h) =
    (let T1 = h + Sigma1 e + ((e AND f) XOR (NOT e AND g)) + K_std ! t + W M t;
         T2 = Sigma0 a + ((a AND b) XOR (a AND c) XOR (b AND c))
     in (T1 + T2, a, b, c, d + T1, e, f, g))"

primrec hash_rounds :: "u8 list \<Rightarrow> nat \<Rightarrow> digest \<Rightarrow> digest" where
  "hash_rounds M 0 H = H"
| "hash_rounds M (Suc t) H = hash_round M t (hash_rounds M t H)"

primrec hash_value :: "u8 list \<Rightarrow> nat \<Rightarrow> digest" where
  "hash_value M 0 = H_std"
| "hash_value M (Suc i) =
    (let B = take 64 (drop (64 * i) M) in digest_add (hash_value M i) (hash_rounds B 64 (hash_value M i)))"

definition SHA256 :: "u8 list \<Rightarrow> digest" where
  "SHA256 M = hash_value (padded M) (length (padded M) div 64)"

section \<open>The constants are the standard's\<close>

lemma root_fraction_eqI:
  assumes "0 < k" "x ^ k \<le> p * 2 ^ (32 * k)" "p * 2 ^ (32 * k) < (x + 1) ^ k"
  shows "root_fraction k p = of_nat x"
proof -
  let ?n = "p * 2 ^ (32 * k)"
  have "real x = root k (real x ^ k)" "real x + 1 = root k ((real x + 1) ^ k)"
    using assms(1) by (simp_all add: real_root_power_cancel)
  moreover have "real x ^ k \<le> real ?n" "real ?n < (real x + 1) ^ k"
    using assms(2,3) by (metis of_nat_le_iff of_nat_power, metis of_nat_less_iff of_nat_power of_nat_Suc Suc_eq_plus1 add.commute)
  ultimately have "real x \<le> root k (real ?n)" "root k (real ?n) < real x + 1"
    using assms(1) real_root_le_mono real_root_less_mono by metis+
  then have "\<lfloor>root k (real ?n)\<rfloor> = int x" by linarith
  then show ?thesis by (simp add: root_fraction_def)
qed

text \<open>A candidate is checked by powers: its integer part c and its 32 bits.\<close>

definition root_check :: "nat \<Rightarrow> nat \<Rightarrow> nat \<Rightarrow> nat \<Rightarrow> bool" where
  "root_check k p c f \<longleftrightarrow> (c * 2 ^ 32 + f) ^ k \<le> p * 2 ^ (32 * k) \<and> p * 2 ^ (32 * k) < (c * 2 ^ 32 + f + 1) ^ k"

lemma root_fraction_check:
  assumes "root_check k p c (unat w)" "0 < k"
  shows "root_fraction k p = w"
proof -
  have "root_fraction k p = of_nat (c * 2 ^ 32 + unat w)"
    by (rule root_fraction_eqI) (use assms in \<open>simp_all add: root_check_def\<close>)
  also have "\<dots> = w"
  proof -
    have "of_nat (c * 2 ^ 32) = (0 :: u32)" by (simp add: word_of_nat_eq_0_iff del: of_nat_mult)
    then show ?thesis by (simp only: of_nat_add) simp
  qed
  finally show ?thesis .
qed

definition cube_floor :: "nat \<Rightarrow> nat" where
  "cube_floor p = length (filter (\<lambda>c. c ^ 3 \<le> p) [1, 2, 3, 4, 5, 6])"

definition square_floor :: "nat \<Rightarrow> nat" where
  "square_floor p = length (filter (\<lambda>c. c ^ 2 \<le> p) [1, 2, 3, 4])"

lemma small_primes_eq:
  "small_primes = [2, 3, 5, 7, 11, 13, 17, 19, 23, 29, 31, 37, 41, 43, 47, 53, 59, 61, 67, 71, 73, 79, 83, 89, 97,
    101, 103, 107, 109, 113, 127, 131, 137, 139, 149, 151, 157, 163, 167, 173, 179, 181, 191, 193, 197, 199, 211,
    223, 227, 229, 233, 239, 241, 251, 257, 263, 269, 271, 277, 281, 283, 293, 307, 311]"
  by code_simp

lemma map_root_check:
  assumes "list_all2 (\<lambda>p w. root_check k p (c p) (unat w)) ps ws" "0 < k"
  shows "map (root_fraction k) ps = ws"
  using assms(1) by induction (use assms(2) root_fraction_check in auto)

lemma K_eq: "K_std = K"
  unfolding K_std_def small_primes_eq K_def
  by (rule map_root_check [where c = cube_floor]) (simp_all add: root_check_def cube_floor_def)

lemma H_INIT_eq: "H_std = H_INIT"
proof -
  have "map (root_fraction 2) (take 8 small_primes) =
    [0x6a09e667, 0xbb67ae85, 0x3c6ef372, 0xa54ff53a, 0x510e527f, 0x9b05688c, 0x1f83d9ab, 0x5be0cd19]"
    unfolding small_primes_eq
    by (rule map_root_check [where c = square_floor]) (simp_all add: root_check_def square_floor_def)
  then show ?thesis by (simp add: H_std_def H_INIT_def)
qed

section \<open>The loops compute the standard's function\<close>

lemma word_rotr_ROTR:
  assumes "0 < n" "n < 32"
  shows "word_rotr n x = ROTR n x"
proof (rule bit_word_eqI)
  fix k assume "k < LENGTH(32)"
  then have k: "k < 32" by simp
  show "bit (word_rotr n x) k = bit (ROTR n x) k"
  proof (cases "k + n < 32")
    case True
    then show ?thesis using assms k by (auto simp: bit_word_rotr_iff ROTR_def bit_or_iff bit_drop_bit_eq bit_push_bit_iff add.commute)
  next
    case False
    then have "(k + n) mod 32 = k + n - 32" using k assms by (simp add: mod_if)
    moreover have "\<not> bit x (n + k)" using False by (auto dest: bit_imp_le_length)
    ultimately show ?thesis using False assms k
      by (auto simp: bit_word_rotr_iff ROTR_def bit_or_iff bit_drop_bit_eq bit_push_bit_iff add.commute)
  qed
qed

lemma sigma_eq:
  "big_sigma0 = Sigma0" "big_sigma1 = Sigma1" "small_sigma0 = sigma0" "small_sigma1 = sigma1"
  by (rule ext; simp add: big_sigma0_def Sigma0_def big_sigma1_def Sigma1_def small_sigma0_def sigma0_def
      small_sigma1_def sigma1_def word_rotr_ROTR)+

lemma push_zeros_eq: "push_zeros msg = msg @ replicate (zeros_left (length msg)) 0"
proof (induction msg rule: push_zeros.induct)
  case (1 msg)
  show ?case
  proof (cases "length msg mod 64 = 56")
    case True
    then show ?thesis by (simp add: push_zeros.simps [of msg] zeros_left_def)
  next
    case False
    then show ?thesis using 1 by (simp add: push_zeros.simps [of msg] zeros_left_step replicate_append_same)
  qed
qed

lemma zeros_left_mod: "(n + zeros_left n) mod 64 = 56"
proof -
  have "n mod 64 + zeros_left n = 56 \<or> n mod 64 + zeros_left n = 120"
    using mod_less_divisor [of 64 n] by (auto simp: zeros_left_def)
  then have "(n mod 64 + zeros_left n) mod 64 = 56" by auto
  then show ?thesis by (simp add: mod_add_left_eq)
qed

lemma zeros_left_least: "(n + k) mod 64 = 56 \<Longrightarrow> zeros_left n \<le> k"
proof (induction k arbitrary: n)
  case 0
  then show ?case by (simp add: zeros_left_def)
next
  case (Suc k)
  show ?case
  proof (cases "n mod 64 = 56")
    case False
    then show ?thesis using Suc.IH [of "Suc n"] Suc.prems zeros_left_step [OF False] by simp
  qed (simp add: zeros_left_def)
qed

lemma padding_zeros_eq: "padding_zeros l = zeros_left (Suc l)"
  unfolding padding_zeros_def
proof (rule Least_equality)
  show "(l + 1 + zeros_left (Suc l)) mod 64 = 56" using zeros_left_mod [of "Suc l"] by simp
  show "\<And>k. (l + 1 + k) mod 64 = 56 \<Longrightarrow> zeros_left (Suc l) \<le> k" using zeros_left_least [of "Suc l"] by simp
qed

lemma bit_of_nat_word_iff: "bit (of_nat n :: 'a::len word) k \<longleftrightarrow> k < LENGTH('a) \<and> bit n k"
  by transfer (simp add: bit_of_nat_iff_bit)

lemma be_bytes_eq: "to_be_bytes64 (of_nat n) = be_bytes 8 n"
proof -
  have "ucast (drop_bit m (of_nat n :: u64)) = (of_nat (n div 2 ^ m) :: u8)" if "m \<le> 56" for m
  proof (rule bit_word_eqI)
    fix k assume "k < LENGTH(8)"
    then show "bit (ucast (drop_bit m (of_nat n :: u64)) :: u8) k = bit (of_nat (n div 2 ^ m) :: u8) k"
      using that by (simp add: bit_ucast_iff bit_drop_bit_eq bit_of_nat_word_iff flip: drop_bit_eq_div)
  qed
  then have "ucast (drop_bit (8 * (7 - i)) (of_nat n :: u64)) = (of_nat (n div 256 ^ (7 - i)) :: u8)" for i
    using power_mult [of "2 :: nat" 8 "7 - i"] by simp
  then show ?thesis by (simp add: to_be_bytes64_def be_bytes_def)
qed

lemma pad_message_eq: "pad_message data = padded data"
  using be_bytes_eq [of "8 * length data"]
  by (simp add: pad_message_def padded_def push_zeros_eq padding_zeros_eq mult.commute)

lemma bit_ucast8: "8 \<le> k \<Longrightarrow> \<not> bit (ucast (b :: u8) :: u32) k"
  by (auto simp: bit_ucast_iff dest: bit_imp_le_length)

lemma from_be_bytes_sum:
  "from_be_bytes b0 b1 b2 b3 = of_nat (unat b0 * 256 ^ 3 + unat b1 * 256 ^ 2 + unat b2 * 256 + unat b3)"
proof -
  let ?u = "\<lambda>b. ucast (b :: u8) :: u32"
  have or_add: "x OR y = x + y" if "\<And>k. \<not> bit x k \<or> \<not> bit y k" for x y :: u32
    using that by (simp add: disjunctive_add)
  have c: "push_bit 8 (?u b2) OR ?u b3 = push_bit 8 (?u b2) + ?u b3"
    by (rule or_add) (use bit_ucast8 in \<open>auto simp: bit_push_bit_iff not_le\<close>)
  have b: "push_bit 16 (?u b1) OR (push_bit 8 (?u b2) OR ?u b3) = push_bit 16 (?u b1) + (push_bit 8 (?u b2) OR ?u b3)"
    by (rule or_add) (use bit_ucast8 in \<open>auto simp: bit_push_bit_iff bit_or_iff not_le\<close>)
  have a: "push_bit 24 (?u b0) OR (push_bit 16 (?u b1) OR (push_bit 8 (?u b2) OR ?u b3)) =
      push_bit 24 (?u b0) + (push_bit 16 (?u b1) OR (push_bit 8 (?u b2) OR ?u b3))"
    by (rule or_add) (use bit_ucast8 in \<open>auto simp: bit_push_bit_iff bit_or_iff not_le\<close>)
  show ?thesis unfolding from_be_bytes_def or.assoc by (subst a, subst b, subst c) (simp add: push_bit_eq_mult add.assoc)
qed

lemma from_be_bytes_eq: "from_be_bytes (B ! (i * 4)) (B ! (i * 4 + 1)) (B ! (i * 4 + 2)) (B ! (i * 4 + 3)) = message_word B i"
proof -
  have "{..<4 :: nat} = {0, 1, 2, 3}" by auto
  then show ?thesis unfolding from_be_bytes_sum message_word_def by (simp add: mult.commute add.assoc)
qed

lemma schedule_fill:
  "n \<le> 16 \<Longrightarrow> fold (\<lambda>i w. w[i := f i]) [0..<n] (replicate 64 0) = map f [0..<n] @ replicate (64 - n) (0 :: u32)"
proof (induction n)
  case (Suc n)
  have "replicate (64 - n) (0 :: u32) = 0 # replicate (64 - Suc n) 0"
    using Suc.prems by (simp add: Suc_diff_le flip: replicate_Suc)
  then show ?case using Suc by (simp add: list_update_append)
qed simp

lemma schedule_expand:
  assumes "16 \<le> n" "n \<le> 64" "length w = 64" "\<And>i. i < 16 \<Longrightarrow> w ! i = W B i"
  defines "step \<equiv> \<lambda>i w. w[i := small_sigma1 (w ! (i - 2)) + w ! (i - 7) + small_sigma0 (w ! (i - 15)) + w ! (i - 16)]"
  shows "length (fold step [16..<n] w) = 64 \<and> (\<forall>i < n. fold step [16..<n] w ! i = W B i)"
  using assms(1,2)
proof (induction n rule: nat_induct_at_least)
  case base
  then show ?case using assms(3,4) by simp
next
  case (Suc n)
  let ?w = "fold step [16..<n] w"
  have IH: "length ?w = 64" "\<And>i. i < n \<Longrightarrow> ?w ! i = W B i" using Suc by auto
  have "fold step [16..<Suc n] w = step n ?w" using Suc.hyps by simp
  moreover have "step n ?w ! i = W B i" if "i < Suc n" for i
  proof (cases "i = n")
    case True
    then show ?thesis using IH Suc by (simp add: step_def sigma_eq W.simps [of B n])
  next
    case False
    then show ?thesis using IH that by (simp add: step_def)
  qed
  ultimately show ?case using IH(1) by (simp add: step_def)
qed

lemma schedule_words_eq: "i < 64 \<Longrightarrow> schedule_words B ! i = W B i"
proof -
  assume i: "i < 64"
  let ?w = "map (message_word B) [0..<16] @ replicate 48 (0 :: u32)"
  have w: "?w ! j = W B j" if "j < 16" for j using that by (simp add: nth_append W.simps [of B j])
  have fill: "fold (\<lambda>i w. w[i := message_word B i]) [0..<16] (replicate 64 0) = ?w"
    by (rule trans [OF schedule_fill]) simp_all
  have eq: "schedule_words B = fold (\<lambda>i w. w[i := small_sigma1 (w ! (i - 2)) + w ! (i - 7) + small_sigma0 (w ! (i - 15)) + w ! (i - 16)])
          [16..<64] ?w"
    unfolding schedule_words_def Let_def from_be_bytes_eq fill ..
  have l: "16 \<le> (64 :: nat)" "(64 :: nat) \<le> 64" "length ?w = 64" by simp_all
  from schedule_expand [OF l w] i show ?thesis unfolding eq by blast
qed

lemma compress_rounds: "n \<le> 64 \<Longrightarrow> fold (compress_step (schedule_words B)) [0..<n] H = hash_rounds B n H"
proof (induction n)
  case (Suc n)
  have "compress_step (schedule_words B) n S = hash_round B n S" for S
    using Suc.prems schedule_words_eq [of n B]
    by (cases "(B, n, S)" rule: hash_round.cases) (simp add: Let_def sigma_eq ch_def maj_def K_eq)
  then show ?case using Suc by simp
qed simp

lemma chunks_exact_eq: "0 < n \<Longrightarrow> chunks_exact n xs = map (\<lambda>i. take n (drop (n * i) xs)) [0..<length xs div n]"
proof (induction n xs rule: chunks_exact.induct)
  case (1 n xs)
  show ?case
  proof (cases "length xs < n")
    case True
    then show ?thesis by (simp add: chunks_exact.simps [of n])
  next
    case False
    then have "length xs div n = Suc ((length xs - n) div n)" using 1(2) by (simp add: le_div_geq not_less)
    then have "[0..<length xs div n] = 0 # map Suc [0..<(length xs - n) div n]" by (simp add: upt_conv_Cons map_Suc_upt del: upt_Suc)
    then show ?thesis using 1 False by (simp add: chunks_exact.simps [of n] comp_def add.commute)
  qed
qed

lemma fold_blocks: "fold process_block (map (\<lambda>i. take 64 (drop (64 * i) M)) [0..<n]) H_INIT = hash_value M n"
  by (induction n) (simp_all add: process_block_def compress_rounds H_INIT_eq Let_def)

lemma sha256_hex_eq: "sha256_hex data = digest_hex (SHA256 data)"
  by (simp add: sha256_hex_def SHA256_def chunks_exact_eq fold_blocks pad_message_eq)

text \<open>C21: for every message the loops compute the hash of FIPS 180-4: the padding loop ends and adds the least
  number of zeros, the in-place message schedule is the recursive one, the constants are the roots of the
  first primes, the rounds and the block loop are those of
  the standard.  The result is printed as 64 hexadecimal digits.\<close>

theorem sha256_hex_correct: "sha256_hex data = digest_hex (SHA256 data) \<and> length (sha256_hex data) = 64"
proof -
  have "length (digest_hex d) = 64" for d by (cases d rule: digest_hex.cases) (simp add: hex8_def)
  then show ?thesis by (simp add: sha256_hex_eq)
qed

end
