(* ===== verification/Monitor.thy ===== *)
theory Monitor
  imports Rust_Str BTree_Map Sha256
begin

text \<open>
  The degradation monitor, \<open>sentinel/monitor.rs\<close>: a sliding window of observations per agent, four
  signal scores computed from it in single precision, their gated combination and the recommended
  response tier.  Thresholds are stored as bit patterns and decoded where the code computes with them;
  scores are decoded numbers.  The spin locks make each method one step.

  The lemmas show what each score counts, that scores stay between 0 and 1, that the combination is
  monotone in every score, and what the tier is at the extremes.
\<close>

section \<open>Signals, thresholds and observations\<close>

datatype SignalKind = RepetitionScore | SelfReferentialLoop | TokenVelocityStall | ToolRetryAnomaly

fun signal_str :: "SignalKind \<Rightarrow> string" where
  "signal_str RepetitionScore = ''repetition_score''"
| "signal_str SelfReferentialLoop = ''self_referential_loop''"
| "signal_str TokenVelocityStall = ''token_velocity_stall''"
| "signal_str ToolRetryAnomaly = ''tool_retry_anomaly''"

text \<open>The derived order of the enum: the order of declaration.\<close>

fun signal_rank :: "SignalKind \<Rightarrow> nat" where
  "signal_rank RepetitionScore = 0"
| "signal_rank SelfReferentialLoop = 1"
| "signal_rank TokenVelocityStall = 2"
| "signal_rank ToolRetryAnomaly = 3"

instantiation SignalKind :: linorder
begin

definition less_eq_SignalKind :: "SignalKind \<Rightarrow> SignalKind \<Rightarrow> bool" where
  "less_eq_SignalKind a b \<longleftrightarrow> signal_rank a \<le> signal_rank b"

definition less_SignalKind :: "SignalKind \<Rightarrow> SignalKind \<Rightarrow> bool" where
  "less_SignalKind a b \<longleftrightarrow> signal_rank a < signal_rank b"

instance
proof
  fix a b :: SignalKind
  show "a \<le> b \<Longrightarrow> b \<le> a \<Longrightarrow> a = b"
    by (cases a; cases b) (simp_all add: less_eq_SignalKind_def)
qed (auto simp: less_eq_SignalKind_def less_SignalKind_def)

end

record Thresholds =
  th_repetition :: f32
  th_self_referential :: f32
  th_token_velocity :: f32
  th_tool_retry :: f32
  th_soft :: f32
  th_medium :: f32
  th_hard :: f32
  th_window :: u64

text \<open>0.6, 0.5, 0.5, 0.4, 0.4, 0.7, 0.9 in single precision.\<close>

definition default_config :: Thresholds where
  "default_config =
     \<lparr> th_repetition = 0x3F19999A, th_self_referential = 0x3F000000, th_token_velocity = 0x3F000000,
       th_tool_retry = 0x3ECCCCCD, th_soft = 0x3ECCCCCD, th_medium = 0x3F333333, th_hard = 0x3F666666,
       th_window = 16 \<rparr>"

record Observation =
  ob_output_hash :: string
  ob_token_count :: u32
  ob_announced_without_action :: bool
  ob_tool_call_hash :: "string option"
  ob_task_state_advanced :: bool

datatype ResponseTier = TierNone | Soft | Medium | Hard

fun tier_str :: "ResponseTier \<Rightarrow> string" where
  "tier_str TierNone = ''none''"
| "tier_str Soft = ''soft''"
| "tier_str Medium = ''medium''"
| "tier_str Hard = ''hard''"

record AgentBuffer =
  ab_observations :: "Observation list"
  ab_last :: "(SignalKind, fval) btree"
  ab_tier :: ResponseTier

definition AgentBuffer_new :: AgentBuffer where
  "AgentBuffer_new = \<lparr> ab_observations = [], ab_last = bt_new, ab_tier = TierNone \<rparr>"

record Monitor =
  mon_cfg :: Thresholds
  mon_state :: "(string, AgentBuffer) btree"

definition Monitor_new :: Monitor where
  "Monitor_new = \<lparr> mon_cfg = default_config, mon_state = bt_new \<rparr>"

section \<open>Signal computation\<close>

definition repetition_score :: "Observation list \<Rightarrow> fval" where
  "repetition_score obs =
     (if length obs < 2 then f0
      else let hits = length (filter (\<lambda>i. list_ex (\<lambda>p. ob_output_hash p = ob_output_hash (obs ! i)) (take i obs))
                                     [0..<length obs])
           in fdiv (f32_of_nat hits) (f32_of_nat (length obs)))"

definition self_referential_score :: "Observation list \<Rightarrow> fval" where
  "self_referential_score obs =
     (if obs = [] then f0
      else fdiv (f32_of_nat (length (filter ob_announced_without_action obs))) (f32_of_nat (length obs)))"

text \<open>The tokens are added in 32 bits; the constant 256 is exact.\<close>

definition token_velocity_score :: "Observation list \<Rightarrow> fval" where
  "token_velocity_score obs =
     (if obs = [] then f0
      else let total_tokens = sum_list (map ob_token_count obs);
               progressed = length (filter ob_task_state_advanced obs)
           in if total_tokens = 0 then f0
              else let progress_rate = fdiv (f32_of_nat progressed) (f32_of_nat (length obs));
                       denom = fmin (fdiv (fdiv (f32_of_nat (unat total_tokens)) (f32_of_nat (length obs))) (Fin False 256)) f1
                   in fclamp (fmul denom (fsub f1 progress_rate)) f0 f1)"

definition tool_retry_score :: "Observation list \<Rightarrow> fval" where
  "tool_retry_score obs =
     (if length obs < 2 then f0
      else let calls = List.map_filter ob_tool_call_hash obs
           in if length calls < 2 then f0
              else let dups = length (filter (\<lambda>i. list_ex (\<lambda>p. p = calls ! i) (take i calls)) [0..<length calls])
                   in fdiv (f32_of_nat dups) (f32_of_nat (length calls)))"

definition contrib :: "fval \<Rightarrow> fval \<Rightarrow> fval" where
  "contrib score gate =
     (if flt score gate then f0
      else let span = fsub f1 gate in if fle span f0 then f1 else fdiv (fsub score gate) span)"

definition combine :: "fval \<Rightarrow> fval \<Rightarrow> fval \<Rightarrow> fval \<Rightarrow> Thresholds \<Rightarrow> fval" where
  "combine rep srl tvs tra cfg =
     (let total = fadd (fadd (fadd (contrib rep (decode (th_repetition cfg)))
                                   (contrib srl (decode (th_self_referential cfg))))
                             (contrib tvs (decode (th_token_velocity cfg))))
                       (contrib tra (decode (th_tool_retry cfg)))
      in fclamp total f0 f1)"

definition tier_for :: "fval \<Rightarrow> Thresholds \<Rightarrow> ResponseTier" where
  "tier_for cumulative cfg =
     (if fle (decode (th_hard cfg)) cumulative then Hard
      else if fle (decode (th_medium cfg)) cumulative then Medium
      else if fle (decode (th_soft cfg)) cumulative then Soft
      else TierNone)"

section \<open>Methods\<close>

definition set_thresholds :: "Thresholds \<Rightarrow> Monitor \<Rightarrow> Monitor" where
  "set_thresholds t m = m\<lparr> mon_cfg := t \<rparr>"

definition thresholds :: "Monitor \<Rightarrow> Thresholds" where
  "thresholds m = mon_cfg m"

definition forget :: "string \<Rightarrow> Monitor \<Rightarrow> Monitor" where
  "forget agent_id m = m\<lparr> mon_state := bt_remove agent_id (mon_state m) \<rparr>"

text \<open>\<open>entry(..).or_insert_with(AgentBuffer::new)\<close>: the buffer of the agent, a new one when there is none.\<close>

definition agent_entry :: "string \<Rightarrow> Monitor \<Rightarrow> AgentBuffer" where
  "agent_entry agent_id m =
     (case bt_get agent_id (mon_state m) of Some b \<Rightarrow> b | None \<Rightarrow> AgentBuffer_new)"

fun pop_to_window :: "u64 \<Rightarrow> Observation list \<Rightarrow> Observation list" where
  "pop_to_window w [] = []"
| "pop_to_window w (ob # obs) = (if unat w < length (ob # obs) then pop_to_window w obs else ob # obs)"

definition observe :: "string \<Rightarrow> Observation \<Rightarrow> Monitor \<Rightarrow> ResponseTier \<times> Monitor" where
  "observe agent_id ob m =
     (let cfg = mon_cfg m;
          buf = agent_entry agent_id m;
          obs = pop_to_window (th_window cfg) (ab_observations buf @ [ob]);
          rep = repetition_score obs;
          srl = self_referential_score obs;
          tvs = token_velocity_score obs;
          tra = tool_retry_score obs;
          scores = bt_insert ToolRetryAnomaly tra (bt_insert TokenVelocityStall tvs
                     (bt_insert SelfReferentialLoop srl (bt_insert RepetitionScore rep (ab_last buf))));
          cumulative = combine rep srl tvs tra cfg;
          tier = tier_for cumulative cfg
      in (tier, m\<lparr> mon_state := bt_insert agent_id
                    \<lparr> ab_observations = obs, ab_last = scores, ab_tier = tier \<rparr> (mon_state m) \<rparr>))"

text \<open>The last score of a signal, 0 when none was recorded.\<close>

definition last_score :: "SignalKind \<Rightarrow> (SignalKind, fval) btree \<Rightarrow> fval" where
  "last_score k l = (case bt_get k l of Some v \<Rightarrow> v | None \<Rightarrow> f0)"

definition record_signal :: "string \<Rightarrow> SignalKind \<Rightarrow> f32 \<Rightarrow> Monitor \<Rightarrow> ResponseTier \<times> Monitor" where
  "record_signal agent_id kind score m =
     (let cfg = mon_cfg m;
          buf = agent_entry agent_id m;
          scores = bt_insert kind (fclamp (decode score) f0 f1) (ab_last buf);
          rep = last_score RepetitionScore scores;
          srl = last_score SelfReferentialLoop scores;
          tvs = last_score TokenVelocityStall scores;
          tra = last_score ToolRetryAnomaly scores;
          cumulative = combine rep srl tvs tra cfg;
          tier = tier_for cumulative cfg
      in (tier, m\<lparr> mon_state := bt_insert agent_id (buf\<lparr> ab_last := scores, ab_tier := tier \<rparr>) (mon_state m) \<rparr>))"

record SignalScores =
  sc_repetition :: fval
  sc_self_referential :: fval
  sc_token_velocity :: fval
  sc_tool_retry :: fval
  sc_tier :: ResponseTier

definition scores :: "string \<Rightarrow> Monitor \<Rightarrow> SignalScores option" where
  "scores agent_id m =
     (case bt_get agent_id (mon_state m) of
        None \<Rightarrow> None
      | Some buf \<Rightarrow>
          Some \<lparr> sc_repetition = last_score RepetitionScore (ab_last buf),
                 sc_self_referential = last_score SelfReferentialLoop (ab_last buf),
                 sc_token_velocity = last_score TokenVelocityStall (ab_last buf),
                 sc_tool_retry = last_score ToolRetryAnomaly (ab_last buf),
                 sc_tier = ab_tier buf \<rparr>)"

text \<open>\<open>normalize_output_hash\<close>, for a character set with the tests of \<open>char::is_whitespace\<close> and
  \<open>char::to_lowercase\<close> and the UTF-8 encoding as arguments; \<open>sp\<close> is the space.\<close>

fun normalize_loop ::
  "('c \<Rightarrow> bool) \<Rightarrow> ('c \<Rightarrow> 'c list) \<Rightarrow> 'c \<Rightarrow> bool \<Rightarrow> 'c list \<Rightarrow> 'c list" where
  "normalize_loop ws to_lowercase sp prev_ws [] = []"
| "normalize_loop ws to_lowercase sp prev_ws (c # s) =
     (if ws c
      then (if prev_ws then [] else [sp]) @ normalize_loop ws to_lowercase sp True s
      else to_lowercase c @ normalize_loop ws to_lowercase sp False s)"

definition normalize_output_hash ::
  "('c \<Rightarrow> bool) \<Rightarrow> ('c \<Rightarrow> 'c list) \<Rightarrow> ('c list \<Rightarrow> u8 list) \<Rightarrow> 'c \<Rightarrow> 'c list \<Rightarrow> string" where
  "normalize_output_hash ws to_lowercase encode_utf8 sp s =
     sha256_hex (encode_utf8 (trim ws (normalize_loop ws to_lowercase sp False s)))"

section \<open>What the scores count\<close>

text \<open>The number of positions whose element occurs before: the length less the number of distinct elements.\<close>

definition repeats :: "'a list \<Rightarrow> nat" where
  "repeats xs = length (filter (\<lambda>i. xs ! i \<in> set (take i xs)) [0..<length xs])"

lemma repeats_snoc: "repeats (xs @ [x]) = repeats xs + (if x \<in> set xs then 1 else 0)"
proof -
  have "filter (\<lambda>i. (xs @ [x]) ! i \<in> set (take i (xs @ [x]))) [0..<length xs] =
        filter (\<lambda>i. xs ! i \<in> set (take i xs)) [0..<length xs]"
    by (rule filter_cong) (simp_all add: nth_append)
  then show ?thesis by (simp add: repeats_def)
qed

lemma repeats_card: "repeats xs = length xs - card (set xs)"
proof (induction xs rule: rev_induct)
  case (snoc x xs)
  have "card (set xs) \<le> length xs" by (rule card_length)
  then show ?case using snoc by (simp add: repeats_snoc insert_absorb Suc_diff_le)
qed (simp add: repeats_def)

lemma repeats_le: "repeats xs \<le> length xs"
  by (simp add: repeats_card)

lemma repetition_repeats:
  "repetition_score obs =
    (if length obs < 2 then f0
     else fdiv (f32_of_nat (repeats (map ob_output_hash obs))) (f32_of_nat (length obs)))"
proof -
  have "filter (\<lambda>i. list_ex (\<lambda>p. ob_output_hash p = ob_output_hash (obs ! i)) (take i obs)) [0..<length obs] =
        filter (\<lambda>i. map ob_output_hash obs ! i \<in> set (take i (map ob_output_hash obs))) [0..<length obs]"
    by (rule filter_cong) (simp_all add: list_ex_iff take_map image_iff, metis)
  then show ?thesis by (simp add: repetition_score_def repeats_def Let_def)
qed

lemma tool_retry_repeats:
  "tool_retry_score obs =
    (let calls = List.map_filter ob_tool_call_hash obs
     in if length calls < 2 then f0 else fdiv (f32_of_nat (repeats calls)) (f32_of_nat (length calls)))"
proof -
  have "length (List.map_filter ob_tool_call_hash obs) \<le> length obs" by (simp add: List.map_filter_def)
  moreover have "filter (\<lambda>i. list_ex (\<lambda>p. p = calls ! i) (take i calls)) [0..<length calls] =
        filter (\<lambda>i. calls ! i \<in> set (take i calls)) [0..<length calls]" for calls :: "string list"
    by (rule filter_cong) (auto simp: list_ex_iff)
  ultimately show ?thesis by (auto simp: tool_retry_score_def repeats_def Let_def)
qed

section \<open>Scores lie between 0 and 1\<close>

lemma score_bounds:
  assumes "length obs < 2 ^ 64"
  shows "in_unit (repetition_score obs)" "in_unit (self_referential_score obs)" "in_unit (tool_retry_score obs)"
proof -
  show "in_unit (repetition_score obs)"
    using assms repeats_le [of "map ob_output_hash obs"] by (auto simp: repetition_repeats intro!: count_quotient)
  show "in_unit (self_referential_score obs)"
    using assms by (auto simp: self_referential_score_def intro!: count_quotient)
  have "length (List.map_filter ob_tool_call_hash obs) \<le> length obs" by (simp add: List.map_filter_def)
  then show "in_unit (tool_retry_score obs)"
    using assms repeats_le [of "List.map_filter ob_tool_call_hash obs"]
    by (auto simp: tool_retry_repeats Let_def intro!: count_quotient)
qed
lemma in_unit_ops:
  assumes "in_unit x"
  shows "x \<noteq> NaN" "in_unit (fsub f1 x)" "in_unit y \<Longrightarrow> in_unit (fmul x y)"
proof -
  show "x \<noteq> NaN" using assms by (auto simp: in_unit_def)
  have "\<bar>signed f1 - signed x\<bar> \<le> pow2 127" using assms by (intro unit_le_pow2) (simp add: in_unit_def abs_le_iff)
  then show "in_unit (fsub f1 x)"
    using fsub_finite [of f1 x] assms rounded_unit [of "1 - signed x"] by (simp add: in_unit_def)
  assume y: "in_unit y"
  then have "0 \<le> signed x * signed y" "signed x * signed y \<le> 1"
    using assms by (simp_all add: in_unit_def mult_le_one)
  moreover from this have "\<bar>signed x * signed y\<bar> \<le> pow2 127" by (intro unit_le_pow2) simp
  ultimately show "in_unit (fmul x y)"
    using fmul_finite [of x y] assms y rounded_unit [of "signed x * signed y"] by (simp add: in_unit_def)
qed

lemma token_rate:
  assumes "t < 2 ^ 32" "0 < n" "n < 2 ^ 64"
  shows "in_unit (fmin (fdiv (fdiv (f32_of_nat t) (f32_of_nat n)) (Fin False 256)) f1)"
proof -
  have t: "is_finite (f32_of_nat t)" "signed (f32_of_nat t) = rounded (of_nat t)"
    using assms by (simp_all add: f32_of_nat_finite)
  have n: "is_finite (f32_of_nat n)" "signed (f32_of_nat n) = rounded (of_nat n)"
    using assms by (simp_all add: f32_of_nat_finite)
  have 1: "1 \<le> rounded (of_nat n)" "0 \<le> rounded (of_nat t)"
    using assms by (simp_all add: rounded_of_nat_ge_1 rounded_nonneg)
  have "(of_nat t :: rat) \<le> of_nat (2 ^ 32)" using assms(1) of_nat_mono less_imp_le by blast
  then have "\<bar>of_nat t :: rat\<bar> \<le> pow2 32" by (simp add: pow2_def)
  then have t32: "rounded (of_nat t) \<le> pow2 32" using rounded_bound [of "of_nat t" 32] by simp
  let ?q = "rounded (of_nat t) / rounded (of_nat n) :: rat"
  have q: "0 \<le> ?q" "?q \<le> pow2 32"
  proof -
    show "0 \<le> ?q" using 1 by simp
    have "?q \<le> rounded (of_nat t) / 1" using 1 by (intro divide_left_mono) simp_all
    then show "?q \<le> pow2 32" using t32 by simp
  qed
  have "\<bar>?q\<bar> \<le> pow2 127" using q pow2_le_iff [of 32 127] by simp
  then have d: "is_finite (fdiv (f32_of_nat t) (f32_of_nat n))" "signed (fdiv (f32_of_nat t) (f32_of_nat n)) = rounded ?q"
    using fdiv_finite [OF t(1) n(1)] t n 1 by simp_all
  have r: "0 \<le> rounded ?q" "rounded ?q \<le> pow2 32"
    using rounded_nonneg [OF q(1)] rounded_bound [of ?q 32] q by simp_all
  then have r256: "0 \<le> rounded ?q / 256" "rounded ?q / 256 \<le> pow2 127"
    using pow2_le_iff [of 32 127] by simp_all
  then have e: "is_finite (fdiv (fdiv (f32_of_nat t) (f32_of_nat n)) (Fin False 256))"
    "signed (fdiv (fdiv (f32_of_nat t) (f32_of_nat n)) (Fin False 256)) = rounded (rounded ?q / 256)"
    using fdiv_finite [OF d(1), of "Fin False 256"] d by simp_all
  then show ?thesis using rounded_nonneg [OF r256(1)] by (intro in_unit_fmin) (auto simp: fle_finite)
qed

lemma token_velocity_bounds:
  assumes "length obs < 2 ^ 64"
  shows "in_unit (token_velocity_score obs)"
proof (cases "obs = [] \<or> sum_list (map ob_token_count obs) = 0")
  case False
  let ?t = "unat (sum_list (map ob_token_count obs))" and ?n = "length obs"
  let ?p = "length (filter ob_task_state_advanced obs)"
  have "?t < 2 ^ 32" using unsigned_less [of "sum_list (map ob_token_count obs)"] by simp
  then have "in_unit (fmin (fdiv (fdiv (f32_of_nat ?t) (f32_of_nat ?n)) (Fin False 256)) f1)"
    using token_rate assms False by blast
  moreover have "in_unit (fsub f1 (fdiv (f32_of_nat ?p) (f32_of_nat ?n)))"
    using False assms by (intro in_unit_ops(2) count_quotient(1)) simp_all
  ultimately show ?thesis
    using False by (simp add: token_velocity_score_def Let_def in_unit_clamp in_unit_ops)
qed (auto simp: token_velocity_score_def Let_def)

lemmas scores_in_unit = score_bounds token_velocity_bounds

section \<open>The combination is monotone\<close>

text \<open>A configuration in range with ordered tiers.\<close>

definition config_ok :: "Thresholds \<Rightarrow> bool" where
  "config_ok cfg \<longleftrightarrow>
     in_unit (decode (th_repetition cfg)) \<and> in_unit (decode (th_self_referential cfg)) \<and>
     in_unit (decode (th_token_velocity cfg)) \<and> in_unit (decode (th_tool_retry cfg)) \<and>
     in_unit (decode (th_soft cfg)) \<and> in_unit (decode (th_medium cfg)) \<and> in_unit (decode (th_hard cfg)) \<and>
     fle (decode (th_soft cfg)) (decode (th_medium cfg)) \<and> fle (decode (th_medium cfg)) (decode (th_hard cfg))"

definition contrib_value :: "rat \<Rightarrow> rat \<Rightarrow> rat" where
  "contrib_value s g =
     (if s < g then 0 else if rounded (1 - g) \<le> 0 then 1 else rounded (rounded (s - g) / rounded (1 - g)))"

lemma contrib_unit:
  assumes "in_unit s" "in_unit g"
  shows "in_unit (contrib s g)" "signed (contrib s g) = contrib_value (signed s) (signed g)"
proof -
  let ?s = "signed s" and ?g = "signed g"
  have sg: "is_finite s" "is_finite g" "0 \<le> ?s" "?s \<le> 1" "0 \<le> ?g" "?g \<le> 1"
    using assms by (simp_all add: in_unit_def)
  have span: "is_finite (fsub f1 g)" "signed (fsub f1 g) = rounded (1 - ?g)"
    using fsub_finite [of f1 g] unit_le_pow2 [of "1 - ?g"] sg by simp_all
  have diff: "is_finite (fsub s g)" "signed (fsub s g) = rounded (?s - ?g)"
    using fsub_finite [of s g] unit_le_pow2 [of "?s - ?g"] sg by (simp_all add: abs_le_iff)
  have "in_unit (contrib s g) \<and> signed (contrib s g) = contrib_value ?s ?g"
  proof (cases "?s < ?g \<or> rounded (1 - ?g) \<le> 0")
    case True
    then show ?thesis
      using sg span by (auto simp: contrib_def contrib_value_def Let_def flt_finite fle_finite)
  next
    case False
    let ?q = "rounded (?s - ?g) / rounded (1 - ?g)"
    have "rounded (?s - ?g) \<le> rounded (1 - ?g)" using sg by (intro rounded_mono) simp
    then have q: "0 \<le> ?q" "?q \<le> 1" using False rounded_nonneg [of "?s - ?g"] by simp_all
    have "is_finite (fdiv (fsub s g) (fsub f1 g)) \<and> signed (fdiv (fsub s g) (fsub f1 g)) = rounded ?q"
    proof -
      have "\<bar>?q\<bar> \<le> pow2 127" by (rule unit_le_pow2) (use q in linarith)
      moreover have "rounded (1 - ?g) \<noteq> 0" using False by linarith
      ultimately show ?thesis using fdiv_finite [OF diff(1) span(1)] unfolding diff(2) span(2) by blast
    qed
    then show ?thesis
      using False sg span rounded_unit [OF q]
      by (auto simp: contrib_def contrib_value_def Let_def flt_finite fle_finite in_unit_def)
  qed
  then show "in_unit (contrib s g)" "signed (contrib s g) = contrib_value ?s ?g" by simp_all
qed

lemma contrib_value_mono:
  assumes "s \<le> t" "t \<le> 1"
  shows "contrib_value s g \<le> contrib_value t g"
proof (cases "s < g \<or> rounded (1 - g) \<le> 0")
  case True
  have "0 \<le> contrib_value t g"
    using rounded_nonneg [of "rounded (t - g) / rounded (1 - g)"] rounded_nonneg [of "t - g"]
    by (auto simp: contrib_value_def)
  then show ?thesis using True assms by (auto simp: contrib_value_def)
next
  case False
  have "rounded (s - g) / rounded (1 - g) \<le> rounded (t - g) / rounded (1 - g)"
    using False assms by (intro divide_right_mono rounded_mono) simp_all
  then show ?thesis using False assms by (simp add: contrib_value_def rounded_mono)
qed

lemma contrib_value_1: "g \<le> 1 \<Longrightarrow> contrib_value 1 g = 1"
  by (simp add: contrib_value_def)

definition total_value :: "rat \<Rightarrow> rat \<Rightarrow> rat \<Rightarrow> rat \<Rightarrow> rat" where
  "total_value a b c d = max 0 (min 1 (rounded (rounded (rounded (a + b) + c) + d)))"

lemma total_value_mono:
  assumes "a \<le> a'" "b \<le> b'" "c \<le> c'" "d \<le> d'"
  shows "total_value a b c d \<le> total_value a' b' c' d'"
proof -
  have "rounded (rounded (rounded (a + b) + c) + d) \<le> rounded (rounded (rounded (a' + b') + c') + d')"
    using assms by (intro rounded_mono add_mono)
  then show ?thesis unfolding total_value_def by (intro max.mono min.mono) simp_all
qed

lemma add_unit:
  assumes "is_finite x" "0 \<le> signed x" "signed x \<le> of_nat n" "n < 8" "in_unit y"
  shows "is_finite (fadd x y) \<and> signed (fadd x y) = rounded (signed x + signed y)"
proof -
  have "signed x + signed y \<le> of_nat 8" using assms by (simp add: in_unit_def)
  then have "\<bar>signed x + signed y\<bar> \<le> pow2 3" using assms by (simp add: in_unit_def pow2_def)
  then have "\<bar>signed x + signed y\<bar> \<le> pow2 127" using pow2_le_iff [of 3 127] by simp
  then show ?thesis using fadd_finite assms by (simp add: in_unit_def)
qed

lemma rounded_nat_bound:
  assumes "v \<le> 2 ^ n" "n < 8"
  shows "rounded v \<le> 2 ^ n"
  using rounded_mono [of v "pow2 (int n)"] assms rounded_pow2 [of "int n"] by (simp add: pow2_def)

lemma sum4_unit:
  assumes "in_unit a" "in_unit b" "in_unit c" "in_unit d"
  shows "is_finite (fadd (fadd (fadd a b) c) d) \<and>
    signed (fadd (fadd (fadd a b) c) d) = rounded (rounded (rounded (signed a + signed b) + signed c) + signed d)"
proof -
  have ab: "is_finite (fadd a b) \<and> signed (fadd a b) = rounded (signed a + signed b)"
    using add_unit [of a 1 b] assms by (simp add: in_unit_def)
  have b2: "0 \<le> rounded (signed a + signed b)" "rounded (signed a + signed b) \<le> 2"
    using assms rounded_nonneg [of "signed a + signed b"] rounded_nat_bound [of "signed a + signed b" 1]
    by (simp_all add: in_unit_def)
  then have abc: "is_finite (fadd (fadd a b) c) \<and>
      signed (fadd (fadd a b) c) = rounded (rounded (signed a + signed b) + signed c)"
    using add_unit [of "fadd a b" 2 c] assms ab by simp
  let ?v = "rounded (signed a + signed b) + signed c"
  have "0 \<le> rounded ?v" "rounded ?v \<le> 4"
    using assms b2 rounded_nonneg [of ?v] rounded_nat_bound [of ?v 2] by (simp_all add: in_unit_def)
  then show ?thesis using add_unit [of "fadd (fadd a b) c" 4 d] assms abc by simp
qed

lemma combine_value:
  assumes "config_ok cfg" "in_unit rep" "in_unit srl" "in_unit tvs" "in_unit tra"
  shows "in_unit (combine rep srl tvs tra cfg)"
    "signed (combine rep srl tvs tra cfg) =
       total_value (contrib_value (signed rep) (signed (decode (th_repetition cfg))))
                   (contrib_value (signed srl) (signed (decode (th_self_referential cfg))))
                   (contrib_value (signed tvs) (signed (decode (th_token_velocity cfg))))
                   (contrib_value (signed tra) (signed (decode (th_tool_retry cfg))))"
proof -
  let ?a = "contrib rep (decode (th_repetition cfg))" and ?b = "contrib srl (decode (th_self_referential cfg))"
  let ?c = "contrib tvs (decode (th_token_velocity cfg))" and ?d = "contrib tra (decode (th_tool_retry cfg))"
  have g: "in_unit (decode (th_repetition cfg))" "in_unit (decode (th_self_referential cfg))"
    "in_unit (decode (th_token_velocity cfg))" "in_unit (decode (th_tool_retry cfg))"
    using assms(1) by (simp_all add: config_ok_def)
  note units = contrib_unit [OF assms(2) g(1)] contrib_unit [OF assms(3) g(2)]
    contrib_unit [OF assms(4) g(3)] contrib_unit [OF assms(5) g(4)]
  note total = sum4_unit [OF units(1,3,5,7)]
  have c: "combine rep srl tvs tra cfg = fclamp (fadd (fadd (fadd ?a ?b) ?c) ?d) f0 f1"
    by (simp add: combine_def Let_def)
  have v: "is_finite (combine rep srl tvs tra cfg) \<and>
      signed (combine rep srl tvs tra cfg) = total_value (signed ?a) (signed ?b) (signed ?c) (signed ?d)"
    unfolding c total_value_def using fclamp_unit total by metis
  then show "signed (combine rep srl tvs tra cfg) =
       total_value (contrib_value (signed rep) (signed (decode (th_repetition cfg))))
                   (contrib_value (signed srl) (signed (decode (th_self_referential cfg))))
                   (contrib_value (signed tvs) (signed (decode (th_token_velocity cfg))))
                   (contrib_value (signed tra) (signed (decode (th_tool_retry cfg))))"
    unfolding units(2,4,6,8) by simp
  show "in_unit (combine rep srl tvs tra cfg)" using v by (simp add: in_unit_def total_value_def)
qed

section \<open>Tiers\<close>

fun severity :: "ResponseTier \<Rightarrow> nat" where
  "severity TierNone = 0"
| "severity Soft = 1"
| "severity Medium = 2"
| "severity Hard = 3"

lemma tier_for_severity:
  assumes "config_ok cfg" "in_unit c"
  shows "(1 \<le> severity (tier_for c cfg) \<longleftrightarrow> signed (decode (th_soft cfg)) \<le> signed c) \<and>
    (2 \<le> severity (tier_for c cfg) \<longleftrightarrow> signed (decode (th_medium cfg)) \<le> signed c) \<and>
    (3 \<le> severity (tier_for c cfg) \<longleftrightarrow> signed (decode (th_hard cfg)) \<le> signed c)"
proof -
  have "is_finite c" "is_finite (decode (th_soft cfg))" "is_finite (decode (th_medium cfg))"
    "is_finite (decode (th_hard cfg))" using assms by (simp_all add: config_ok_def in_unit_def)
  then show ?thesis using assms(1) by (auto simp: tier_for_def config_ok_def fle_finite)
qed

lemma tier_for_mono:
  assumes "config_ok cfg" "in_unit c" "in_unit d" "signed c \<le> signed d"
  shows "severity (tier_for c cfg) \<le> severity (tier_for d cfg)"
proof -
  have "severity (tier_for c cfg) \<in> {0, 1, 2, 3}" by (cases "tier_for c cfg") simp_all
  then show ?thesis
    using tier_for_severity [OF assms(1,2)] tier_for_severity [OF assms(1,3)] assms(4)
    by (cases "tier_for c cfg") auto
qed

lemma total_value_1:
  assumes "0 \<le> a" "0 \<le> b" "0 \<le> c" "0 \<le> d" "1 \<le> a \<or> 1 \<le> b \<or> 1 \<le> c \<or> 1 \<le> d"
  shows "total_value a b c d = 1"
proof -
  have up: "1 \<le> rounded v" if "1 \<le> v" for v using rounded_mono [OF that] by simp
  have nn: "0 \<le> rounded (a + b)" "0 \<le> rounded (rounded (a + b) + c)"
    using assms by (auto intro!: rounded_nonneg add_nonneg_nonneg)
  have "1 \<le> rounded (rounded (rounded (a + b) + c) + d)"
  proof (rule up)
    consider "1 \<le> a + b" | "1 \<le> c" | "1 \<le> d" using assms by linarith
    then show "1 \<le> rounded (rounded (a + b) + c) + d"
    proof cases
      case 1
      then have "1 \<le> rounded (a + b)" by (rule up)
      then have "1 \<le> rounded (rounded (a + b) + c)" using assms(3) by (intro up) simp
      then show ?thesis using assms(4) by simp
    next
      case 2
      then have "1 \<le> rounded (rounded (a + b) + c)" using nn by (intro up) simp
      then show ?thesis using assms(4) by simp
    next
      case 3
      then show ?thesis using nn by simp
    qed
  qed
  then show ?thesis by (simp add: total_value_def)
qed

lemma contrib_value_below: "s < g \<Longrightarrow> contrib_value s g = 0"
  by (simp add: contrib_value_def)

lemma contrib_value_nonneg: "0 \<le> contrib_value s g"
  using rounded_nonneg [of "rounded (s - g) / rounded (1 - g)"] rounded_nonneg [of "s - g"]
  by (auto simp: contrib_value_def)

lemma contrib_NaN: "contrib s NaN = NaN"
  by (cases s) (simp_all add: contrib_def fsub_def Let_def)

lemma fadd_NaN [simp]: "fadd NaN x = NaN" "fadd x NaN = NaN"
  by (cases x; simp)+

text \<open>A gate that is not a number turns the whole combination into NaN, which no tier compares with.\<close>

lemma nan_gate_silences:
  assumes "NaN \<in> {decode (th_repetition cfg), decode (th_self_referential cfg),
                  decode (th_token_velocity cfg), decode (th_tool_retry cfg)}"
  shows "tier_for (combine rep srl tvs tra cfg) cfg = TierNone"
proof -
  have "combine rep srl tvs tra cfg = NaN"
    using assms by (auto simp: combine_def Let_def contrib_NaN fclamp_NaN dest!: sym [of NaN])
  then show ?thesis by (simp add: tier_for_def)
qed

section \<open>The methods keep the scores in range\<close>

definition monitor_ok :: "Monitor \<Rightarrow> bool" where
  "monitor_ok m \<longleftrightarrow>
     (\<forall>a b k. bt_get a (mon_state m) = Some b \<longrightarrow> in_unit (last_score k (ab_last b)))"

lemma monitor_ok_entry: "monitor_ok m \<Longrightarrow> in_unit (last_score k (ab_last (agent_entry a m)))"
  by (auto simp: monitor_ok_def agent_entry_def AgentBuffer_new_def last_score_def [of k bt_new] split: option.splits)

lemma last_score_insert: "last_score j (bt_insert k v l) = (if j = k then v else last_score j l)"
  by (simp add: last_score_def bt_get_insert)

lemma pop_to_window_eq: "pop_to_window w xs = drop (length xs - unat w) xs"
  by (induction w xs rule: pop_to_window.induct) (auto simp: Suc_diff_le not_less)

lemma monitor_ok_insert:
  assumes "monitor_ok m" "\<And>k. in_unit (last_score k (ab_last b))"
  shows "monitor_ok (m\<lparr> mon_state := bt_insert a b (mon_state m) \<rparr>)"
  using assms by (auto simp: monitor_ok_def bt_get_insert)

lemma monitor_ok_step:
  assumes "monitor_ok m"
  shows "length (ab_observations (agent_entry a m)) < 2 ^ 64 - 1 \<Longrightarrow> monitor_ok (snd (observe a ob m))"
    "decode score \<noteq> NaN \<Longrightarrow> monitor_ok (snd (record_signal a k score m))"
    "monitor_ok (forget a m)" "monitor_ok (set_thresholds t m)"
proof -
  show "monitor_ok (snd (observe a ob m))" if "length (ab_observations (agent_entry a m)) < 2 ^ 64 - 1"
  proof -
    let ?obs = "pop_to_window (th_window (mon_cfg m)) (ab_observations (agent_entry a m) @ [ob])"
    have "length ?obs < 2 ^ 64" using that by (simp add: pop_to_window_eq)
    note u = scores_in_unit [OF this]
    show ?thesis unfolding observe_def Let_def snd_conv
      by (rule monitor_ok_insert [OF assms]) (simp add: last_score_insert u monitor_ok_entry [OF assms])
  qed
  show "monitor_ok (snd (record_signal a k score m))" if "decode score \<noteq> NaN"
    unfolding record_signal_def Let_def snd_conv
    by (rule monitor_ok_insert [OF assms])
      (simp add: last_score_insert in_unit_clamp that monitor_ok_entry [OF assms])
qed (use assms in \<open>auto simp: monitor_ok_def forget_def set_thresholds_def bt_get_remove split: if_splits\<close>)

lemma monitor_ok_new: "monitor_ok Monitor_new"
  by (simp add: monitor_ok_def Monitor_new_def)

lemma default_config_values:
  "decode (th_repetition default_config) = Fin False (10066330 / 2 ^ 24)"
  "decode (th_self_referential default_config) = Fin False (1 / 2)"
  "decode (th_token_velocity default_config) = Fin False (1 / 2)"
  "decode (th_tool_retry default_config) = Fin False (13421773 / 2 ^ 25)"
  "decode (th_soft default_config) = Fin False (13421773 / 2 ^ 25)"
  "decode (th_medium default_config) = Fin False (11744051 / 2 ^ 24)"
  "decode (th_hard default_config) = Fin False (15099494 / 2 ^ 24)"
  by (simp_all add: default_config_def decode_def pow2_def Let_def)

lemma default_config_ok: "config_ok default_config"
  by (simp add: config_ok_def default_config_values in_unit_def)

text \<open>The last scores of a buffer are those of its observations, and every score is in range.\<close>

definition scored :: "AgentBuffer \<Rightarrow> bool" where
  "scored b \<longleftrightarrow>
     (let obs = ab_observations b; n = length obs; calls = List.map_filter ob_tool_call_hash obs
      in last_score RepetitionScore (ab_last b) =
           (if n < 2 then f0 else fdiv (f32_of_nat (n - card (ob_output_hash ` set obs))) (f32_of_nat n)) \<and>
         last_score SelfReferentialLoop (ab_last b) = self_referential_score obs \<and>
         last_score TokenVelocityStall (ab_last b) = token_velocity_score obs \<and>
         last_score ToolRetryAnomaly (ab_last b) =
           (if length calls < 2 then f0
            else fdiv (f32_of_nat (length calls - card (set calls))) (f32_of_nat (length calls))) \<and>
         (\<forall>k. in_unit (last_score k (ab_last b))))"

section \<open>Properties\<close>



text \<open>C31: one observation.  The agent's buffer becomes the last \<open>window\<close> of its observations and the new one, the
  four scores are the shares of repeated outputs, of announcements without action, of stalled output and of repeated
  tool calls in it, each between 0 and 1, the tier returned is the one stored, and neither the configuration nor any
  other agent changes.\<close>

theorem observe_correct:
  assumes ok: "monitor_ok m" and mem: "length (ab_observations (agent_entry a m)) < 2 ^ 64 - 1"
  shows "(\<exists>b. bt_get a (mon_state (snd (observe a ob m))) = Some b \<and>
      ab_observations b =
        drop (Suc (length (ab_observations (agent_entry a m))) - unat (th_window (mon_cfg m)))
             (ab_observations (agent_entry a m) @ [ob]) \<and>
      length (ab_observations b) \<le> unat (th_window (mon_cfg m)) \<and>
      scored b \<and> ab_tier b = fst (observe a ob m)) \<and>
    mon_cfg (snd (observe a ob m)) = mon_cfg m \<and>
    (\<forall>a'. a' = a \<or> bt_get a' (mon_state (snd (observe a ob m))) = bt_get a' (mon_state m))"
proof (intro conjI)
  let ?m = "snd (observe a ob m)"
  obtain b where b: "bt_get a (mon_state ?m) = Some b"
    and obs: "ab_observations b = pop_to_window (th_window (mon_cfg m)) (ab_observations (agent_entry a m) @ [ob])"
    and tier: "ab_tier b = fst (observe a ob m)"
    and last: "last_score RepetitionScore (ab_last b) = repetition_score (ab_observations b)"
      "last_score SelfReferentialLoop (ab_last b) = self_referential_score (ab_observations b)"
      "last_score TokenVelocityStall (ab_last b) = token_velocity_score (ab_observations b)"
      "last_score ToolRetryAnomaly (ab_last b) = tool_retry_score (ab_observations b)"
    by (simp add: observe_def Let_def bt_get_insert last_score_insert)
  have "in_unit (last_score k (ab_last b))" for k
    using monitor_ok_step(1) [OF ok mem] b unfolding monitor_ok_def by blast
  then have "scored b"
    unfolding scored_def Let_def last by (simp add: repetition_repeats tool_retry_repeats repeats_card Let_def)
  moreover have "ab_observations b =
      drop (Suc (length (ab_observations (agent_entry a m))) - unat (th_window (mon_cfg m)))
           (ab_observations (agent_entry a m) @ [ob])"
    unfolding obs pop_to_window_eq by simp
  moreover have "length (ab_observations b) \<le> unat (th_window (mon_cfg m))"
    unfolding obs pop_to_window_eq by simp
  ultimately show "\<exists>b. bt_get a (mon_state ?m) = Some b \<and>
      ab_observations b =
        drop (Suc (length (ab_observations (agent_entry a m))) - unat (th_window (mon_cfg m)))
             (ab_observations (agent_entry a m) @ [ob]) \<and>
      length (ab_observations b) \<le> unat (th_window (mon_cfg m)) \<and>
      scored b \<and> ab_tier b = fst (observe a ob m)" using b tier by blast
  show "mon_cfg ?m = mon_cfg m" by (simp add: observe_def Let_def)
  show "\<forall>a'. a' = a \<or> bt_get a' (mon_state ?m) = bt_get a' (mon_state m)"
    by (simp add: observe_def Let_def bt_get_insert)
qed

theorem observe_correct_witness:
  "\<exists>b. bt_get ''agent'' (mon_state (snd (observe ''agent'' \<lparr> ob_output_hash = ''00'', ob_token_count = 9,
       ob_announced_without_action = True, ob_tool_call_hash = None, ob_task_state_advanced = False \<rparr> Monitor_new))) = Some b \<and>
     length (ab_observations b) = 1 \<and> scored b"
proof -
  have e: "agent_entry ''agent'' Monitor_new = AgentBuffer_new" by (simp add: agent_entry_def Monitor_new_def)
  have w: "th_window (mon_cfg Monitor_new) = 16" by (simp add: Monitor_new_def default_config_def)
  show ?thesis
    using observe_correct [OF monitor_ok_new, of "''agent''" "\<lparr> ob_output_hash = ''00'', ob_token_count = 9,
       ob_announced_without_action = True, ob_tool_call_hash = None, ob_task_state_advanced = False \<rparr>"]
    unfolding e w by (auto simp: AgentBuffer_new_def)
qed

end
