(* ===== verification/Uart.thy ===== *)
theory Uart
  imports Golem_Prelude
begin

text \<open>
  The serial port COM1 as the code sees it: a 16550 UART behind the port instructions \<open>in\<close> and \<open>out\<close>, and the two
  polled drivers of \<open>safemode/mod.rs\<close> and \<open>safemode/sentinel_config.rs\<close>, with the unpolled banner writer of
  \<open>main.rs\<close>.

  The device transmits a byte in a finite number of polls of the line status register, and a byte written while
  it is still transmitting is lost; the bytes the operator types arrive each after a finite number of polls.  A
  driver that waits for a byte that never comes does not return: that is the value \<open>None\<close>.

  \<open>console_port\<close> is the contract of a polled driver, what it writes is transmitted in order and what it reads
  is the input in order; both drivers are interpretations.
\<close>

unbundle bit_operations_syntax

section \<open>The device\<close>

text \<open>\<open>ua_busy\<close> is the number of polls until the transmitter is free, \<open>ua_delays\<close> gives this number for the bytes to
  come (0 when it runs out), \<open>ua_input\<close> the bytes to be received with the number of polls until each is ready.\<close>

record Uart =
  ua_ier :: u8
  ua_lcr :: u8
  ua_dll :: u8
  ua_dlm :: u8
  ua_fcr :: u8
  ua_mcr :: u8
  ua_sent :: "u8 list"
  ua_busy :: nat
  ua_delays :: "nat list"
  ua_input :: "(nat \<times> u8) list"

definition COM1 :: u16 where "COM1 = 0x3F8"

definition dlab :: "Uart \<Rightarrow> bool" where
  "dlab u \<longleftrightarrow> bit (ua_lcr u) 7"

fun ready_input :: "(nat \<times> u8) list \<Rightarrow> bool" where
  "ready_input ((0, b) # inp) = True"
| "ready_input _ = False"

fun age_input :: "(nat \<times> u8) list \<Rightarrow> (nat \<times> u8) list" where
  "age_input ((n, b) # inp) = (n - 1, b) # inp"
| "age_input [] = []"

text \<open>Line status: bit 0 data ready, bit 5 transmit holding register empty.  Time passes with every poll.\<close>

definition read_lsr :: "Uart \<Rightarrow> u8 \<times> Uart" where
  "read_lsr u =
     ((if ready_input (ua_input u) then 1 else 0) OR (if ua_busy u = 0 then 0x20 else 0),
      u\<lparr> ua_busy := ua_busy u - 1, ua_input := age_input (ua_input u) \<rparr>)"

definition receive :: "Uart \<Rightarrow> u8 \<times> Uart" where
  "receive u =
     (case ua_input u of
        (0, b) # inp \<Rightarrow> (b, u\<lparr> ua_input := inp \<rparr>)
      | _ \<Rightarrow> (0, u))"

definition transmit :: "u8 \<Rightarrow> Uart \<Rightarrow> Uart" where
  "transmit b u =
     (if 0 < ua_busy u then u
      else case ua_delays u of
             [] \<Rightarrow> u\<lparr> ua_sent := ua_sent u @ [b] \<rparr>
           | d # ds \<Rightarrow> u\<lparr> ua_sent := ua_sent u @ [b], ua_busy := d, ua_delays := ds \<rparr>)"

definition inb :: "u16 \<Rightarrow> Uart \<Rightarrow> u8 \<times> Uart" where
  "inb port u =
     (if port = COM1 then (if dlab u then (ua_dll u, u) else receive u)
      else if port = COM1 + 1 then ((if dlab u then ua_dlm u else ua_ier u), u)
      else if port = COM1 + 3 then (ua_lcr u, u)
      else if port = COM1 + 4 then (ua_mcr u, u)
      else if port = COM1 + 5 then read_lsr u
      else (0xFF, u))"

definition outb :: "u16 \<Rightarrow> u8 \<Rightarrow> Uart \<Rightarrow> Uart" where
  "outb port v u =
     (if port = COM1 then (if dlab u then u\<lparr> ua_dll := v \<rparr> else transmit v u)
      else if port = COM1 + 1 then (if dlab u then u\<lparr> ua_dlm := v \<rparr> else u\<lparr> ua_ier := v \<rparr>)
      else if port = COM1 + 2 then u\<lparr> ua_fcr := v \<rparr>
      else if port = COM1 + 3 then u\<lparr> ua_lcr := v \<rparr>
      else if port = COM1 + 4 then u\<lparr> ua_mcr := v \<rparr>
      else u)"

text \<open>What is still to be received.\<close>

definition pending :: "Uart \<Rightarrow> u8 list" where
  "pending u = map snd (ua_input u)"

section \<open>The polled drivers\<close>

definition LSR_DATA_READY :: u8 where "LSR_DATA_READY = 1"
definition LSR_THR_EMPTY :: u8 where "LSR_THR_EMPTY = 0x20"

text \<open>Read the line status register at a port until a bit of the mask is set.\<close>

partial_function (option) poll_lsr :: "u16 \<Rightarrow> u8 \<Rightarrow> Uart \<Rightarrow> Uart option" where
  "poll_lsr lsr m u =
     (case inb lsr u of (status, u') \<Rightarrow> if status AND m \<noteq> 0 then Some u' else poll_lsr lsr m u')"

text \<open>\<open>safemode/mod.rs\<close>: register offsets from the base, \<open>init\<close> programs 115200 8N1.\<close>

definition safemode_serial_init :: "Uart \<Rightarrow> Uart" where
  "safemode_serial_init u =
     outb (COM1 + 4) 0x0B (outb (COM1 + 2) 0xC7 (outb (COM1 + 3) 0x03 (outb (COM1 + 1) 0x00
       (outb (COM1 + 0) 0x01 (outb (COM1 + 3) 0x80 (outb (COM1 + 1) 0x00 u))))))"

definition safemode_write_byte :: "u8 \<Rightarrow> Uart \<Rightarrow> Uart option" where
  "safemode_write_byte b u =
     (case poll_lsr (COM1 + 5) LSR_THR_EMPTY u of None \<Rightarrow> None | Some u' \<Rightarrow> Some (outb (COM1 + 0) b u'))"

definition safemode_read_byte :: "Uart \<Rightarrow> (u8 \<times> Uart) option" where
  "safemode_read_byte u =
     (case poll_lsr (COM1 + 5) LSR_DATA_READY u of None \<Rightarrow> None | Some u' \<Rightarrow> Some (inb (COM1 + 0) u'))"

text \<open>\<open>safemode/sentinel_config.rs\<close>: the data and line status registers by their port numbers.\<close>

definition CONFIG_DATA :: u16 where "CONFIG_DATA = 0x3F8"
definition CONFIG_LSR :: u16 where "CONFIG_LSR = 0x3FD"

definition config_write_byte :: "u8 \<Rightarrow> Uart \<Rightarrow> Uart option" where
  "config_write_byte b u =
     (case poll_lsr CONFIG_LSR LSR_THR_EMPTY u of None \<Rightarrow> None | Some u' \<Rightarrow> Some (outb CONFIG_DATA b u'))"

definition config_read_byte :: "Uart \<Rightarrow> (u8 \<times> Uart) option" where
  "config_read_byte u =
     (case poll_lsr CONFIG_LSR LSR_DATA_READY u of None \<Rightarrow> None | Some u' \<Rightarrow> Some (inb CONFIG_DATA u'))"

primrec config_write_str :: "u8 list \<Rightarrow> Uart \<Rightarrow> Uart option" where
  "config_write_str [] u = Some u"
| "config_write_str (b # bs) u =
     (case config_write_byte b u of None \<Rightarrow> None | Some u' \<Rightarrow> config_write_str bs u')"

text \<open>\<open>early_serial_write\<close> and \<open>serial_write\<close> of \<open>main.rs\<close>: no handshake.\<close>

primrec serial_write :: "u8 list \<Rightarrow> Uart \<Rightarrow> Uart" where
  "serial_write [] u = u"
| "serial_write (b # bs) u = serial_write bs (outb 0x3F8 b u)"

section \<open>The contract of a polled driver\<close>

locale console_port =
  fixes put :: "u8 \<Rightarrow> 's \<Rightarrow> 's option"
    and get :: "'s \<Rightarrow> (u8 \<times> 's) option"
    and sent :: "'s \<Rightarrow> u8 list"
    and input :: "'s \<Rightarrow> u8 list"
    and ready :: "'s \<Rightarrow> bool"
  assumes write_byte: "ready s \<Longrightarrow> \<exists>s'. put b s = Some s' \<and> ready s' \<and> sent s' = sent s @ [b] \<and> input s' = input s"
    and read_byte: "ready s \<Longrightarrow> input s = b # bs \<Longrightarrow>
      \<exists>s'. get s = Some (b, s') \<and> ready s' \<and> sent s' = sent s \<and> input s' = bs"
    and read_blocks: "ready s \<Longrightarrow> input s = [] \<Longrightarrow> get s = None"
begin

primrec write_all :: "u8 list \<Rightarrow> 's \<Rightarrow> 's option" where
  "write_all [] s = Some s"
| "write_all (b # bs) s = (case put b s of None \<Rightarrow> None | Some s' \<Rightarrow> write_all bs s')"

lemma write_all_sent:
  "ready s \<Longrightarrow> \<exists>s'. write_all bs s = Some s' \<and> ready s' \<and> sent s' = sent s @ bs \<and> input s' = input s"
proof (induction bs arbitrary: s)
  case (Cons b bs)
  obtain s' where s': "put b s = Some s'" "ready s'" "sent s' = sent s @ [b]" "input s' = input s"
    using write_byte [OF Cons.prems] by blast
  then show ?case using Cons.IH [OF s'(2)] by auto
qed simp

lemma write_all_append:
  "write_all (as @ bs) s = (case write_all as s of None \<Rightarrow> None | Some s' \<Rightarrow> write_all bs s')"
  by (induction as arbitrary: s) (simp_all split: option.splits)

end

section \<open>Polling ends\<close>

lemma inb_lsr [simp]: "inb (COM1 + 5) u = read_lsr u"
  by (simp add: inb_def COM1_def)

lemma CONFIG_ports: "CONFIG_LSR = COM1 + 5" "CONFIG_DATA = COM1"
  by (simp_all add: CONFIG_LSR_def CONFIG_DATA_def COM1_def)

lemma pending_lsr [simp]: "pending (snd (read_lsr u)) = pending u"
  by (cases "ua_input u" rule: age_input.cases) (simp_all add: read_lsr_def pending_def)

lemma lsr_frame [simp]:
  "ua_sent (snd (read_lsr u)) = ua_sent u" "dlab (snd (read_lsr u)) = dlab u" "ua_delays (snd (read_lsr u)) = ua_delays u"
  by (simp_all add: read_lsr_def dlab_def)

lemma poll_thr:
  "\<exists>u'. poll_lsr (COM1 + 5) LSR_THR_EMPTY u = Some u' \<and> ua_busy u' = 0 \<and> ua_sent u' = ua_sent u \<and> pending u' = pending u \<and>
     dlab u' = dlab u"
proof (induction "ua_busy u" arbitrary: u)
  case 0
  have "poll_lsr (COM1 + 5) LSR_THR_EMPTY u = Some (snd (read_lsr u))"
    using 0 by (subst poll_lsr.simps) (simp add: read_lsr_def LSR_THR_EMPTY_def)
  moreover have "ua_busy (snd (read_lsr u)) = 0" using 0 by (simp add: read_lsr_def)
  ultimately show ?case by simp
next
  case (Suc n)
  have "poll_lsr (COM1 + 5) LSR_THR_EMPTY u = poll_lsr (COM1 + 5) LSR_THR_EMPTY (snd (read_lsr u))"
    using Suc.hyps(2) by (subst poll_lsr.simps) (auto simp: read_lsr_def LSR_THR_EMPTY_def)
  moreover have "n = ua_busy (snd (read_lsr u))" using Suc.hyps(2) by (simp add: read_lsr_def)
  ultimately show ?case using Suc.hyps(1) [of "snd (read_lsr u)"] by simp
qed

lemma poll_data:
  assumes "pending u = b # bs"
  shows "\<exists>u' inp. poll_lsr (COM1 + 5) LSR_DATA_READY u = Some u' \<and> ua_input u' = (0, b) # inp \<and> map snd inp = bs \<and>
    ua_sent u' = ua_sent u \<and> dlab u' = dlab u"
proof -
  obtain n inp where "ua_input u = (n, b) # inp" "map snd inp = bs" using assms by (auto simp: pending_def)
  then show ?thesis
  proof (induction n arbitrary: u)
    case 0
    have "poll_lsr (COM1 + 5) LSR_DATA_READY u = Some (snd (read_lsr u))"
      using 0 by (subst poll_lsr.simps) (simp add: read_lsr_def LSR_DATA_READY_def bit_simps)
    moreover have "ua_input (snd (read_lsr u)) = (0, b) # inp" using 0 by (simp add: read_lsr_def)
    ultimately show ?case using 0 by simp
  next
    case (Suc n)
    have "poll_lsr (COM1 + 5) LSR_DATA_READY u = poll_lsr (COM1 + 5) LSR_DATA_READY (snd (read_lsr u))"
      using Suc.prems by (subst poll_lsr.simps) (auto simp: read_lsr_def LSR_DATA_READY_def)
    moreover have "ua_input (snd (read_lsr u)) = (n, b) # inp" using Suc.prems by (simp add: read_lsr_def)
    ultimately show ?case using Suc.IH [of "snd (read_lsr u)"] Suc.prems(2) by simp
  qed
qed

lemma poll_blocks:
  assumes "ua_input u = []"
  shows "poll_lsr (COM1 + 5) LSR_DATA_READY u = None"
proof -
  have "p = COM1 + 5 \<longrightarrow> m = LSR_DATA_READY \<longrightarrow> ua_input u \<noteq> []" if "poll_lsr p m u = Some v" for p m u v
  proof (rule poll_lsr.raw_induct [where P = "\<lambda>p m u v. p = COM1 + 5 \<longrightarrow> m = LSR_DATA_READY \<longrightarrow> ua_input u \<noteq> []"])
    fix rec p m u v
    assume IH: "\<And>p m u v. rec p m u = Some v \<Longrightarrow> p = COM1 + 5 \<longrightarrow> m = LSR_DATA_READY \<longrightarrow> ua_input u \<noteq> []"
      and body: "(case inb p u of (status, u') \<Rightarrow> if status AND m \<noteq> 0 then Some u' else rec p m u') = Some v"
    show "p = COM1 + 5 \<longrightarrow> m = LSR_DATA_READY \<longrightarrow> ua_input u \<noteq> []"
    proof (intro impI notI)
      assume a: "p = COM1 + 5" "m = LSR_DATA_READY" "ua_input u = []"
      then have "rec p m (snd (read_lsr u)) = Some v" using body by (auto simp: read_lsr_def LSR_DATA_READY_def split: if_splits)
      then have "ua_input (snd (read_lsr u)) \<noteq> []" using IH a by blast
      then show False using a by (simp add: read_lsr_def)
    qed
  qed (rule that)
  then show ?thesis using assms by (cases "poll_lsr (COM1 + 5) LSR_DATA_READY u") blast+
qed

definition uart_ready :: "Uart \<Rightarrow> bool" where
  "uart_ready u \<longleftrightarrow> \<not> dlab u"

lemma transmit_free:
  "ua_busy u = 0 \<Longrightarrow> ua_sent (transmit b u) = ua_sent u @ [b] \<and> pending (transmit b u) = pending u \<and>
     dlab (transmit b u) = dlab u"
  by (simp add: transmit_def pending_def dlab_def split: list.splits)

interpretation safemode: console_port safemode_write_byte safemode_read_byte ua_sent pending uart_ready
proof
  fix s b assume r: "uart_ready s"
  obtain u where u: "poll_lsr (COM1 + 5) LSR_THR_EMPTY s = Some u" "ua_busy u = 0" "ua_sent u = ua_sent s" "pending u = pending s"
    "dlab u = dlab s" using poll_thr by blast
  then show "\<exists>s'. safemode_write_byte b s = Some s' \<and> uart_ready s' \<and> ua_sent s' = ua_sent s @ [b] \<and> pending s' = pending s"
    using r transmit_free [of u b] by (simp add: safemode_write_byte_def outb_def uart_ready_def)
next
  fix s b bs assume r: "uart_ready s" and p: "pending s = b # bs"
  obtain u inp where "poll_lsr (COM1 + 5) LSR_DATA_READY s = Some u" "ua_input u = (0, b) # inp" "map snd inp = bs"
    "ua_sent u = ua_sent s" "dlab u = dlab s" using poll_data [OF p] by blast
  then show "\<exists>s'. safemode_read_byte s = Some (b, s') \<and> uart_ready s' \<and> ua_sent s' = ua_sent s \<and> pending s' = bs"
    using r by (simp add: safemode_read_byte_def inb_def receive_def uart_ready_def pending_def dlab_def)
next
  fix s assume "uart_ready s" "pending s = []"
  then show "safemode_read_byte s = None" by (simp add: safemode_read_byte_def poll_blocks pending_def)
qed

lemma config_driver_eq: "config_write_byte = safemode_write_byte" "config_read_byte = safemode_read_byte"
  unfolding fun_eq_iff config_write_byte_def safemode_write_byte_def config_read_byte_def safemode_read_byte_def
    CONFIG_ports add_0_right
  by simp_all

interpretation config: console_port config_write_byte config_read_byte ua_sent pending uart_ready
  unfolding config_driver_eq by (rule safemode.console_port_axioms)

lemma config_write_str_eq: "config_write_str bs u = config.write_all bs u"
  by (induction bs arbitrary: u) (simp_all split: option.splits)

lemma safemode_serial_init_ready:
  "uart_ready (safemode_serial_init u)" "ua_sent (safemode_serial_init u) = ua_sent u" "pending (safemode_serial_init u) = pending u"
  by (simp_all add: safemode_serial_init_def uart_ready_def outb_def COM1_def dlab_def pending_def)

lemma serial_write_append: "serial_write (a @ b) u = serial_write b (serial_write a u)"
  by (induction a arbitrary: u) simp_all

text \<open>Without the handshake a byte that meets a busy transmitter is lost.\<close>

lemma serial_write_lossy:
  assumes "uart_ready u" "ua_busy u = 0" "ua_delays u = [1]"
  shows "ua_sent (serial_write [a, b] u) = ua_sent u @ [a]"
  using assms by (simp add: outb_def COM1_def transmit_def uart_ready_def dlab_def)

lemma serial_write_fast:
  assumes "uart_ready u" "ua_busy u = 0" "set (ua_delays u) \<subseteq> {0}"
  shows "ua_sent (serial_write bs u) = ua_sent u @ bs"
  using assms
proof (induction bs arbitrary: u)
  case (Cons b bs)
  have "outb 0x3F8 b u = transmit b u" using Cons.prems by (simp add: outb_def COM1_def uart_ready_def)
  moreover have "ua_busy (transmit b u) = 0" "set (ua_delays (transmit b u)) \<subseteq> {0}"
    using Cons.prems by (auto simp: transmit_def split: list.splits)
  ultimately show ?case using Cons.IH [of "transmit b u"] Cons.prems transmit_free [of u b] by (simp add: uart_ready_def)
qed simp

end
