(* ===== verification/Sentinel_Config.thy ===== *)
theory Sentinel_Config
  imports Monitor Uart "HOL-Library.Monad_Syntax"
begin

text \<open>
  The Safe Mode configuration console, \<open>safemode/sentinel_config.rs\<close>: the migration buffer with its canonical
  serialisation and SHA-256 checksum, the validation of edits, the line-driven session with its two-step
  confirmations, and the loop that drives it from the serial port.  The reserved page at the fixed address is the
  list of its bytes in the C layout of the buffer.  Texts are the bytes the code prints.
\<close>

section \<open>The migration buffer\<close>

definition MIGRATION_BUFFER_ADDR :: u64 where "MIGRATION_BUFFER_ADDR = 0x44000000"
definition MIGRATION_BUFFER_SIZE :: nat where "MIGRATION_BUFFER_SIZE = 4096"
definition MIGRATION_MAGIC :: u64 where "MIGRATION_MAGIC = 0x474C4D4D49475231"
definition MIGRATION_VERSION :: u32 where "MIGRATION_VERSION = 1"

record MigrationBuffer =
  mb_magic :: u64
  mb_version :: u32
  mb_dirty :: bool
  mb_reserved :: "u8 list"
  mb_repetition :: f32
  mb_self_referential :: f32
  mb_token_velocity :: f32
  mb_tool_retry :: f32
  mb_soft :: f32
  mb_medium :: f32
  mb_hard :: f32
  mb_window :: u32
  mb_timestamp :: u64
  mb_checksum :: "u8 list"

definition from_thresholds :: "Thresholds \<Rightarrow> bool \<Rightarrow> u64 \<Rightarrow> MigrationBuffer" where
  "from_thresholds t dirty timestamp =
     \<lparr> mb_magic = MIGRATION_MAGIC, mb_version = MIGRATION_VERSION, mb_dirty = dirty, mb_reserved = replicate 3 0,
       mb_repetition = th_repetition t, mb_self_referential = th_self_referential t,
       mb_token_velocity = th_token_velocity t, mb_tool_retry = th_tool_retry t,
       mb_soft = th_soft t, mb_medium = th_medium t, mb_hard = th_hard t,
       mb_window = ucast (th_window t), mb_timestamp = timestamp, mb_checksum = replicate 32 0 \<rparr>"

definition to_thresholds :: "MigrationBuffer \<Rightarrow> Thresholds" where
  "to_thresholds b =
     \<lparr> th_repetition = mb_repetition b, th_self_referential = mb_self_referential b,
       th_token_velocity = mb_token_velocity b, th_tool_retry = mb_tool_retry b,
       th_soft = mb_soft b, th_medium = mb_medium b, th_hard = mb_hard b, th_window = ucast (mb_window b) \<rparr>"

definition checksum_payload :: "MigrationBuffer \<Rightarrow> u8 list" where
  "checksum_payload b =
     le_bytes 8 (mb_magic b) @ le_bytes 4 (mb_version b) @ [of_bool (mb_dirty b)] @
     le_bytes 4 (mb_repetition b) @ le_bytes 4 (mb_self_referential b) @
     le_bytes 4 (mb_token_velocity b) @ le_bytes 4 (mb_tool_retry b) @
     le_bytes 4 (mb_soft b) @ le_bytes 4 (mb_medium b) @ le_bytes 4 (mb_hard b) @
     le_bytes 4 (mb_window b) @ le_bytes 8 (mb_timestamp b)"

definition hex_nibble :: "u8 \<Rightarrow> u8" where
  "hex_nibble c =
     (if 48 \<le> c \<and> c \<le> 57 then c - 48
      else if 97 \<le> c \<and> c \<le> 102 then c - 97 + 10
      else if 65 \<le> c \<and> c \<le> 70 then c - 65 + 10
      else 0)"

definition get_or :: "'a \<Rightarrow> 'a list \<Rightarrow> nat \<Rightarrow> 'a" where
  "get_or d xs i = (if i < length xs then xs ! i else d)"

definition hex64_to_bytes :: "string \<Rightarrow> u8 list" where
  "hex64_to_bytes hex =
     (let b = bytes hex
      in map (\<lambda>i. push_bit 4 (hex_nibble (get_or 48 b (2 * i))) OR hex_nibble (get_or 48 b (2 * i + 1))) [0..<32])"

definition compute_checksum :: "MigrationBuffer \<Rightarrow> u8 list" where
  "compute_checksum b = hex64_to_bytes (sha256_hex (checksum_payload b))"

definition seal :: "MigrationBuffer \<Rightarrow> MigrationBuffer" where
  "seal b = b\<lparr> mb_checksum := compute_checksum b \<rparr>"

definition sealed_from_thresholds :: "Thresholds \<Rightarrow> bool \<Rightarrow> u64 \<Rightarrow> MigrationBuffer" where
  "sealed_from_thresholds t dirty timestamp = seal (from_thresholds t dirty timestamp)"

definition is_valid :: "MigrationBuffer \<Rightarrow> bool" where
  "is_valid b \<longleftrightarrow>
     mb_magic b = MIGRATION_MAGIC \<and> mb_version b = MIGRATION_VERSION \<and> mb_checksum b = compute_checksum b"

text \<open>The bytes of the structure in its C layout, and the structure in 88 bytes: a byte other than 0 or 1 in the
  place of the flag is no value of its type, for which the volatile read has no defined result.\<close>

definition buffer_bytes :: "MigrationBuffer \<Rightarrow> u8 list" where
  "buffer_bytes b =
     le_bytes 8 (mb_magic b) @ le_bytes 4 (mb_version b) @ [of_bool (mb_dirty b)] @ mb_reserved b @
     le_bytes 4 (mb_repetition b) @ le_bytes 4 (mb_self_referential b) @
     le_bytes 4 (mb_token_velocity b) @ le_bytes 4 (mb_tool_retry b) @
     le_bytes 4 (mb_soft b) @ le_bytes 4 (mb_medium b) @ le_bytes 4 (mb_hard b) @
     le_bytes 4 (mb_window b) @ le_bytes 8 (mb_timestamp b) @ mb_checksum b"

definition slice :: "nat \<Rightarrow> nat \<Rightarrow> u8 list \<Rightarrow> u8 list" where
  "slice off n p = take n (drop off p)"

definition buffer_of_bytes :: "u8 list \<Rightarrow> MigrationBuffer option" where
  "buffer_of_bytes p =
     (if p ! 12 \<notin> {0, 1} then None
      else Some
        \<lparr> mb_magic = from_le (slice 0 8 p), mb_version = from_le (slice 8 4 p), mb_dirty = (p ! 12 = 1),
          mb_reserved = slice 13 3 p,
          mb_repetition = from_le (slice 16 4 p), mb_self_referential = from_le (slice 20 4 p),
          mb_token_velocity = from_le (slice 24 4 p), mb_tool_retry = from_le (slice 28 4 p),
          mb_soft = from_le (slice 32 4 p), mb_medium = from_le (slice 36 4 p), mb_hard = from_le (slice 40 4 p),
          mb_window = from_le (slice 44 4 p), mb_timestamp = from_le (slice 48 8 p),
          mb_checksum = slice 56 32 p \<rparr>)"

definition write_to_fixed_address :: "MigrationBuffer \<Rightarrow> u8 list \<Rightarrow> u8 list" where
  "write_to_fixed_address b page = buffer_bytes b @ drop 88 page"

definition read_migration_buffer :: "u8 list \<Rightarrow> MigrationBuffer option" where
  "read_migration_buffer page = buffer_of_bytes (take 88 page)"

text \<open>The counter behind \<open>monotonic_now\<close>: the value before and the counter after.\<close>

definition monotonic_now :: "u64 \<Rightarrow> u64 \<times> u64" where
  "monotonic_now counter = (counter, counter + 1)"

section \<open>Validation\<close>

definition VALID_KEYS :: "string list" where
  "VALID_KEYS = [''repetition'', ''self_referential'', ''token_velocity'', ''tool_retry'', ''soft'', ''medium'', ''hard'',
    ''window'']"

definition MAX_WINDOW :: u32 where "MAX_WINDOW = 4096"

fun join :: "string \<Rightarrow> string list \<Rightarrow> string" where
  "join sep [] = []"
| "join sep [s] = s"
| "join sep (s # t # ss) = s @ sep @ join sep (t # ss)"


definition in_range :: "f32 \<Rightarrow> bool" where
  "in_range v \<longleftrightarrow> \<not> (\<not> is_finite (decode v) \<or> flt (decode v) f0 \<or> flt f1 (decode v))"

definition apply_set :: "Thresholds \<Rightarrow> string \<Rightarrow> string \<Rightarrow> string + Thresholds" where
  "apply_set base key raw =
     (if key = ''window'' then
        (case str_parse_u32 raw of
           None \<Rightarrow> Err (quoted (utf8 raw) @ '' is not a whole number'')
         | Some w \<Rightarrow>
             if w < 1 \<or> MAX_WINDOW < w
             then Err (''window must be in 1..='' @ dec (unat MAX_WINDOW) @ '', got '' @ dec (unat w))
             else Ok (base\<lparr> th_window := ucast w \<rparr>))
      else if key \<in> set [''repetition'', ''self_referential'', ''token_velocity'', ''tool_retry'', ''soft'', ''medium'', ''hard''] then
        (case str_parse_f32 raw of
           None \<Rightarrow> Err (quoted (utf8 raw) @ '' is not a number'')
         | Some v \<Rightarrow>
             if \<not> in_range v then Err (utf8 key @ '' must be in 0.0..=1.0, got '' @ utf8 raw)
             else Ok (if key = ''repetition'' then base\<lparr> th_repetition := v \<rparr>
                      else if key = ''self_referential'' then base\<lparr> th_self_referential := v \<rparr>
                      else if key = ''token_velocity'' then base\<lparr> th_token_velocity := v \<rparr>
                      else if key = ''tool_retry'' then base\<lparr> th_tool_retry := v \<rparr>
                      else if key = ''soft'' then base\<lparr> th_soft := v \<rparr>
                      else if key = ''medium'' then base\<lparr> th_medium := v \<rparr>
                      else base\<lparr> th_hard := v \<rparr>))
      else Err (''unknown key '' @ quoted (utf8 key) @ ''. valid keys: '' @ join '', '' VALID_KEYS))"

fun check_ranges :: "(string \<times> f32) list \<Rightarrow> string + unit" where
  "check_ranges [] = Ok ()"
| "check_ranges ((name, v) # rest) =
     (if \<not> in_range v then Err (name @ '' out of range 0.0..=1.0: '' @ fmt_f32 v) else check_ranges rest)"

definition validate_config :: "Thresholds \<Rightarrow> string + unit" where
  "validate_config t =
     (if \<not> (fle (decode (th_soft t)) (decode (th_medium t)) \<and> fle (decode (th_medium t)) (decode (th_hard t)))
      then Err (''control thresholds must satisfy soft <= medium <= hard (got soft='' @ fmt_f32 (th_soft t) @
                '', medium='' @ fmt_f32 (th_medium t) @ '', hard='' @ fmt_f32 (th_hard t) @ '')'')
      else if th_window t < 1 \<or> ucast MAX_WINDOW < th_window t
      then Err (''window must be in 1..='' @ dec (unat MAX_WINDOW) @ '', got '' @ dec (unat (th_window t)))
      else check_ranges
        [(''repetition'', th_repetition t), (''self_referential'', th_self_referential t),
         (''token_velocity'', th_token_velocity t), (''tool_retry'', th_tool_retry t),
         (''soft'', th_soft t), (''medium'', th_medium t), (''hard'', th_hard t)])"

definition thresholds_differ :: "Thresholds \<Rightarrow> Thresholds \<Rightarrow> bool" where
  "thresholds_differ a b \<longleftrightarrow>
     th_repetition a \<noteq> th_repetition b \<or> th_self_referential a \<noteq> th_self_referential b \<or>
     th_token_velocity a \<noteq> th_token_velocity b \<or> th_tool_retry a \<noteq> th_tool_retry b \<or>
     th_soft a \<noteq> th_soft b \<or> th_medium a \<noteq> th_medium b \<or> th_hard a \<noteq> th_hard b \<or> th_window a \<noteq> th_window b"

section \<open>The session\<close>

datatype SessionAction = Continue | Saved | Exit

record Response =
  rs_text :: string
  rs_action :: SessionAction
  rs_buffer :: "MigrationBuffer option"

definition cont :: "string \<Rightarrow> Response" where
  "cont text = \<lparr> rs_text = text, rs_action = Continue, rs_buffer = None \<rparr>"

datatype Pending = PendingNone | SaveConfirm | ExitConfirm

record ConfigSession =
  cs_original :: Thresholds
  cs_working :: Thresholds
  cs_pending :: Pending
  cs_committed :: bool

definition ConfigSession_new :: "Thresholds \<Rightarrow> ConfigSession" where
  "ConfigSession_new t = \<lparr> cs_original = t, cs_working = t, cs_pending = PendingNone, cs_committed = False \<rparr>"

definition is_dirty :: "ConfigSession \<Rightarrow> bool" where
  "is_dirty s \<longleftrightarrow> thresholds_differ (cs_working s) (cs_original s)"

definition changed_field_count :: "ConfigSession \<Rightarrow> nat" where
  "changed_field_count s =
     (let w = cs_working s; o' = cs_original s
      in of_bool (th_repetition w \<noteq> th_repetition o') + of_bool (th_self_referential w \<noteq> th_self_referential o') +
         of_bool (th_token_velocity w \<noteq> th_token_velocity o') + of_bool (th_tool_retry w \<noteq> th_tool_retry o') +
         of_bool (th_soft w \<noteq> th_soft o') + of_bool (th_medium w \<noteq> th_medium o') + of_bool (th_hard w \<noteq> th_hard o') +
         of_bool (th_window w \<noteq> th_window o'))"

definition show_line :: "string \<Rightarrow> string \<Rightarrow> bool \<Rightarrow> string" where
  "show_line label value changed = ''    '' @ label @ '' = '' @ value @ (if changed then '' *'' else []) @ nl"

definition render_show :: "ConfigSession \<Rightarrow> string" where
  "render_show s =
     (let w = cs_working s; o' = cs_original s
      in ''current Safe Mode configuration ('' @ quoted ''*'' @ '' = unsaved change):'' @ nl @
         ''  signal thresholds:'' @ nl @
         show_line ''repetition        '' (fmt_f32 (th_repetition w)) (th_repetition w \<noteq> th_repetition o') @
         show_line ''self_referential  '' (fmt_f32 (th_self_referential w)) (th_self_referential w \<noteq> th_self_referential o') @
         show_line ''token_velocity    '' (fmt_f32 (th_token_velocity w)) (th_token_velocity w \<noteq> th_token_velocity o') @
         show_line ''tool_retry        '' (fmt_f32 (th_tool_retry w)) (th_tool_retry w \<noteq> th_tool_retry o') @
         ''  control thresholds:'' @ nl @
         show_line ''soft              '' (fmt_f32 (th_soft w)) (th_soft w \<noteq> th_soft o') @
         show_line ''medium            '' (fmt_f32 (th_medium w)) (th_medium w \<noteq> th_medium o') @
         show_line ''hard              '' (fmt_f32 (th_hard w)) (th_hard w \<noteq> th_hard o') @
         ''  window:'' @ nl @
         show_line ''window            '' (dec (unat (th_window w))) (th_window w \<noteq> th_window o') @
         ''  status: '' @ (if is_dirty s then ''MODIFIED (unsaved)'' else ''clean'') @ nl)"

definition exit_text :: "bool \<Rightarrow> string" where
  "exit_text committed =
     (if committed
      then ''exiting Safe Mode. the saved config will be migrated on the next main-OS boot.'' @ nl
      else ''exiting Safe Mode. no config was saved; the main OS will boot with its existing thresholds.'' @ nl)"


definition render_help :: string where
  "render_help =
     ''Safe Mode '' @ em_dash @ '' Sentinel configuration'' @ nl @
     ''commands:'' @ nl @
     ''  show                 show current working config'' @ nl @
     ''  set <key> <value>    change one value (validated)'' @ nl @
     ''  save                 seal config to the migration buffer (confirm)'' @ nl @
     ''  exit                 leave Safe Mode (migration on next boot)'' @ nl @
     ''  help                 this message'' @ nl @
     ''keys: '' @ join '', '' VALID_KEYS @ nl @
     ''  signal/control thresholds: 0.0..=1.0   window: 1..=4096'' @ nl"

definition bytes_to_hex :: "u8 list \<Rightarrow> string" where
  "bytes_to_hex bs = concat (map (\<lambda>b. [hex_digit (unat b div 16), hex_digit (unat b mod 16)]) bs)"

definition cmd_set :: "string option \<Rightarrow> string option \<Rightarrow> bool \<Rightarrow> ConfigSession \<Rightarrow> Response \<times> ConfigSession" where
  "cmd_set key value extra s =
     (case (key, value) of
        (Some k, Some v) \<Rightarrow>
          if extra then (cont (''usage: set <key> <value>   (one value only)'' @ nl), s)
          else (case apply_set (cs_working s) k v of
                  Inr updated \<Rightarrow>
                    let s' = s\<lparr> cs_working := updated \<rparr>
                    in (cont (''ok: '' @ utf8 k @ '' = '' @ utf8 v @ ''   ('' @ dec (changed_field_count s') @
                              '' unsaved change(s))'' @ nl), s')
                | Inl e \<Rightarrow> (cont (''rejected: '' @ e @ nl), s))
      | _ \<Rightarrow> (cont (''usage: set <key> <value>   (try '' @ quoted ''help'' @ '' for valid keys)'' @ nl), s))"

definition cmd_save :: "ConfigSession \<Rightarrow> Response \<times> ConfigSession" where
  "cmd_save s =
     (if \<not> is_dirty s then (cont (''nothing to save: working config matches the loaded config.'' @ nl), s)
      else case validate_config (cs_working s) of
             Inl e \<Rightarrow> (cont (''cannot save: '' @ e @ nl @ ''fix the value(s) with '' @ quoted ''set'' @ '' and try again.'' @ nl), s)
           | Inr _ \<Rightarrow>
               let s' = s\<lparr> cs_pending := SaveConfirm \<rparr>
               in (cont (''ABOUT TO SAVE '' @ dec (changed_field_count s') @
                         '' change(s) to the migration buffer at 0x44000000.'' @ nl @
                         ''This is IRREVERSIBLE and takes effect on the next main-OS boot.'' @ nl @
                         ''Type '' @ quoted ''yes'' @ '' to confirm, anything else to cancel.'' @ nl), s'))"

definition resolve_save_confirm :: "string \<Rightarrow> u64 \<Rightarrow> ConfigSession \<Rightarrow> Response \<times> ConfigSession" where
  "resolve_save_confirm line timestamp s0 =
     (let s = s0\<lparr> cs_pending := PendingNone \<rparr>
      in if line \<noteq> ''yes'' then (cont (''save cancelled. no changes written.'' @ nl), s)
         else case validate_config (cs_working s) of
                Inl e \<Rightarrow> (cont (''save aborted: '' @ e @ nl), s)
              | Inr _ \<Rightarrow>
                  let dirty = is_dirty s;
                      buf = sealed_from_thresholds (cs_working s) dirty timestamp
                  in (\<lparr> rs_text =
                          ''saved. migration buffer sealed:'' @ nl @
                          ''  address    : 0x44000000'' @ nl @
                          ''  magic      : 0x474c4d4d49475231'' @ nl @
                          ''  version    : '' @ dec (unat MIGRATION_VERSION) @ nl @
                          ''  dirty      : '' @ (if dirty then ''true'' else ''false'') @ nl @
                          ''  timestamp  : '' @ dec (unat timestamp) @ nl @
                          ''  checksum   : '' @ bytes_to_hex (mb_checksum buf) @ nl @
                          ''migration will apply this config on the next main-OS boot.'' @ nl,
                        rs_action = Saved, rs_buffer = Some buf \<rparr>,
                      s\<lparr> cs_original := cs_working s, cs_committed := True \<rparr>))"

definition cmd_exit :: "ConfigSession \<Rightarrow> Response \<times> ConfigSession" where
  "cmd_exit s =
     (if is_dirty s
      then (cont (''you have UNSAVED changes that will be lost on exit.'' @ nl @
                  ''type '' @ quoted ''yes'' @ '' to exit anyway, or anything else to stay and '' @ quoted ''save'' @ '' first.'' @ nl),
            s\<lparr> cs_pending := ExitConfirm \<rparr>)
      else (\<lparr> rs_text = exit_text (cs_committed s), rs_action = Exit, rs_buffer = None \<rparr>, s))"

definition resolve_exit_confirm :: "string \<Rightarrow> ConfigSession \<Rightarrow> Response \<times> ConfigSession" where
  "resolve_exit_confirm line s0 =
     (let s = s0\<lparr> cs_pending := PendingNone \<rparr>
      in if line \<noteq> ''yes'' then (cont (''staying in Safe Mode. unsaved changes kept.'' @ nl), s)
         else (\<lparr> rs_text = exit_text (cs_committed s), rs_action = Exit, rs_buffer = None \<rparr>, s))"

definition handle_line :: "string \<Rightarrow> u64 \<Rightarrow> ConfigSession \<Rightarrow> Response \<times> ConfigSession" where
  "handle_line raw timestamp s =
     (let line = trim is_whitespace raw
      in case cs_pending s of
           SaveConfirm \<Rightarrow> resolve_save_confirm line timestamp s
         | ExitConfirm \<Rightarrow> resolve_exit_confirm line s
         | PendingNone \<Rightarrow>
             if line = [] then (cont [], s)
             else let parts = split_whitespace line;
                      nth_part = (\<lambda>i. if i < length parts then Some (parts ! i) else None);
                      cmd = (case parts of c # _ \<Rightarrow> c | [] \<Rightarrow> [])
                  in if cmd = ''show'' then (cont (render_show s), s)
                     else if cmd = ''help'' then (cont render_help, s)
                     else if cmd = ''set'' then
                       cmd_set (map_option to_ascii_lowercase (nth_part 1)) (nth_part 2) (nth_part 3 \<noteq> None) s
                     else if cmd = ''save'' then cmd_save s
                     else if cmd = ''exit'' \<or> cmd = ''quit'' then cmd_exit s
                     else (cont (''unknown command '' @ quoted (utf8 cmd) @ ''. type '' @ quoted ''help'' @
                                 '' for the command list.'' @ nl), s))"

section \<open>The console\<close>

datatype SafeModeOutcome = ExitedWithSave | ExitedWithoutSave

record Console =
  con_uart :: Uart
  con_session :: ConfigSession
  con_line :: string
  con_page :: "u8 list"
  con_monotonic :: u64

definition is_control :: "char \<Rightarrow> bool" where
  "is_control c \<longleftrightarrow> of_char c < (32 :: nat) \<or> of_char c \<in> {0x7F..<0xA0 :: nat}"

definition con_print :: "string \<Rightarrow> Console \<Rightarrow> Console option" where
  "con_print s c = map_option (\<lambda>u. c\<lparr> con_uart := u \<rparr>) (config_write_str (bytes s) (con_uart c))"

text \<open>One turn of the loop for the byte just read; the flag tells whether to leave the loop.\<close>

definition console_byte :: "u8 \<Rightarrow> Console \<Rightarrow> (bool \<times> Console) option" where
  "console_byte b c =
     (if b = 0x0D \<or> b = 0x0A then
        (let (ts, counter) = monotonic_now (con_monotonic c);
             (resp, session) = handle_line (con_line c) ts (con_session c);
             c1 = c\<lparr> con_monotonic := counter, con_session := session, con_line := [] \<rparr>
         in do {
              c2 \<leftarrow> con_print nl c1;
              c3 \<leftarrow> con_print (rs_text resp) c2;
              let c4 = (case rs_buffer resp of
                          None \<Rightarrow> c3
                        | Some buf \<Rightarrow> c3\<lparr> con_page := write_to_fixed_address buf (con_page c3) \<rparr>);
              if rs_action resp = Exit then Some (True, c4)
              else do { c5 \<leftarrow> con_print (nl @ ''> '') c4; Some (False, c5) }
            })
      else if b = 0x08 \<or> b = 0x7F then
        (if con_line c = [] then Some (False, c)
         else do {
                c1 \<leftarrow> con_print [CHR 0x08, CHR '' '', CHR 0x08] (c\<lparr> con_line := butlast (con_line c) \<rparr>);
                Some (False, c1)
              })
      else (let ch = char_of (unat b)
            in if is_control ch then Some (False, c)
               else do {
                 u \<leftarrow> config_write_byte b (con_uart c);
                 Some (False, c\<lparr> con_line := con_line c @ [ch], con_uart := u \<rparr>)
               }))"

partial_function (option) console_loop :: "Console \<Rightarrow> Console option" where
  "console_loop c =
     do {
       (b, u) \<leftarrow> config_read_byte (con_uart c);
       (stop, c') \<leftarrow> console_byte b (c\<lparr> con_uart := u \<rparr>);
       if stop then Some c' else console_loop c'
     }"

definition run_safe_mode_console ::
  "Thresholds \<Rightarrow> Uart \<Rightarrow> u8 list \<Rightarrow> u64 \<Rightarrow> (SafeModeOutcome \<times> Console) option" where
  "run_safe_mode_console current u page counter =
     do {
       c1 \<leftarrow> con_print (nl @ ''=== Golem Linux Safe Mode '' @ em_dash @ '' Sentinel configuration ==='' @ nl)
              \<lparr> con_uart = u, con_session = ConfigSession_new current, con_line = [], con_page = page,
                con_monotonic = counter \<rparr>;
       c2 \<leftarrow> con_print render_help c1;
       c3 \<leftarrow> con_print (nl @ ''> '') c2;
       c4 \<leftarrow> console_loop c3;
       Some ((if cs_committed (con_session c4) then ExitedWithSave else ExitedWithoutSave), c4)
     }"

section \<open>The buffer in memory\<close>

definition buffer_shape :: "MigrationBuffer \<Rightarrow> bool" where
  "buffer_shape b \<longleftrightarrow> length (mb_reserved b) = 3 \<and> length (mb_checksum b) = 32"

lemma length_buffer_bytes: "buffer_shape b \<Longrightarrow> length (buffer_bytes b) = 88"
  by (simp add: buffer_bytes_def buffer_shape_def)

lemma buffer_of_buffer_bytes:
  assumes "buffer_shape b"
  shows "buffer_of_bytes (buffer_bytes b) = Some b"
  using assms
  by (cases b) (simp add: buffer_of_bytes_def buffer_bytes_def buffer_shape_def slice_def nth_append)

lemma read_written_buffer: "buffer_shape b \<Longrightarrow> read_migration_buffer (write_to_fixed_address b page) = Some b"
  by (simp add: read_migration_buffer_def write_to_fixed_address_def length_buffer_bytes buffer_of_buffer_bytes)

lemma length_compute_checksum [simp]: "length (compute_checksum b) = 32"
  by (simp add: compute_checksum_def hex64_to_bytes_def Let_def)

lemma compute_checksum_seal: "compute_checksum (b\<lparr> mb_checksum := c \<rparr>) = compute_checksum b"
  by (simp add: compute_checksum_def checksum_payload_def)

lemma sealed_valid: "is_valid (sealed_from_thresholds t dirty ts)" "buffer_shape (sealed_from_thresholds t dirty ts)"
  by (simp_all add: sealed_from_thresholds_def seal_def is_valid_def compute_checksum_seal from_thresholds_def buffer_shape_def
      compute_checksum_def checksum_payload_def hex64_to_bytes_def Let_def)

lemma sealed_fields:
  "mb_dirty (sealed_from_thresholds t dirty ts) = dirty" "mb_timestamp (sealed_from_thresholds t dirty ts) = ts"
  by (simp_all add: sealed_from_thresholds_def seal_def from_thresholds_def)

lemma sealed_thresholds:
  assumes "unat (th_window t) < 2 ^ 32"
  shows "to_thresholds (sealed_from_thresholds t dirty ts) = t"
proof -
  have "ucast (ucast (th_window t) :: u32) = th_window t"
    using assms by (simp add: word_unat_eq_iff unsigned_ucast_eq take_bit_eq_mod unat_mod_distrib)
  then show ?thesis by (cases t) (simp add: sealed_from_thresholds_def seal_def from_thresholds_def to_thresholds_def)
qed

section \<open>Validation accepts exactly the configurations in range\<close>

definition valid_config :: "Thresholds \<Rightarrow> bool" where
  "valid_config t \<longleftrightarrow> config_ok t \<and> 1 \<le> unat (th_window t) \<and> unat (th_window t) \<le> 4096"

lemma in_range_iff: "in_range v \<longleftrightarrow> in_unit (decode v)"
  by (cases "decode v") (auto simp: in_range_def in_unit_def)

lemma check_ranges_Ok: "check_ranges xs = Ok () \<longleftrightarrow> (\<forall>(k, v) \<in> set xs. in_unit (decode v))"
  by (induction xs rule: check_ranges.induct) (auto simp: in_range_iff)

lemma validate_config_Ok: "validate_config t = Ok () \<longleftrightarrow> valid_config t"
proof -
  have "th_window t < 1 \<longleftrightarrow> unat (th_window t) < 1" "ucast MAX_WINDOW < th_window t \<longleftrightarrow> 4096 < unat (th_window t)"
    by (simp_all add: word_less_nat_alt MAX_WINDOW_def unsigned_ucast_eq take_bit_eq_mod)
  then have "validate_config t = Ok () \<longleftrightarrow>
      fle (decode (th_soft t)) (decode (th_medium t)) \<and> fle (decode (th_medium t)) (decode (th_hard t)) \<and>
      \<not> unat (th_window t) < 1 \<and> \<not> 4096 < unat (th_window t) \<and>
      in_unit (decode (th_repetition t)) \<and> in_unit (decode (th_self_referential t)) \<and>
      in_unit (decode (th_token_velocity t)) \<and> in_unit (decode (th_tool_retry t)) \<and>
      in_unit (decode (th_soft t)) \<and> in_unit (decode (th_medium t)) \<and> in_unit (decode (th_hard t))"
    by (simp add: validate_config_def check_ranges_Ok del: check_ranges.simps) blast
  then show ?thesis unfolding valid_config_def config_ok_def not_less less_one by auto
qed

lemma validate_config_cases:
  obtains (valid) "validate_config t = Ok ()" "valid_config t" | (invalid) e where "validate_config t = Err e" "\<not> valid_config t"
proof (cases "validate_config t")
  case (Inl e)
  then show thesis using invalid validate_config_Ok [of t] by force
next
  case (Inr u)
  then show thesis using valid validate_config_Ok [of t] by simp
qed

section \<open>The session as a state machine\<close>

text \<open>What one line can do to a session: edit a field, arm a confirmation, drop it, commit, or leave.\<close>

datatype session_event = Stay | Commit MigrationBuffer | Leave

inductive session_step :: "u64 \<Rightarrow> ConfigSession \<Rightarrow> session_event \<Rightarrow> ConfigSession \<Rightarrow> bool" where
  idle: "cs_pending s = PendingNone \<Longrightarrow> session_step ts s Stay s"
| edit: "cs_pending s = PendingNone \<Longrightarrow> apply_set (cs_working s) k v = Ok t \<Longrightarrow>
    session_step ts s Stay (s\<lparr> cs_working := t \<rparr>)"
| ask_save: "cs_pending s = PendingNone \<Longrightarrow> is_dirty s \<Longrightarrow> valid_config (cs_working s) \<Longrightarrow>
    session_step ts s Stay (s\<lparr> cs_pending := SaveConfirm \<rparr>)"
| ask_exit: "cs_pending s = PendingNone \<Longrightarrow> is_dirty s \<Longrightarrow> session_step ts s Stay (s\<lparr> cs_pending := ExitConfirm \<rparr>)"
| leave_clean: "cs_pending s = PendingNone \<Longrightarrow> \<not> is_dirty s \<Longrightarrow> session_step ts s Leave s"
| drop: "cs_pending s \<noteq> PendingNone \<Longrightarrow> session_step ts s Stay (s\<lparr> cs_pending := PendingNone \<rparr>)"
| commit: "cs_pending s = SaveConfirm \<Longrightarrow> valid_config (cs_working s) \<Longrightarrow>
    session_step ts s (Commit (sealed_from_thresholds (cs_working s) (is_dirty s) ts))
      (s\<lparr> cs_pending := PendingNone, cs_original := cs_working s, cs_committed := True \<rparr>)"
| abandon: "cs_pending s = ExitConfirm \<Longrightarrow> session_step ts s Leave (s\<lparr> cs_pending := PendingNone \<rparr>)"

inductive_cases session_step_CommitE: "session_step ts s (Commit b) s'"
inductive_cases session_step_LeaveE: "session_step ts s Leave s'"

text \<open>The event of a response, and the pairs of responses and sessions that match a step.\<close>

definition event_of :: "Response \<Rightarrow> session_event" where
  "event_of r = (case rs_buffer r of Some b \<Rightarrow> Commit b | None \<Rightarrow> if rs_action r = Exit then Leave else Stay)"

definition matches :: "u64 \<Rightarrow> ConfigSession \<Rightarrow> Response \<times> ConfigSession \<Rightarrow> bool" where
  "matches ts s rs \<longleftrightarrow>
     session_step ts s (event_of (fst rs)) (snd rs) \<and> (rs_action (fst rs) = Saved \<longleftrightarrow> rs_buffer (fst rs) \<noteq> None)"

lemma matches_cont: "matches ts s (cont msg, s') \<longleftrightarrow> session_step ts s Stay s'"
  by (simp add: matches_def cont_def event_of_def)

lemma is_dirty_pending [simp]: "is_dirty (s\<lparr> cs_pending := p \<rparr>) = is_dirty s"
  by (simp add: is_dirty_def)

lemma cmd_set_matches:
  assumes "cs_pending s = PendingNone"
  shows "matches ts s (cmd_set k v x s)"
proof -
  consider (usage) msg where "cmd_set k v x s = (cont msg, s)"
    | (set) msg k' v' t where "apply_set (cs_working s) k' v' = Ok t" "cmd_set k v x s = (cont msg, s\<lparr> cs_working := t \<rparr>)"
  proof (cases k; cases v; cases x)
    fix k' v' assume kv: "k = Some k'" "v = Some v'" "\<not> x"
    show thesis
    proof (cases "apply_set (cs_working s) k' v'")
      case (Inl e)
      then show thesis using usage kv by (simp add: cmd_set_def)
    next
      case (Inr t)
      then show thesis using set kv by (simp add: cmd_set_def Let_def)
    qed
  qed (use usage in \<open>simp_all add: cmd_set_def\<close>)
  then show ?thesis using assms by cases (auto simp: matches_cont intro: session_step.intros)
qed

lemma cmd_save_matches:
  assumes "cs_pending s = PendingNone"
  shows "matches ts s (cmd_save s)"
  using assms
  by (cases rule: validate_config_cases [of "cs_working s"])
    (auto simp: cmd_save_def Let_def matches_cont intro: session_step.intros)

lemma cmd_exit_matches:
  assumes "cs_pending s = PendingNone"
  shows "matches ts s (cmd_exit s)"
proof (cases "is_dirty s")
  case True
  then show ?thesis using assms by (simp add: cmd_exit_def matches_cont session_step.ask_exit)
next
  case False
  then show ?thesis using assms by (simp add: cmd_exit_def matches_def event_of_def session_step.leave_clean)
qed

lemma resolve_save_matches:
  assumes "cs_pending s = SaveConfirm"
  shows "matches ts s (resolve_save_confirm line ts s)"
proof (cases rule: validate_config_cases [of "cs_working s"])
  case valid
  show ?thesis
  proof (cases "line = ''yes''")
    case True
    then show ?thesis
      using valid session_step.commit [OF assms valid(2), of ts]
      by (simp add: resolve_save_confirm_def Let_def matches_def event_of_def)
  next
    case False
    then show ?thesis using assms by (simp add: resolve_save_confirm_def Let_def matches_cont session_step.drop)
  qed
next
  case (invalid e)
  then show ?thesis using assms by (simp add: resolve_save_confirm_def Let_def matches_cont session_step.drop)
qed

lemma resolve_exit_matches:
  assumes "cs_pending s = ExitConfirm"
  shows "matches ts s (resolve_exit_confirm line s)"
proof (cases "line = ''yes''")
  case True
  then show ?thesis using assms by (simp add: resolve_exit_confirm_def Let_def matches_def event_of_def session_step.abandon)
next
  case False
  then show ?thesis using assms by (simp add: resolve_exit_confirm_def Let_def matches_cont session_step.drop)
qed

lemma handle_line_matches: "matches ts s (handle_line raw ts s)"
proof (cases "cs_pending s")
  case PendingNone
  note stay = session_step.idle [OF PendingNone]
  show ?thesis
    unfolding handle_line_def Let_def PendingNone Pending.case
    using cmd_set_matches [OF PendingNone] cmd_save_matches [OF PendingNone] cmd_exit_matches [OF PendingNone] stay
    by (simp only: matches_cont split: if_splits) blast
qed (simp_all add: handle_line_def Let_def resolve_save_matches resolve_exit_matches)

section \<open>Invariant of a session\<close>

text \<open>Every field in its range; the order of the tiers is only required when saving.\<close>

definition fields_ok :: "Thresholds \<Rightarrow> bool" where
  "fields_ok t \<longleftrightarrow>
     in_unit (decode (th_repetition t)) \<and> in_unit (decode (th_self_referential t)) \<and>
     in_unit (decode (th_token_velocity t)) \<and> in_unit (decode (th_tool_retry t)) \<and>
     in_unit (decode (th_soft t)) \<and> in_unit (decode (th_medium t)) \<and> in_unit (decode (th_hard t)) \<and>
     1 \<le> unat (th_window t) \<and> unat (th_window t) \<le> 4096"

lemma apply_set_fields:
  assumes "apply_set base key raw = Ok t" "fields_ok base"
  shows "fields_ok t"
proof (cases "key = ''window''")
  case True
  then obtain w where w: "str_parse_u32 raw = Some w" "\<not> (w < 1 \<or> MAX_WINDOW < w)" "t = base\<lparr> th_window := ucast w \<rparr>"
    using assms(1) by (auto simp: apply_set_def split: option.splits if_splits)
  have "unat (ucast w :: u64) = unat w" using unat_less_power [of w] by (simp add: unsigned_ucast_eq take_bit_nat_eq_self_iff)
  moreover have "1 \<le> unat w" "unat w \<le> 4096"
    using w(2) by (simp_all add: word_less_nat_alt MAX_WINDOW_def not_less)
  ultimately show ?thesis using assms(2) w(3) by (simp add: fields_ok_def)
next
  case False
  then obtain v where "str_parse_f32 raw = Some v" "in_unit (decode v)"
    and t: "t = base\<lparr> th_repetition := v \<rparr> \<or> t = base\<lparr> th_self_referential := v \<rparr> \<or> t = base\<lparr> th_token_velocity := v \<rparr> \<or>
      t = base\<lparr> th_tool_retry := v \<rparr> \<or> t = base\<lparr> th_soft := v \<rparr> \<or> t = base\<lparr> th_medium := v \<rparr> \<or> t = base\<lparr> th_hard := v \<rparr>"
    using assms(1) unfolding apply_set_def by (simp add: in_range_iff split: option.splits if_splits)
  then show ?thesis using assms(2) by (elim disjE) (simp_all add: fields_ok_def)
qed

lemma valid_config_fields: "valid_config t \<Longrightarrow> fields_ok t"
  by (simp add: valid_config_def config_ok_def fields_ok_def)

definition good_save :: "MigrationBuffer \<Rightarrow> bool" where
  "good_save b \<longleftrightarrow> is_valid b \<and> buffer_shape b \<and> mb_dirty b \<and> valid_config (to_thresholds b)"

definition session_inv :: "Thresholds \<Rightarrow> MigrationBuffer list \<Rightarrow> ConfigSession \<Rightarrow> bool" where
  "session_inv base saved s \<longleftrightarrow>
     (cs_pending s = SaveConfirm \<longrightarrow> is_dirty s \<and> valid_config (cs_working s)) \<and>
     (cs_committed s \<longleftrightarrow> saved \<noteq> []) \<and>
     cs_original s = (if saved = [] then base else to_thresholds (last saved)) \<and>
     (\<forall>b \<in> set saved. good_save b) \<and>
     (fields_ok base \<longrightarrow> fields_ok (cs_working s))"

fun commits :: "session_event \<Rightarrow> MigrationBuffer list" where
  "commits (Commit b) = [b]"
| "commits _ = []"

lemma session_step_inv:
  assumes "session_step ts s ev s'" "session_inv base saved s"
  shows "session_inv base (saved @ commits ev) s'"
  using assms
proof cases
  case (commit)
  have d: "is_dirty s" using assms(2) commit by (simp add: session_inv_def)
  have w: "to_thresholds (sealed_from_thresholds (cs_working s) (is_dirty s) ts) = cs_working s"
    using commit by (intro sealed_thresholds) (simp add: valid_config_def)
  then have "good_save (sealed_from_thresholds (cs_working s) (is_dirty s) ts)"
    using commit d by (simp add: good_save_def sealed_valid sealed_fields)
  then show ?thesis using assms(2) commit w by (auto simp: session_inv_def)
next
  case (edit k v t)
  then show ?thesis using assms(2) apply_set_fields [of "cs_working s" k v t] by (auto simp: session_inv_def)
qed (auto simp: session_inv_def)

lemma session_inv_new: "session_inv t [] (ConfigSession_new t)"
  by (simp add: session_inv_def ConfigSession_new_def)

text \<open>The lines of a session, each with its time stamp, until one leaves it: the buffers saved and the session at
  the end.\<close>

fun run_lines :: "(string \<times> u64) list \<Rightarrow> ConfigSession \<Rightarrow> MigrationBuffer list \<times> ConfigSession" where
  "run_lines [] s = ([], s)"
| "run_lines ((line, ts) # rest) s =
     (case handle_line line ts s of
        (r, s') \<Rightarrow>
          if rs_action r = Exit then (commits (event_of r), s')
          else case run_lines rest s' of (saved, s'') \<Rightarrow> (commits (event_of r) @ saved, s''))"

lemma run_lines_inv:
  assumes "session_inv base saved s" "run_lines ls s = (new, s')"
  shows "session_inv base (saved @ new) s'"
  using assms
proof (induction ls s arbitrary: saved new rule: run_lines.induct)
  case (2 line ts rest s)
  obtain r s1 where h: "handle_line line ts s = (r, s1)" by fastforce
  then have "session_step ts s (event_of r) s1" using handle_line_matches [of ts s line] by (simp add: matches_def)
  then have i: "session_inv base (saved @ commits (event_of r)) s1" using session_step_inv 2(2) by blast
  show ?case
  proof (cases "rs_action r = Exit")
    case False
    obtain m2 s2 where "run_lines rest s1 = (m2, s2)" by fastforce
    then show ?thesis using 2(1) [OF h [symmetric] False i] 2(3) h False by simp
  qed (use 2(3) h i in simp)
qed simp

section \<open>The console drives the session\<close>

text \<open>The console without the port: the typed bytes edit a line, a line end hands it to the session.  The result is the
  session and the page at the exit, or \<open>None\<close> when the input ends before one.\<close>

fun feed :: "u8 list \<Rightarrow> string \<Rightarrow> ConfigSession \<Rightarrow> u64 \<Rightarrow> u8 list \<Rightarrow> (ConfigSession \<times> u8 list) option" where
  "feed [] line s n page = None"
| "feed (b # bs) line s n page =
     (if b = 0x0D \<or> b = 0x0A then
        (case handle_line line n s of
           (r, s') \<Rightarrow>
             let page' = (case rs_buffer r of None \<Rightarrow> page | Some buf \<Rightarrow> write_to_fixed_address buf page)
             in if rs_action r = Exit then Some (s', page') else feed bs [] s' (n + 1) page')
      else if b = 0x08 \<or> b = 0x7F then feed bs (butlast line) s n page
      else if is_control (char_of (unat b)) then feed bs line s n page
      else feed bs (line @ [char_of (unat b)]) s n page)"

definition con_view :: "Console \<Rightarrow> string \<times> ConfigSession \<times> u64 \<times> u8 list" where
  "con_view c = (con_line c, con_session c, con_monotonic c, con_page c)"

lemma con_print_view:
  assumes "uart_ready (con_uart c)"
  shows "\<exists>c'. con_print s c = Some c' \<and> uart_ready (con_uart c') \<and> pending (con_uart c') = pending (con_uart c) \<and>
    con_view c' = con_view c"
  using config.write_all_sent [OF assms, of "bytes s"]
  by (auto simp: con_print_def config_write_str_eq con_view_def)

lemma con_viewD: "con_view c = (line, s, n, page) \<Longrightarrow>
    con_line c = line \<and> con_session c = s \<and> con_monotonic c = n \<and> con_page c = page"
  by (simp add: con_view_def)

definition newline :: "u8 \<Rightarrow> bool" where
  "newline b \<longleftrightarrow> b = 0x0D \<or> b = 0x0A"

lemma console_newline:
  assumes "uart_ready (con_uart c)" "newline b" "handle_line (con_line c) (con_monotonic c) (con_session c) = (r, s)"
  shows "\<exists>c'. console_byte b c = Some (rs_action r = Exit, c') \<and> uart_ready (con_uart c') \<and>
    pending (con_uart c') = pending (con_uart c) \<and>
    con_view c' = ([], s, con_monotonic c + 1,
      case rs_buffer r of None \<Rightarrow> con_page c | Some buf \<Rightarrow> write_to_fixed_address buf (con_page c))"
proof -
  let ?c1 = "c\<lparr> con_monotonic := con_monotonic c + 1, con_session := s, con_line := [] \<rparr>"
  obtain c2 where c2: "con_print nl ?c1 = Some c2" "uart_ready (con_uart c2)" "pending (con_uart c2) = pending (con_uart c)"
    "con_view c2 = con_view ?c1" using con_print_view [of ?c1 nl] assms(1) by auto
  obtain c3 where c3: "con_print (rs_text r) c2 = Some c3" "uart_ready (con_uart c3)"
    "pending (con_uart c3) = pending (con_uart c)" "con_view c3 = con_view ?c1" using con_print_view [OF c2(2), of "rs_text r"] c2 by auto
  let ?c4 = "case rs_buffer r of None \<Rightarrow> c3 | Some buf \<Rightarrow> c3\<lparr> con_page := write_to_fixed_address buf (con_page c3) \<rparr>"
  have c4: "uart_ready (con_uart ?c4)" "pending (con_uart ?c4) = pending (con_uart c)"
    "con_view ?c4 = ([], s, con_monotonic c + 1,
      case rs_buffer r of None \<Rightarrow> con_page c | Some buf \<Rightarrow> write_to_fixed_address buf (con_page c))"
    using c3 by (auto simp: con_view_def split: option.splits)
  obtain c5 where c5: "con_print (nl @ ''> '') ?c4 = Some c5" "uart_ready (con_uart c5)"
    "pending (con_uart c5) = pending (con_uart c)" "con_view c5 = con_view ?c4"
    using con_print_view [OF c4(1), of "nl @ ''> ''"] c4 by auto
  have "console_byte b c = (if rs_action r = Exit then Some (True, ?c4) else Some (False, c5))"
    using assms(2,3) c2(1) c3(1) c5(1) by (simp add: console_byte_def newline_def monotonic_now_def Let_def)
  then show ?thesis using c4 c5 by (cases "rs_action r = Exit") simp_all
qed

lemma console_other:
  assumes "uart_ready (con_uart c)" "\<not> newline b"
  shows "\<exists>c'. console_byte b c = Some (False, c') \<and> uart_ready (con_uart c') \<and>
    pending (con_uart c') = pending (con_uart c) \<and>
    con_view c' =
      (if b = 0x08 \<or> b = 0x7F then butlast (con_line c)
       else if is_control (char_of (unat b)) then con_line c else con_line c @ [char_of (unat b)],
       con_session c, con_monotonic c, con_page c)"
proof -
  consider (erase) "b = 0x08 \<or> b = 0x7F" | (skip) "\<not> (b = 0x08 \<or> b = 0x7F)" "is_control (char_of (unat b))"
    | (type) "\<not> (b = 0x08 \<or> b = 0x7F)" "\<not> is_control (char_of (unat b))" by blast
  then show ?thesis
  proof cases
    case erase
    let ?c = "c\<lparr> con_line := butlast (con_line c) \<rparr>"
    obtain c1 where "con_print [CHR 0x08, CHR '' '', CHR 0x08] ?c = Some c1" "uart_ready (con_uart c1)"
      "pending (con_uart c1) = pending (con_uart c)" "con_view c1 = con_view ?c"
      using con_print_view [of ?c] assms(1) by auto
    then show ?thesis using erase assms by (auto simp: console_byte_def newline_def con_view_def)
  next
    case skip
    then show ?thesis using assms by (auto simp: console_byte_def newline_def con_view_def Let_def)
  next
    case type
    obtain u where "config_write_byte b (con_uart c) = Some u" "uart_ready u" "pending u = pending (con_uart c)"
      using config.write_byte [OF assms(1)] by blast
    then show ?thesis using type assms by (auto simp: console_byte_def newline_def con_view_def Let_def)
  qed
qed

lemma console_loop_feed:
  assumes "uart_ready (con_uart c)" "pending (con_uart c) = inp"
  shows "map_option (\<lambda>c'. (con_session c', con_page c')) (console_loop c) =
    feed inp (con_line c) (con_session c) (con_monotonic c) (con_page c)"
  using assms
proof (induction inp arbitrary: c)
  case Nil
  then show ?case using config.read_blocks by (subst console_loop.simps) simp
next
  case (Cons b bs)
  obtain u where u: "config_read_byte (con_uart c) = Some (b, u)" "uart_ready u" "pending u = bs"
    using config.read_byte [OF Cons.prems] by blast
  let ?c = "c\<lparr> con_uart := u \<rparr>"
  show ?case
  proof (cases "newline b")
    case True
    obtain r s where h: "handle_line (con_line ?c) (con_monotonic ?c) (con_session ?c) = (r, s)" by fastforce
    obtain c' where c': "console_byte b ?c = Some (rs_action r = Exit, c')" "uart_ready (con_uart c')"
      "pending (con_uart c') = bs" "con_view c' = ([], s, con_monotonic c + 1,
        case rs_buffer r of None \<Rightarrow> con_page c | Some buf \<Rightarrow> write_to_fixed_address buf (con_page c))"
      using console_newline [OF _ True h] u by (cases "rs_buffer r") auto
    show ?thesis
      using True h u(1) c'(1) Cons.IH [OF c'(2,3)] con_viewD [OF c'(4)]
      by (subst console_loop.simps) (simp add: newline_def Let_def)
  next
    case False
    obtain c' where c': "console_byte b ?c = Some (False, c')" "uart_ready (con_uart c')" "pending (con_uart c') = bs"
      "con_view c' =
      (if b = 0x08 \<or> b = 0x7F then butlast (con_line c)
       else if is_control (char_of (unat b)) then con_line c else con_line c @ [char_of (unat b)],
       con_session c, con_monotonic c, con_page c)"
      using console_other [of ?c, OF _ False] u by auto
    show ?thesis
      using False u(1) c'(1) Cons.IH [OF c'(2,3)] con_viewD [OF c'(4)]
      by (subst console_loop.simps) (simp add: newline_def)
  qed
qed

definition page_of :: "u8 list \<Rightarrow> MigrationBuffer list \<Rightarrow> u8 list" where
  "page_of page saved = (if saved = [] then page else write_to_fixed_address (last saved) page)"

lemma write_twice: "buffer_shape b \<Longrightarrow> write_to_fixed_address b' (write_to_fixed_address b page) = write_to_fixed_address b' page"
  by (simp add: write_to_fixed_address_def length_buffer_bytes)

lemma page_of_snoc:
  assumes "session_inv base saved s"
  shows "page_of page (saved @ [b]) = write_to_fixed_address b (page_of page saved)"
proof (cases "saved = []")
  case False
  then have "buffer_shape (last saved)" using assms by (auto simp: session_inv_def good_save_def)
  then show ?thesis using False by (simp add: page_of_def write_twice)
qed (simp add: page_of_def)

lemma handle_line_inv:
  assumes "session_inv base saved s" "handle_line line n s = (r, s')"
  shows "session_inv base (saved @ commits (event_of r)) s'"
    "page_of page (saved @ commits (event_of r)) =
       (case rs_buffer r of None \<Rightarrow> page_of page saved | Some buf \<Rightarrow> write_to_fixed_address buf (page_of page saved))"
proof -
  have "session_step n s (event_of r) s'" using handle_line_matches [of n s line] assms(2) by (simp add: matches_def)
  then show "session_inv base (saved @ commits (event_of r)) s'" using session_step_inv assms(1) by blast
  show "page_of page (saved @ commits (event_of r)) =
       (case rs_buffer r of None \<Rightarrow> page_of page saved | Some buf \<Rightarrow> write_to_fixed_address buf (page_of page saved))"
    using page_of_snoc [OF assms(1)] by (simp add: event_of_def split: option.splits)
qed

lemma feed_inv:
  assumes "session_inv base saved s" "feed inp line s n (page_of page saved) = Some (s', page')"
  shows "\<exists>saved'. session_inv base saved' s' \<and> page' = page_of page saved'"
  using assms
proof (induction inp arbitrary: saved line s n)
  case (Cons b bs)
  show ?case
  proof (cases "b = 0x0D \<or> b = 0x0A")
    case True
    obtain r s1 where h: "handle_line line n s = (r, s1)" by fastforce
    note i = handle_line_inv [OF Cons.prems(1) h]
    have "feed (b # bs) line s n (page_of page saved) =
      (if rs_action r = Exit then Some (s1, page_of page (saved @ commits (event_of r)))
       else feed bs [] s1 (n + 1) (page_of page (saved @ commits (event_of r))))"
      using True h by (auto simp: Let_def i(2) [symmetric])
    then show ?thesis using Cons.prems(2) i(1) Cons.IH [OF i(1), of "[]" "n + 1"] by (auto split: if_splits)
  next
    case False
    then show ?thesis using Cons.IH [OF Cons.prems(1)] Cons.prems(2) by (auto split: if_splits)
  qed
qed simp

lemma run_console_feed:
  assumes "uart_ready u"
  shows "map_option (\<lambda>(outcome, c). (con_session c, con_page c)) (run_safe_mode_console current u page n) =
      feed (pending u) [] (ConfigSession_new current) n page"
    "run_safe_mode_console current u page n = Some (outcome, c) \<Longrightarrow>
      outcome = (if cs_committed (con_session c) then ExitedWithSave else ExitedWithoutSave)"
proof -
  let ?c = "\<lparr> con_uart = u, con_session = ConfigSession_new current, con_line = [], con_page = page, con_monotonic = n \<rparr>"
  obtain c1 where c1: "con_print (nl @ ''=== Golem Linux Safe Mode '' @ em_dash @ '' Sentinel configuration ==='' @ nl) ?c = Some c1"
    "uart_ready (con_uart c1)" "pending (con_uart c1) = pending u" "con_view c1 = con_view ?c"
    using con_print_view [of ?c] assms by auto
  obtain c2 where c2: "con_print render_help c1 = Some c2"
    "uart_ready (con_uart c2)" "pending (con_uart c2) = pending u" "con_view c2 = con_view ?c"
    using con_print_view [OF c1(2), of render_help] c1 by auto
  obtain c3 where c3: "con_print (nl @ ''> '') c2 = Some c3"
    "uart_ready (con_uart c3)" "pending (con_uart c3) = pending u" "con_view c3 = con_view ?c"
    using con_print_view [OF c2(2), of "nl @ ''> ''"] c2 by auto
  have r: "run_safe_mode_console current u page n =
      map_option (\<lambda>c. (if cs_committed (con_session c) then ExitedWithSave else ExitedWithoutSave, c)) (console_loop c3)"
    unfolding run_safe_mode_console_def using c1(1) c2(1) c3(1)
    by (simp add: map_conv_bind_option comp_def)
  have "con_line c3 = [] \<and> con_session c3 = ConfigSession_new current \<and> con_monotonic c3 = n \<and> con_page c3 = page"
    using c3(4) by (simp add: con_view_def)
  then show "map_option (\<lambda>(outcome, c). (con_session c, con_page c)) (run_safe_mode_console current u page n) =
      feed (pending u) [] (ConfigSession_new current) n page"
    using console_loop_feed [OF c3(2,3)] by (simp add: r option.map_comp comp_def)
  show "run_safe_mode_console current u page n = Some (outcome, c) \<Longrightarrow>
      outcome = (if cs_committed (con_session c) then ExitedWithSave else ExitedWithoutSave)"
    by (auto simp: r)
qed

section \<open>Leaving the console\<close>

lemma feed_prefix:
  "(\<exists>res. \<forall>inp'. feed (inp @ inp') line s n page = Some res) \<or>
   (\<exists>line' s' n' page'. \<forall>inp'. feed (inp @ inp') line s n page = feed inp' line' s' n' page')"
proof (induction inp arbitrary: line s n page)
  case Nil
  show ?case by (rule disjI2) auto
next
  case (Cons b bs)
  obtain r s1 where h: "handle_line line n s = (r, s1)" by fastforce
  show ?case
    using Cons.IH [of "[]" s1 "n + 1" "case rs_buffer r of None \<Rightarrow> page | Some buf \<Rightarrow> write_to_fixed_address buf page"]
      Cons.IH [of "butlast line" s n page] Cons.IH [of line s n page] Cons.IH [of "line @ [char_of (unat b)]" s n page]
    by (cases "b = 0x0D \<or> b = 0x0A"; cases "b = 0x08 \<or> b = 0x7F"; cases "is_control (char_of (unat b))";
        cases "rs_action r = Exit"; simp add: h Let_def)
qed

lemma exit_words:
  "trim is_whitespace ''exit'' = ''exit''" "split_whitespace ''exit'' = [''exit'']"
  "trim is_whitespace ''yes'' = ''yes''" "trim is_whitespace [] = []"
  by code_simp+

lemma handle_empty_line:
  "\<exists>r s'. handle_line [] n s = (r, s') \<and> rs_action r = Continue \<and> cs_pending s' = PendingNone"
  by (cases "cs_pending s")
    (simp_all add: handle_line_def exit_words resolve_save_confirm_def resolve_exit_confirm_def cont_def)

lemma handle_exit_line: "cs_pending s = PendingNone \<Longrightarrow> handle_line ''exit'' n s = cmd_exit s"
  by (simp add: handle_line_def exit_words)

lemma handle_yes_line: "cs_pending s = ExitConfirm \<Longrightarrow> rs_action (fst (handle_line ''yes'' n s)) = Exit"
  by (simp add: handle_line_def exit_words resolve_exit_confirm_def)

lemma feed_typed:
  assumes "\<forall>c \<in> set cs. of_char c \<in> {32..<127 :: nat}"
  shows "feed (bytes cs @ rest) line s n page = feed rest (line @ cs) s n page"
  using assms
proof (induction cs arbitrary: line)
  case (Cons c cs)
  let ?b = "of_nat (of_char c) :: u8"
  have u: "unat ?b = of_char c" using Cons.prems by (simp add: unat_of_nat)
  then have "?b \<noteq> 0x0D" "?b \<noteq> 0x0A" "?b \<noteq> 0x08" "?b \<noteq> 0x7F"
    using Cons.prems by (auto simp: word_unat_eq_iff)
  moreover have "\<not> is_control c" using Cons.prems by (simp add: is_control_def)
  ultimately show ?case using Cons.IH [of "line @ [c]"] Cons.prems u by (simp add: bytes_def)
qed (simp add: bytes_def)

definition leave_keys :: "u8 list" where
  "leave_keys = [13, 13] @ bytes ''exit'' @ [13] @ bytes ''yes'' @ [13]"

lemma feed_exit_yes:
  assumes "cs_pending s = PendingNone"
  shows "feed (bytes ''exit'' @ [13] @ bytes ''yes'' @ [13] @ rest) [] s n page \<noteq> None"
proof -
  have t: "feed (bytes ''exit'' @ [13] @ inp) [] s n page = feed (13 # inp) ''exit'' s n page" for inp
    using feed_typed [of "''exit''" "13 # inp" "[]"] by simp
  have y: "feed (bytes ''yes'' @ [13] @ inp) [] s' n' page' = feed (13 # inp) ''yes'' s' n' page'" for inp s' n' page'
    using feed_typed [of "''yes''" "13 # inp" "[]"] by simp
  show ?thesis
  proof (cases "is_dirty s")
    case True
    let ?s = "s\<lparr> cs_pending := ExitConfirm \<rparr>"
    have "feed (bytes ''exit'' @ [13] @ bytes ''yes'' @ [13] @ rest) [] s n page =
        feed (bytes ''yes'' @ [13] @ rest) [] ?s (n + 1) page"
      unfolding t using assms True by (simp add: handle_exit_line cmd_exit_def cont_def)
    also have "\<dots> = feed (13 # rest) ''yes'' ?s (n + 1) page" by (rule y)
    finally show ?thesis using handle_yes_line [of ?s "n + 1"] by (simp split: prod.splits)
  next
    case False
    then show ?thesis unfolding t using assms by (simp add: handle_exit_line cmd_exit_def)
  qed
qed

lemma feed_leave: "feed (leave_keys @ rest) line s n page \<noteq> None"
proof -
  obtain r s1 where h: "handle_line line n s = (r, s1)" by fastforce
  obtain r2 s2 where h2: "handle_line [] (n + 1) s1 = (r2, s2)" "rs_action r2 = Continue" "cs_pending s2 = PendingNone"
    using handle_empty_line by blast
  show ?thesis
    using feed_exit_yes [OF h2(3), of rest] h h2
    by (cases "rs_action r = Exit") (simp_all add: leave_keys_def Let_def)
qed

lemma handle_line_buffer:
  "rs_buffer (fst (handle_line line ts s)) =
    (if cs_pending s = SaveConfirm \<and> trim is_whitespace line = ''yes'' \<and> valid_config (cs_working s)
     then Some (sealed_from_thresholds (cs_working s) (is_dirty s) ts) else None)"
proof (cases "cs_pending s = SaveConfirm")
  case True
  then show ?thesis
    by (cases rule: validate_config_cases [of "cs_working s"])
      (simp_all add: handle_line_def resolve_save_confirm_def cont_def Let_def)
next
  case False
  have "session_step ts s (event_of (fst (handle_line line ts s))) (snd (handle_line line ts s))"
    using handle_line_matches [of ts s line] by (simp add: matches_def)
  then have "rs_buffer (fst (handle_line line ts s)) = None"
    using False by (cases "rs_buffer (fst (handle_line line ts s))") (auto simp: event_of_def elim: session_step_CommitE)
  then show ?thesis using False by simp
qed

text \<open>A port whose input is ready at once.\<close>

definition typing_uart :: "u8 list \<Rightarrow> Uart" where
  "typing_uart keys =
     \<lparr> ua_ier = 0, ua_lcr = 3, ua_dll = 1, ua_dlm = 0, ua_fcr = 0xC7, ua_mcr = 0x0B, ua_sent = [], ua_busy = 0,
       ua_delays = [], ua_input = map (Pair 0) keys \<rparr>"

lemma typing_ready: "uart_ready (typing_uart keys)"
  by (simp add: uart_ready_def dlab_def typing_uart_def)

lemma typing_pending: "pending (typing_uart keys) = keys"
  by (simp add: pending_def typing_uart_def comp_def)

lemma typing_leaves: "run_safe_mode_console current (typing_uart leave_keys) page n \<noteq> None"
proof -
  have "feed leave_keys [] (ConfigSession_new current) n page \<noteq> None" using feed_leave [of "[]"] by simp
  then show ?thesis
    using run_console_feed(1) [OF typing_ready, of current leave_keys page n] by (auto simp: typing_pending)
qed

lemma console_result:
  assumes "uart_ready u" "run_safe_mode_console current u page n = Some (outcome, c)"
  shows "(outcome = ExitedWithoutSave \<and> con_page c = page) \<or>
     (outcome = ExitedWithSave \<and>
      (\<exists>b. con_page c = write_to_fixed_address b page \<and> read_migration_buffer (con_page c) = Some b \<and> good_save b \<and>
           cs_original (con_session c) = to_thresholds b))"
proof -
  have "feed (pending u) [] (ConfigSession_new current) n (page_of page []) = Some (con_session c, con_page c)"
    using run_console_feed(1) [OF assms(1), of current page n] assms(2) by (simp add: page_of_def)
  then obtain saved where i: "session_inv current saved (con_session c)" "con_page c = page_of page saved"
    using feed_inv [OF session_inv_new] by blast
  have o: "outcome = (if saved = [] then ExitedWithoutSave else ExitedWithSave)"
    using run_console_feed(2) [OF assms] i(1) by (auto simp: session_inv_def)
  show ?thesis
  proof (cases "saved = []")
    case False
    then have g: "good_save (last saved)" and t: "cs_original (con_session c) = to_thresholds (last saved)"
      using i(1) by (simp_all add: session_inv_def)
    then have "read_migration_buffer (con_page c) = Some (last saved)"
      using False i(2) by (simp add: page_of_def good_save_def read_written_buffer)
    then show ?thesis using False o i(2) g t by (auto simp: page_of_def)
  qed (use o i(2) in \<open>simp add: page_of_def\<close>)
qed

section \<open>Properties\<close>

text \<open>C32: the configuration being edited is well typed at every moment.  Whatever lines an operator enters, rejected
  ones included, the working and the saved configuration of a session that starts in range stay in range: every
  threshold a number between 0 and 1, never an infinity or a NaN, and the window between 1 and 4096.  A save is
  armed only for a changed configuration with ordered tiers.\<close>

theorem session_stays_in_range:
  assumes "fields_ok current" "run_lines ls (ConfigSession_new current) = (saved, s)"
  shows "fields_ok (cs_working s) \<and> fields_ok (cs_original s) \<and>
    (cs_pending s = SaveConfirm \<longrightarrow> is_dirty s \<and> valid_config (cs_working s))"
proof -
  have i: "session_inv current saved s" using run_lines_inv [OF session_inv_new assms(2)] by simp
  then have "fields_ok (cs_original s)"
    using assms(1) valid_config_fields [of "to_thresholds (last saved)"] by (auto simp: session_inv_def good_save_def)
  then show ?thesis using i assms(1) by (simp add: session_inv_def)
qed

theorem session_stays_in_range_witness:
  "fields_ok default_config \<and>
   fields_ok (cs_working (snd (run_lines [(''set soft 0.1'', 1), (''set hard nan'', 2)] (ConfigSession_new default_config))))"
proof -
  have f: "fields_ok default_config" by (simp add: fields_ok_def default_config_values in_unit_def default_config_def [THEN arg_cong [of _ _ th_window]])
  show ?thesis
    using f session_stays_in_range [OF f, of "[(''set soft 0.1'', 1), (''set hard nan'', 2)]"] by (metis prod.collapse)
qed

text \<open>C33: what reaches the migration page.  When the console returns, the page holds either what it held before, and
  the outcome says that nothing was saved, or a buffer that the migration accepts: with the right magic, version and
  checksum, marked dirty, and with a configuration that passes validation.  A line makes the session emit a buffer
  exactly when it reads yes, a save is armed and the working configuration is valid; the buffer is that configuration,
  sealed.\<close>

theorem console_writes_only_confirmed:
  assumes "uart_ready u" "run_safe_mode_console current u page n = Some (outcome, c)"
  shows "((outcome = ExitedWithoutSave \<and> con_page c = page) \<or>
     (outcome = ExitedWithSave \<and>
      (\<exists>b. con_page c = write_to_fixed_address b page \<and> read_migration_buffer (con_page c) = Some b \<and> is_valid b \<and>
           mb_dirty b \<and> valid_config (to_thresholds b)))) \<and>
    (\<forall>line ts s. rs_buffer (fst (handle_line line ts s)) =
      (if cs_pending s = SaveConfirm \<and> trim is_whitespace line = ''yes'' \<and> valid_config (cs_working s)
       then Some (sealed_from_thresholds (cs_working s) (is_dirty s) ts) else None))"
  using console_result [OF assms] handle_line_buffer by (auto simp: good_save_def)

theorem console_writes_only_confirmed_witness:
  "\<exists>outcome c. run_safe_mode_console default_config (typing_uart leave_keys) (replicate 88 0) 1 = Some (outcome, c) \<and>
     ((outcome = ExitedWithoutSave \<and> con_page c = replicate 88 0) \<or>
      (outcome = ExitedWithSave \<and>
       (\<exists>b. con_page c = write_to_fixed_address b (replicate 88 0) \<and> read_migration_buffer (con_page c) = Some b \<and>
            is_valid b \<and> mb_dirty b \<and> valid_config (to_thresholds b))))"
proof -
  obtain outcome c where r: "run_safe_mode_console default_config (typing_uart leave_keys) (replicate 88 0) 1 = Some (outcome, c)"
    using typing_leaves by (metis not_None_eq surj_pair)
  then show ?thesis using console_writes_only_confirmed [OF typing_ready r] by blast
qed

text \<open>C34: the console can always be left.  Whatever was typed before, two line ends, the word exit, a line end, the word
  yes and a line end make it return; in particular its polling loops and the session end.\<close>

theorem console_can_be_left:
  assumes "uart_ready u" "pending u = typed @ leave_keys"
  shows "\<exists>outcome c. run_safe_mode_console current u page n = Some (outcome, c)"
proof -
  have "feed (typed @ leave_keys) [] (ConfigSession_new current) n page \<noteq> None"
    using feed_prefix [of typed "[]" "ConfigSession_new current" n page] feed_leave [of "[]"]
    by (metis append_Nil2 option.distinct(1))
  then show ?thesis
    using run_console_feed(1) [OF assms(1), of current page n] assms(2)
    by (cases "run_safe_mode_console current u page n") auto
qed

theorem console_can_be_left_witness:
  "uart_ready (typing_uart (bytes ''save'' @ leave_keys)) \<and>
   (\<exists>outcome c. run_safe_mode_console default_config (typing_uart (bytes ''save'' @ leave_keys)) [] 1 = Some (outcome, c))"
  using console_can_be_left [OF typing_ready, of "bytes ''save'' @ leave_keys" "bytes ''save''" default_config "[]" 1]
  by (simp add: typing_ready typing_pending)

end
