(* ===== verification/Audit_Log.thy ===== *)
theory Audit_Log
  imports Sha256 Rust_Format
begin

text \<open>
  The hash-chained audit log of \<open>sentinel/audit.rs\<close>.  The state is the content of the spin lock; every method is
  one step on it.
\<close>

section \<open>The log\<close>

record AuditEntry =
  ae_sequence :: u64
  ae_timestamp :: u64
  ae_actor :: string
  ae_action :: string
  ae_target :: string
  ae_hash :: string
  ae_prev_hash :: string

record AuditInner =
  entries :: "AuditEntry list"
  last_hash :: string
  sequence :: u64

definition AuditTrail_new :: AuditInner where
  "AuditTrail_new = \<lparr>entries = [], last_hash = [], sequence = 0\<rparr>"

text \<open>The separator and the format string shared by \<open>record\<close> and \<open>verify\<close>.\<close>

definition payload :: "u64 \<Rightarrow> u64 \<Rightarrow> string \<Rightarrow> string \<Rightarrow> string \<Rightarrow> string \<Rightarrow> string" where
  "payload seqn timestamp actor action target prev =
    dec (unat seqn) @ ''|'' @ dec (unat timestamp) @ ''|'' @ actor @ ''|'' @ action @ ''|'' @ target @ ''|'' @ prev"

definition zero_hash :: string where
  "zero_hash = replicate 64 CHR ''0''"

definition audit_record :: "u64 \<Rightarrow> string \<Rightarrow> string \<Rightarrow> string \<Rightarrow> AuditInner \<Rightarrow> string \<times> AuditInner" where
  "audit_record timestamp actor action target g =
    (let g = g\<lparr>sequence := sequence g + 1\<rparr>;
         seqn = sequence g;
         prev = (if last_hash g = [] then zero_hash else last_hash g);
         hash = sha256_hex (bytes (payload seqn timestamp actor action target prev));
         en = \<lparr>ae_sequence = seqn, ae_timestamp = timestamp, ae_actor = actor, ae_action = action,
               ae_target = target, ae_hash = hash, ae_prev_hash = prev\<rparr>
     in (hash, g\<lparr>entries := entries g @ [en], last_hash := hash\<rparr>))"

definition entry_payload :: "AuditEntry \<Rightarrow> string" where
  "entry_payload en =
    payload (ae_sequence en) (ae_timestamp en) (ae_actor en) (ae_action en) (ae_target en) (ae_prev_hash en)"

fun verify_from :: "string \<Rightarrow> AuditEntry list \<Rightarrow> string + unit" where
  "verify_from expected_prev [] = Ok ()"
| "verify_from expected_prev (en # ens) =
    (if ae_prev_hash en \<noteq> expected_prev
     then Err (''chain broken at sequence '' @ dec (unat (ae_sequence en)) @ '': expected prev_hash '' @ expected_prev @
               '', got '' @ ae_prev_hash en)
     else
       let computed = sha256_hex (bytes (entry_payload en)) in
       if computed \<noteq> ae_hash en
       then Err (''hash mismatch at sequence '' @ dec (unat (ae_sequence en)) @ '': computed '' @ computed @
                 '', stored '' @ ae_hash en)
       else verify_from (ae_hash en) ens)"

definition audit_verify :: "AuditInner \<Rightarrow> string + nat" where
  "audit_verify g = (case verify_from zero_hash (entries g) of Inl e \<Rightarrow> Err e | Inr _ \<Rightarrow> Ok (length (entries g)))"

definition audit_snapshot :: "AuditInner \<Rightarrow> AuditEntry list" where
  "audit_snapshot g = entries g"

definition audit_len :: "AuditInner \<Rightarrow> nat" where
  "audit_len g = length (entries g)"

definition audit_is_empty :: "AuditInner \<Rightarrow> bool" where
  "audit_is_empty g \<longleftrightarrow> entries g = []"

section \<open>Recording keeps the chain\<close>

lemma sha256_hex_length [simp]: "length (sha256_hex d) = 64"
proof -
  have "length (digest_hex x) = 64" for x by (cases x rule: digest_hex.cases) (simp add: hex8_def)
  then show ?thesis by (simp add: sha256_hex_def)
qed

lemma zero_hash_length [simp]: "length zero_hash = 64"
  by (simp add: zero_hash_def)

fun end_hash :: "string \<Rightarrow> AuditEntry list \<Rightarrow> string" where
  "end_hash z [] = z"
| "end_hash z (en # ens) = end_hash (ae_hash en) ens"

lemma end_hash_snoc [simp]: "end_hash z (ens @ [en]) = ae_hash en"
  by (induction ens arbitrary: z) simp_all

lemma verify_snoc:
  "verify_from z (ens @ [en]) = Ok () \<longleftrightarrow>
    verify_from z ens = Ok () \<and> ae_prev_hash en = end_hash z ens \<and> ae_hash en = sha256_hex (bytes (entry_payload en))"
  by (induction ens arbitrary: z) (auto simp: Let_def split: if_splits)

type_synonym event = "u64 \<times> string \<times> string \<times> string"

definition trail_inv :: "event list \<Rightarrow> AuditInner \<Rightarrow> bool" where
  "trail_inv evs g \<longleftrightarrow>
    verify_from zero_hash (entries g) = Ok () \<and>
    last_hash g = (if entries g = [] then [] else end_hash zero_hash (entries g)) \<and>
    sequence g = of_nat (length (entries g)) \<and>
    map (\<lambda>en. (ae_timestamp en, ae_actor en, ae_action en, ae_target en)) (entries g) = evs \<and>
    map ae_sequence (entries g) = map of_nat [1..<Suc (length (entries g))]"

fun record_all :: "event list \<Rightarrow> AuditInner \<Rightarrow> AuditInner" where
  "record_all [] g = g"
| "record_all ((ts, actor, action, target) # evs) g = record_all evs (snd (audit_record ts actor action target g))"

lemma end_hash_nonempty: "verify_from z ens = Ok () \<Longrightarrow> ens \<noteq> [] \<Longrightarrow> length (end_hash z ens) = 64"
  by (cases ens rule: rev_cases) (auto simp: verify_snoc)

lemma trail_inv_length: "trail_inv evs g \<Longrightarrow> length (entries g) = length evs"
  by (auto simp: trail_inv_def)

lemma record_inv:
  assumes "trail_inv evs g"
  shows "trail_inv (evs @ [(ts, actor, action, target)]) (snd (audit_record ts actor action target g))"
proof -
  have prev: "(if last_hash g = [] then zero_hash else last_hash g) = end_hash zero_hash (entries g)"
    using assms end_hash_nonempty [of zero_hash "entries g"] by (auto simp: trail_inv_def)
  have "[1..<Suc (Suc k)] = [1..<Suc k] @ [Suc k]" for k by simp
  moreover have "entries g \<noteq> [] \<Longrightarrow> end_hash zero_hash (entries g) \<noteq> []"
    using assms end_hash_nonempty [of zero_hash "entries g"] by (auto simp: trail_inv_def)
  ultimately show ?thesis
    using assms unfolding trail_inv_def audit_record_def Let_def AuditInner.simps prev
    by (simp add: verify_snoc entry_payload_def del: upt_Suc)
qed

lemma record_all_inv: "trail_inv evs g \<Longrightarrow> trail_inv (evs @ evs') (record_all evs' g)"
proof (induction evs' arbitrary: evs g)
  case (Cons ev evs')
  obtain ts actor action target where ev: "ev = (ts, actor, action, target)" by (cases ev)
  show ?case using Cons.IH [OF record_inv [OF Cons.prems]] by (simp add: ev)
qed simp

section \<open>Tamper evidence\<close>

text \<open>Two entries whose hashed lines collide: different lines with the same hash.\<close>

definition collide :: "AuditEntry \<Rightarrow> AuditEntry \<Rightarrow> bool" where
  "collide a b \<longleftrightarrow>
    entry_payload a \<noteq> entry_payload b \<and> sha256_hex (bytes (entry_payload a)) = sha256_hex (bytes (entry_payload b))"

definition plain :: "string \<Rightarrow> bool" where
  "plain s \<longleftrightarrow> CHR ''|'' \<notin> set s"

lemma prev_length: "verify_from z (ens @ [en]) = Ok () \<Longrightarrow> length z = 64 \<Longrightarrow> length (ae_prev_hash en) = 64"
  using end_hash_nonempty [of z ens] unfolding verify_snoc by (cases "ens = []") auto

lemma payload_prev:
  assumes "entry_payload a = entry_payload b" "length (ae_prev_hash a) = length (ae_prev_hash b)"
  shows "ae_prev_hash a = ae_prev_hash b"
proof -
  have end_eq: "\<exists>s. entry_payload e = s @ ae_prev_hash e" for e
    unfolding entry_payload_def payload_def by (metis append.assoc)
  then show ?thesis using assms by (metis append_eq_append_conv)
qed

lemma chain_unique:
  assumes "length z = 64" "length ens = length ens'" "verify_from z ens = Ok ()" "verify_from z ens' = Ok ()"
    and "end_hash z ens = end_hash z ens'" and "\<forall>(a, b) \<in> set (zip ens ens'). \<not> collide a b"
  shows "map entry_payload ens = map entry_payload ens' \<and> map ae_hash ens = map ae_hash ens'"
  using assms(2-)
proof (induction ens arbitrary: ens' rule: rev_induct)
  case (snoc en ens xs)
  obtain ens' en' where xs: "xs = ens' @ [en']" using snoc.prems(1) by (cases xs rule: rev_cases) auto
  note v = snoc.prems(2) snoc.prems(3) [unfolded xs]
  note v' = v [unfolded verify_snoc]
  have h: "ae_hash en = ae_hash en'" using snoc.prems(4) xs by simp
  then have "sha256_hex (bytes (entry_payload en)) = sha256_hex (bytes (entry_payload en'))" using v' by simp
  then have p: "entry_payload en = entry_payload en'" using snoc.prems(1,5) xs by (auto simp: collide_def)
  have "ae_prev_hash en = ae_prev_hash en'"
    using payload_prev [OF p] prev_length [OF v(1) assms(1)] prev_length [OF v(2) assms(1)] by simp
  then show ?case using snoc.IH [of ens'] snoc.prems(1,5) v' h p xs by simp
qed simp

lemma plain_split: "plain a \<Longrightarrow> plain b \<Longrightarrow> a @ CHR ''|'' # s = b @ CHR ''|'' # t \<longleftrightarrow> a = b \<and> s = t"
proof
  assume a: "plain a" "plain b" "a @ CHR ''|'' # s = b @ CHR ''|'' # t"
  have "takeWhile (\<lambda>c. c \<noteq> CHR ''|'') (x @ CHR ''|'' # u) = x" if "plain x" for x u
    using that by (auto simp: takeWhile_append takeWhile_eq_all_conv plain_def)
  then have "a = b" using a by metis
  then show "a = b \<and> s = t" using a(3) by simp
qed simp

lemma plain_dec: "plain (dec n)"
  using dec_digits [of "CHR ''|''" n] by (auto simp: plain_def digit_char_def)

definition plain_entry :: "AuditEntry \<Rightarrow> bool" where
  "plain_entry en \<longleftrightarrow> plain (ae_actor en) \<and> plain (ae_action en) \<and> plain (ae_target en)"

lemma entry_determined:
  assumes "plain_entry a" "plain_entry b" "entry_payload a = entry_payload b" "ae_hash a = ae_hash b"
  shows "a = b"
  using assms
  by (cases a; cases b) (simp add: entry_payload_def payload_def plain_entry_def plain_split plain_dec flip: word_unat_eq_iff)

lemma entries_determined:
  "list_all plain_entry ens \<Longrightarrow> list_all plain_entry ens' \<Longrightarrow> map entry_payload ens = map entry_payload ens' \<Longrightarrow>
    map ae_hash ens = map ae_hash ens' \<Longrightarrow> ens = ens'"
proof (induction ens arbitrary: ens')
  case (Cons a ens)
  then obtain b bs where "ens' = b # bs" by (cases ens') auto
  then show ?case using Cons.prems Cons.IH [of bs] entry_determined [of a b] by auto
qed simp

section \<open>Properties\<close>

text \<open>C22: along every sequence of calls of \<open>record\<close> on a fresh log, the log holds exactly the recorded events in
  order, numbered from one, and \<open>verify\<close> accepts it and returns their number.\<close>

theorem audit_chain_verifies:
  "audit_verify (record_all evs AuditTrail_new) = Ok (length evs) \<and>
    map (\<lambda>en. (ae_timestamp en, ae_actor en, ae_action en, ae_target en)) (audit_snapshot (record_all evs AuditTrail_new)) = evs \<and>
    map ae_sequence (audit_snapshot (record_all evs AuditTrail_new)) = map of_nat [1..<Suc (length evs)]"
proof -
  have "trail_inv [] AuditTrail_new" by (simp add: trail_inv_def AuditTrail_new_def)
  from record_all_inv [OF this, of evs] have inv: "trail_inv evs (record_all evs AuditTrail_new)" by simp
  note len = trail_inv_length [OF inv]
  show ?thesis using inv len unfolding trail_inv_def audit_verify_def audit_snapshot_def by simp
qed

text \<open>C23: the log is tamper evident.  If two logs of the same length both verify and end in the same hash, then
  their hashed lines agree entry by entry, or at some position the two logs hold different lines with the same
  SHA-256 hash.  If the lines agree and no field contains the separator, the logs are equal entry by entry.\<close>

theorem audit_tamper_evident:
  assumes "audit_verify g = Ok n" "audit_verify g' = Ok n" "0 < n"
    and "ae_hash (last (entries g)) = ae_hash (last (entries g'))"
  shows "(\<exists>i < n. collide (entries g ! i) (entries g' ! i)) \<or>
    map entry_payload (entries g) = map entry_payload (entries g') \<and>
    (list_all plain_entry (entries g) \<and> list_all plain_entry (entries g') \<longrightarrow> entries g = entries g')"
proof -
  have v: "verify_from zero_hash (entries g) = Ok ()" "verify_from zero_hash (entries g') = Ok ()"
    "length (entries g) = n" "length (entries g') = n"
    using assms(1,2) by (auto simp: audit_verify_def split: sum.splits)
  have "end_hash zero_hash ens = ae_hash (last ens)" if "ens \<noteq> []" for ens
    using that by (cases ens rule: rev_cases) simp_all
  moreover have "entries g \<noteq> []" "entries g' \<noteq> []" using v(3,4) assms(3) by auto
  ultimately have e: "end_hash zero_hash (entries g) = end_hash zero_hash (entries g')" using assms(4) by simp
  have "length (entries g) = length (entries g')" using v(3,4) by simp
  from chain_unique [OF zero_hash_length this v(1,2) e] entries_determined
  show ?thesis using v(3,4) by (fastforce simp: set_zip)
qed

theorem audit_tamper_evident_witness:
  "let g = record_all [(1, ''kernel'', ''handshake'', ''agent-7'')] AuditTrail_new in
    audit_verify g = Ok 1 \<and>
    ((\<exists>i < 1. collide (entries g ! i) (entries g ! i)) \<or>
     map entry_payload (entries g) = map entry_payload (entries g) \<and>
     (list_all plain_entry (entries g) \<and> list_all plain_entry (entries g) \<longrightarrow> entries g = entries g))"
proof -
  let ?g = "record_all [(1, ''kernel'', ''handshake'', ''agent-7'')] AuditTrail_new"
  have v: "audit_verify ?g = Ok 1"
    by (simp add: audit_verify_def audit_record_def AuditTrail_new_def Let_def entry_payload_def)
  from audit_tamper_evident [OF v v _ refl] v show ?thesis unfolding Let_def by blast
qed

text \<open>A separator inside a field makes two different events hash alike.\<close>

lemma payload_ambiguous: "payload n t ''a|b'' ''c'' u h = payload n t ''a'' ''b|c'' u h"
  by (simp add: payload_def)

end
