(* ===== verification/Migration.thy ===== *)
theory Migration
  imports Sentinel_Config Audit_Log
begin

text \<open>
  The boot-time migration, \<open>sentinel/migration.rs\<close>: what is decided about the buffer that Safe Mode left in the
  reserved page, its application to the live monitor, the audit entry, and the cleared and re-sealed buffer written
  back.  The global monitor, the global audit log and the page are one state; \<open>None\<close> is a read of the page whose
  flag byte is no boolean.

  The lemmas connect it with the console that wrote the page: a saved configuration is applied once, exactly as
  saved, and everything that does not authenticate changes nothing but the audit log.
\<close>

section \<open>Constants, errors, state\<close>

definition ACTOR :: string where "ACTOR = ''safe-mode''"
definition ACTION_APPLY :: string where "ACTION_APPLY = ''migration_apply''"
definition ACTION_NOOP :: string where "ACTION_NOOP = ''migration_noop''"
definition ACTION_REJECT :: string where "ACTION_REJECT = ''migration_reject''"

datatype MigrationError = UnsupportedVersion u32 u32 | ChecksumMismatch | ApplyFailed

fun reason :: "MigrationError \<Rightarrow> string" where
  "reason (UnsupportedVersion _ _) = ''migration: unsupported migration-buffer version''"
| "reason ChecksumMismatch = ''migration: SHA-256 checksum verification failed''"
| "reason ApplyFailed = ''migration: applied config did not take effect''"

datatype Decision = NoBuffer | NoChange | Apply Thresholds | Reject MigrationError string

record Sentinel =
  sn_audit :: AuditInner
  sn_monitor :: Monitor
  sn_page :: "u8 list"

section \<open>The decision and its execution\<close>

definition decide :: "MigrationBuffer \<Rightarrow> Decision" where
  "decide buf =
     (if mb_magic buf \<noteq> MIGRATION_MAGIC then NoBuffer
      else if mb_version buf \<noteq> MIGRATION_VERSION
      then Reject (UnsupportedVersion (mb_version buf) MIGRATION_VERSION) ''version''
      else if compute_checksum buf \<noteq> mb_checksum buf then Reject ChecksumMismatch ''checksum''
      else if \<not> mb_dirty buf then NoChange
      else Apply (to_thresholds buf))"

definition checksum_hex :: "MigrationBuffer \<Rightarrow> string" where
  "checksum_hex buf =
     concat (map (\<lambda>b. [hex_digit (unat b div 16), hex_digit (unat b mod 16)]) (mb_checksum buf))"

definition audit_reject :: "MigrationBuffer \<Rightarrow> string \<Rightarrow> Sentinel \<Rightarrow> Sentinel" where
  "audit_reject buf why s =
     s\<lparr> sn_audit := snd (audit_record (mb_timestamp buf) ACTOR ACTION_REJECT
                           (why @ '' checksum='' @ checksum_hex buf) (sn_audit s)) \<rparr>"

definition thresholds_eq :: "Thresholds \<Rightarrow> Thresholds \<Rightarrow> bool" where
  "thresholds_eq a b \<longleftrightarrow>
     th_repetition a = th_repetition b \<and> th_self_referential a = th_self_referential b \<and>
     th_token_velocity a = th_token_velocity b \<and> th_tool_retry a = th_tool_retry b \<and>
     th_soft a = th_soft b \<and> th_medium a = th_medium b \<and> th_hard a = th_hard b \<and> th_window a = th_window b"

definition migration_run :: "Sentinel \<Rightarrow> ((MigrationError + unit) \<times> Sentinel) option" where
  "migration_run s =
     (case read_migration_buffer (sn_page s) of
        None \<Rightarrow> None
      | Some buf \<Rightarrow> Some
          (case decide buf of
             NoBuffer \<Rightarrow> (Ok (), s)
           | NoChange \<Rightarrow>
               (Ok (), s\<lparr> sn_audit := snd (audit_record (mb_timestamp buf) ACTOR ACTION_NOOP (checksum_hex buf) (sn_audit s)) \<rparr>)
           | Apply desired \<Rightarrow>
               (let s1 = s\<lparr> sn_monitor := set_thresholds desired (sn_monitor s) \<rparr>
                in if \<not> thresholds_eq (thresholds (sn_monitor s1)) desired
                   then (Err ApplyFailed, audit_reject buf ''apply'' s1)
                   else let s2 = s1\<lparr> sn_audit := snd (audit_record (mb_timestamp buf) ACTOR ACTION_APPLY (checksum_hex buf) (sn_audit s1)) \<rparr>;
                            cleared = seal (buf\<lparr> mb_dirty := False \<rparr>)
                        in (Ok (), s2\<lparr> sn_page := write_to_fixed_address cleared (sn_page s2) \<rparr>))
           | Reject err why \<Rightarrow> (Err err, audit_reject buf why s)))"

section \<open>The monitor as a store of thresholds\<close>

text \<open>What the migration relies on: a configuration that was set is the one that is read back.\<close>

locale threshold_store =
  fixes put :: "Thresholds \<Rightarrow> 'm \<Rightarrow> 'm" and get :: "'m \<Rightarrow> Thresholds"
  assumes get_put: "get (put t m) = t"
begin

lemma apply_confirmed: "thresholds_eq (get (put t m)) t"
  by (simp add: get_put thresholds_eq_def)

end

interpretation monitor: threshold_store set_thresholds thresholds
  by unfold_locales (simp add: thresholds_def set_thresholds_def)

section \<open>Runs\<close>

lemma thresholds_eq_iff: "thresholds_eq a b \<longleftrightarrow> a = b"
  by (cases a; cases b) (auto simp: thresholds_eq_def)

lemma apply_run:
  assumes "read_migration_buffer (sn_page s) = Some buf" "is_valid buf" "mb_dirty buf"
  shows "migration_run s = Some (Ok (),
    \<lparr> sn_audit = snd (audit_record (mb_timestamp buf) ACTOR ACTION_APPLY (checksum_hex buf) (sn_audit s)),
      sn_monitor = set_thresholds (to_thresholds buf) (sn_monitor s),
      sn_page = write_to_fixed_address (seal (buf\<lparr> mb_dirty := False \<rparr>)) (sn_page s) \<rparr>)"
  using assms monitor.apply_confirmed [of "to_thresholds buf" "sn_monitor s"]
  by (cases s) (simp add: migration_run_def decide_def is_valid_def Let_def)

lemma clean_run:
  assumes "read_migration_buffer (sn_page s) = Some buf" "is_valid buf" "\<not> mb_dirty buf"
  shows "migration_run s = Some (Ok (),
    s\<lparr> sn_audit := snd (audit_record (mb_timestamp buf) ACTOR ACTION_NOOP (checksum_hex buf) (sn_audit s)) \<rparr>)"
  using assms by (simp add: migration_run_def decide_def is_valid_def)

lemma cleared_buffer:
  assumes "is_valid buf" "buffer_shape buf"
  shows "is_valid (seal (buf\<lparr> mb_dirty := False \<rparr>))" "buffer_shape (seal (buf\<lparr> mb_dirty := False \<rparr>))"
    "\<not> mb_dirty (seal (buf\<lparr> mb_dirty := False \<rparr>))"
    "to_thresholds (seal (buf\<lparr> mb_dirty := False \<rparr>)) = to_thresholds buf"
proof -
  have "is_valid (seal b) \<longleftrightarrow> mb_magic b = MIGRATION_MAGIC \<and> mb_version b = MIGRATION_VERSION" for b
    by (simp add: is_valid_def seal_def compute_checksum_seal)
  then show "is_valid (seal (buf\<lparr> mb_dirty := False \<rparr>))" using assms(1) by (simp add: is_valid_def)
qed (use assms in \<open>simp_all add: seal_def buffer_shape_def to_thresholds_def\<close>)

lemma read_buffer_shape: "length page \<ge> 88 \<Longrightarrow> read_migration_buffer page = Some buf \<Longrightarrow> buffer_shape buf"
  by (auto simp: read_migration_buffer_def buffer_of_bytes_def buffer_shape_def slice_def split: if_splits)

lemma run_cases:
  assumes "migration_run s = Some (r, s')" "read_migration_buffer (sn_page s) = Some buf"
  obtains (none) "mb_magic buf \<noteq> MIGRATION_MAGIC" "r = Ok ()" "s' = s"
    | (reject) e why where "mb_magic buf = MIGRATION_MAGIC" "\<not> is_valid buf" "r = Err e" "s' = audit_reject buf why s" "e \<noteq> ApplyFailed"
    | (clean) "is_valid buf" "\<not> mb_dirty buf" "r = Ok ()"
        "s' = s\<lparr> sn_audit := snd (audit_record (mb_timestamp buf) ACTOR ACTION_NOOP (checksum_hex buf) (sn_audit s)) \<rparr>"
    | (applied) "is_valid buf" "mb_dirty buf" "r = Ok ()"
        "s' = \<lparr> sn_audit = snd (audit_record (mb_timestamp buf) ACTOR ACTION_APPLY (checksum_hex buf) (sn_audit s)),
           sn_monitor = set_thresholds (to_thresholds buf) (sn_monitor s),
           sn_page = write_to_fixed_address (seal (buf\<lparr> mb_dirty := False \<rparr>)) (sn_page s) \<rparr>"
proof (cases "is_valid buf")
  case True
  then show thesis
    using applied clean apply_run [OF assms(2) True] clean_run [OF assms(2) True] assms(1) by (cases "mb_dirty buf") auto
next
  case False
  then show thesis
    using none reject assms by (auto simp: migration_run_def decide_def is_valid_def split: if_splits)
qed

section \<open>An example session\<close>

definition example_keys :: "u8 list" where
  "example_keys = bytes ''set soft 0'' @ [13] @ bytes ''save'' @ [13] @ bytes ''yes'' @ [13] @ bytes ''exit'' @ [13]"

definition example_config :: Thresholds where
  "example_config = default_config\<lparr> th_soft := 0 \<rparr>"

lemma example_words:
  "trim is_whitespace ''set soft 0'' = ''set soft 0''" "split_whitespace ''set soft 0'' = [''set'', ''soft'', ''0'']"
  "trim is_whitespace ''save'' = ''save''" "split_whitespace ''save'' = [''save'']"
  "to_ascii_lowercase ''soft'' = ''soft''"
  by code_simp+

lemma example_parse: "str_parse_f32 ''0'' = Some 0"
proof -
  have "parse_number ''0'' = Some 0"
    by (simp add: parse_number_def digit_char_def parse_exp_def)
  then show ?thesis by (simp add: str_parse_f32_def rnd_def pattern_def)
qed

lemma example_valid: "valid_config example_config"
  using default_config_ok
  by (simp add: valid_config_def example_config_def config_ok_def decode_def [of 0] default_config_values in_unit_def
      default_config_def [THEN arg_cong [of _ _ th_window]])

lemma example_dirty: "thresholds_differ example_config default_config"
  by (simp add: thresholds_differ_def example_config_def default_config_def)

lemma example_lines:
  fixes s0 s1 s2 s3 :: ConfigSession
  defines "s0 \<equiv> ConfigSession_new default_config"
  defines "s1 \<equiv> s0\<lparr> cs_working := example_config \<rparr>"
  defines "s2 \<equiv> s1\<lparr> cs_pending := SaveConfirm \<rparr>"
  defines "s3 \<equiv> s1\<lparr> cs_original := example_config, cs_committed := True \<rparr>"
  shows "snd (handle_line ''set soft 0'' n s0) = s1 \<and> rs_action (fst (handle_line ''set soft 0'' n s0)) = Continue"
    "snd (handle_line ''save'' n s1) = s2 \<and> rs_action (fst (handle_line ''save'' n s1)) = Continue"
    "snd (handle_line ''yes'' n s2) = s3 \<and> rs_action (fst (handle_line ''yes'' n s2)) = Saved"
    "snd (handle_line ''exit'' n s3) = s3 \<and> rs_action (fst (handle_line ''exit'' n s3)) = Exit"
proof -
  have p: "cs_pending s0 = PendingNone" "cs_pending s1 = PendingNone" "cs_pending s2 = SaveConfirm" "cs_pending s3 = PendingNone"
    by (simp_all add: s0_def s1_def s2_def s3_def ConfigSession_new_def)
  have "apply_set (cs_working s0) ''soft'' ''0'' = Ok example_config"
    by (simp add: apply_set_def example_parse in_range_def decode_def s0_def ConfigSession_new_def example_config_def)
  then show "snd (handle_line ''set soft 0'' n s0) = s1 \<and> rs_action (fst (handle_line ''set soft 0'' n s0)) = Continue"
    using p by (simp add: handle_line_def example_words cmd_set_def cont_def Let_def s1_def)
  have v: "validate_config (cs_working s1) = Ok ()" "validate_config (cs_working s2) = Ok ()"
    using example_valid validate_config_Ok by (simp_all add: s2_def s1_def)
  have d: "is_dirty s1" using example_dirty by (simp add: is_dirty_def s1_def s0_def ConfigSession_new_def)
  show "snd (handle_line ''save'' n s1) = s2 \<and> rs_action (fst (handle_line ''save'' n s1)) = Continue"
    using p v d by (simp add: handle_line_def example_words cmd_save_def cont_def Let_def s2_def)
  show "snd (handle_line ''yes'' n s2) = s3 \<and> rs_action (fst (handle_line ''yes'' n s2)) = Saved"
    using p v by (simp add: handle_line_def exit_words resolve_save_confirm_def Let_def)
      (simp add: s2_def s3_def s1_def s0_def ConfigSession_new_def)
  have "\<not> is_dirty s3" by (simp add: is_dirty_def s3_def s1_def thresholds_differ_def)
  then show "snd (handle_line ''exit'' n s3) = s3 \<and> rs_action (fst (handle_line ''exit'' n s3)) = Exit"
    using p by (simp add: handle_exit_line cmd_exit_def)
qed

lemma feed_line:
  assumes "\<forall>c \<in> set line. of_char c \<in> {32..<127 :: nat}" "snd (handle_line line n s) = s'" "rs_action (fst (handle_line line n s)) = a"
  shows "\<exists>page'. feed (bytes line @ 13 # rest) [] s n page = (if a = Exit then Some (s', page') else feed rest [] s' (n + 1) page')"
  using assms feed_typed [OF assms(1), of "13 # rest" "[]" s n page] by (auto simp: Let_def split: prod.splits)

lemma example_saves:
  "\<exists>c. run_safe_mode_console default_config (typing_uart example_keys) page n = Some (ExitedWithSave, c)"
proof -
  let ?s0 = "ConfigSession_new default_config"
  let ?s1 = "?s0\<lparr> cs_working := example_config \<rparr>"
  let ?s2 = "?s1\<lparr> cs_pending := SaveConfirm \<rparr>"
  let ?s3 = "?s1\<lparr> cs_original := example_config, cs_committed := True \<rparr>"
  have "\<exists>page'. feed (bytes ''exit'' @ [13]) [] ?s3 m page = Some (?s3, page')" for m page
    using feed_line [of "''exit''" m ?s3 ?s3 Exit "[]" page] example_lines(4) by simp
  then have "\<exists>page'. feed (bytes ''yes'' @ [13] @ bytes ''exit'' @ [13]) [] ?s2 m page = Some (?s3, page')" for m page
    using feed_line [of "''yes''" m ?s2 ?s3 Saved "bytes ''exit'' @ [13]" page] example_lines(3) by fastforce
  then have "\<exists>page'. feed (bytes ''save'' @ [13] @ bytes ''yes'' @ [13] @ bytes ''exit'' @ [13]) [] ?s1 m page = Some (?s3, page')" for m page
    using feed_line [of "''save''" m ?s1 ?s2 Continue "bytes ''yes'' @ [13] @ bytes ''exit'' @ [13]" page] example_lines(2) by fastforce
  then have "\<exists>page'. feed example_keys [] ?s0 n page = Some (?s3, page')"
    using feed_line [of "''set soft 0''" n ?s0 ?s1 Continue "bytes ''save'' @ [13] @ bytes ''yes'' @ [13] @ bytes ''exit'' @ [13]" page]
      example_lines(1) unfolding example_keys_def by fastforce
  then obtain outcome c where c: "run_safe_mode_console default_config (typing_uart example_keys) page n = Some (outcome, c)"
    "con_session c = ?s3"
    using run_console_feed(1) [OF typing_ready, of default_config example_keys page n] by (auto simp: typing_pending)
  moreover have "outcome = ExitedWithSave" using run_console_feed(2) [OF typing_ready c(1)] c(2) by simp
  ultimately show ?thesis by blast
qed

text \<open>A buffer of a later format version.\<close>

definition future_buffer :: MigrationBuffer where
  "future_buffer = (from_thresholds default_config True 1)\<lparr> mb_version := 2 \<rparr>"

lemma future_rejected:
  "\<exists>s'. migration_run \<lparr> sn_audit = g, sn_monitor = m, sn_page = buffer_bytes future_buffer \<rparr> =
    Some (Err (UnsupportedVersion 2 1), s')"
proof -
  have "buffer_shape future_buffer" by (simp add: future_buffer_def from_thresholds_def buffer_shape_def)
  then have "read_migration_buffer (buffer_bytes future_buffer) = Some future_buffer"
    by (simp add: read_migration_buffer_def length_buffer_bytes buffer_of_buffer_bytes)
  moreover have "decide future_buffer = Reject (UnsupportedVersion 2 1) ''version''"
    by (simp add: decide_def future_buffer_def from_thresholds_def MIGRATION_VERSION_def)
  ultimately show ?thesis by (simp add: migration_run_def)
qed

section \<open>Properties\<close>

text \<open>From the console to the monitor.  If the Safe Mode console returned after a save, the next boot applies
  exactly the configuration that was saved last, which is a valid one, appends one entry to the audit log, and leaves a
  page that authenticates and is clean; the boot after that changes nothing but the log.\<close>

theorem saved_config_is_applied_once:
  assumes ready: "uart_ready u"
    and console: "run_safe_mode_console current u page n = Some (ExitedWithSave, c)"
    and boot: "sn_page s = con_page c"
  shows "\<exists>s1 s2. migration_run s = Some (Ok (), s1) \<and>
    thresholds (sn_monitor s1) = cs_original (con_session c) \<and> valid_config (thresholds (sn_monitor s1)) \<and>
    mon_state (sn_monitor s1) = mon_state (sn_monitor s) \<and>
    (\<exists>b. read_migration_buffer (sn_page s1) = Some b \<and> is_valid b \<and> \<not> mb_dirty b) \<and>
    (\<forall>evs. trail_inv evs (sn_audit s) \<longrightarrow>
       (\<exists>ts target. trail_inv (evs @ [(ts, ACTOR, ACTION_APPLY, target)]) (sn_audit s1))) \<and>
    migration_run s1 = Some (Ok (), s2) \<and> sn_monitor s2 = sn_monitor s1 \<and> sn_page s2 = sn_page s1"
proof -
  obtain b where b: "read_migration_buffer (sn_page s) = Some b" "good_save b" "cs_original (con_session c) = to_thresholds b"
    using console_result [OF ready console] boot by auto
  then have v: "is_valid b" "buffer_shape b" "mb_dirty b" "valid_config (to_thresholds b)" by (simp_all add: good_save_def)
  note run1 = apply_run [OF b(1) v(1,3)] and cl = cleared_buffer [OF v(1,2)]
  let ?s1 = "\<lparr> sn_audit = snd (audit_record (mb_timestamp b) ACTOR ACTION_APPLY (checksum_hex b) (sn_audit s)),
      sn_monitor = set_thresholds (to_thresholds b) (sn_monitor s),
      sn_page = write_to_fixed_address (seal (b\<lparr> mb_dirty := False \<rparr>)) (sn_page s) \<rparr>"
  have page: "read_migration_buffer (sn_page ?s1) = Some (seal (b\<lparr> mb_dirty := False \<rparr>))"
    by (simp add: read_written_buffer [OF cl(2)])
  note run2 = clean_run [OF page cl(1,3)]
  have t: "thresholds (sn_monitor ?s1) = to_thresholds b" using monitor.get_put by simp
  have "\<exists>ts target. trail_inv (evs @ [(ts, ACTOR, ACTION_APPLY, target)]) (sn_audit ?s1)" if "trail_inv evs (sn_audit s)" for evs
    using record_inv [OF that] by (simp del: split_paired_Ex) blast
  moreover have "mon_state (sn_monitor ?s1) = mon_state (sn_monitor s)" by (simp add: set_thresholds_def)
  moreover have "\<exists>b. read_migration_buffer (sn_page ?s1) = Some b \<and> is_valid b \<and> \<not> mb_dirty b" using page cl by blast
  moreover obtain s2 where "migration_run ?s1 = Some (Ok (), s2)" "sn_monitor s2 = sn_monitor ?s1" "sn_page s2 = sn_page ?s1"
    using run2 by simp
  moreover note run1 v b(3) t
  ultimately show ?thesis by metis
qed

theorem saved_config_is_applied_once_example:
  "\<exists>c s1. run_safe_mode_console default_config (typing_uart example_keys) (replicate 88 0) 1 = Some (ExitedWithSave, c) \<and>
     migration_run \<lparr> sn_audit = AuditTrail_new, sn_monitor = Monitor_new, sn_page = con_page c \<rparr> = Some (Ok (), s1) \<and>
     thresholds (sn_monitor s1) = cs_original (con_session c)"
proof -
  obtain c where c: "run_safe_mode_console default_config (typing_uart example_keys) (replicate 88 0) 1 = Some (ExitedWithSave, c)"
    using example_saves by blast
  then show ?thesis
    using saved_config_is_applied_once
      [OF typing_ready c, of "\<lparr> sn_audit = AuditTrail_new, sn_monitor = Monitor_new, sn_page = con_page c \<rparr>"] by fastforce
qed

text \<open>C28: nothing unauthenticated is applied.  For every page, a run that returns an error changes neither the
  thresholds nor the page and logs one rejection; the thresholds change only to those of a buffer whose magic, version
  and SHA-256 checksum are right and that is marked dirty; the error that an apply did not take effect never occurs; and
  a verified audit log stays verified.\<close>

theorem migration_applies_only_authentic:
  assumes run: "migration_run s = Some (r, s')" and trail: "trail_inv evs (sn_audit s)"
  shows "(\<forall>e. r = Err e \<longrightarrow> sn_monitor s' = sn_monitor s \<and> sn_page s' = sn_page s \<and>
      (\<exists>ts target. trail_inv (evs @ [(ts, ACTOR, ACTION_REJECT, target)]) (sn_audit s'))) \<and>
    (sn_monitor s' \<noteq> sn_monitor s \<longrightarrow>
      (\<exists>b. read_migration_buffer (sn_page s) = Some b \<and> is_valid b \<and> mb_dirty b \<and>
           thresholds (sn_monitor s') = to_thresholds b)) \<and>
    r \<noteq> Err ApplyFailed \<and> (\<exists>n. audit_verify (sn_audit s') = Ok n)"
proof -
  obtain b where b: "read_migration_buffer (sn_page s) = Some b" using run by (auto simp: migration_run_def split: option.splits)
  have logged: "\<exists>n. audit_verify (snd (audit_record ts actor action target (sn_audit s))) = Ok n"
    "\<exists>n. audit_verify (sn_audit s) = Ok n" for ts actor action target
    using record_inv [OF trail, of ts actor action target] trail by (simp_all add: audit_verify_def trail_inv_def)
  show ?thesis
    using run b
  proof (cases rule: run_cases)
    case none
    then show ?thesis using logged by simp
  next
    case (reject e why)
    have "\<exists>ts target. trail_inv (evs @ [(ts, ACTOR, ACTION_REJECT, target)]) (sn_audit s')"
      unfolding reject(4) audit_reject_def using record_inv [OF trail] by (simp del: split_paired_Ex) blast
    moreover have "sn_monitor s' = sn_monitor s" "sn_page s' = sn_page s" "\<exists>n. audit_verify (sn_audit s') = Ok n"
      unfolding reject(4) audit_reject_def using logged by simp_all
    ultimately show ?thesis using reject(3,5) by simp
  next
    case clean
    then show ?thesis using logged by simp
  next
    case applied
    then show ?thesis using logged b monitor.get_put by simp
  qed
qed

theorem migration_applies_only_authentic_witness:
  "\<exists>s'. migration_run \<lparr> sn_audit = AuditTrail_new, sn_monitor = Monitor_new, sn_page = buffer_bytes future_buffer \<rparr> =
      Some (Err (UnsupportedVersion 2 1), s') \<and> sn_monitor s' = Monitor_new \<and> sn_page s' = buffer_bytes future_buffer"
proof -
  let ?s = "\<lparr> sn_audit = AuditTrail_new, sn_monitor = Monitor_new, sn_page = buffer_bytes future_buffer \<rparr>"
  obtain s' where r: "migration_run ?s = Some (Err (UnsupportedVersion 2 1), s')" using future_rejected by blast
  have t: "trail_inv [] (sn_audit ?s)" by (simp add: trail_inv_def AuditTrail_new_def)
  show ?thesis using r migration_applies_only_authentic [OF r t] by simp
qed

text \<open>C29: authentication is not validation.  A correctly sealed and dirty buffer with a gate that is not a number is
  applied at boot, since the decision never calls \<open>validate_config\<close>; from then on the monitor recommends no tier at all,
  whatever is observed and whatever scores are injected.\<close>

theorem unvalidated_gate_silences_monitor:
  assumes gate: "NaN \<in> {decode (th_repetition t), decode (th_self_referential t), decode (th_token_velocity t), decode (th_tool_retry t)}"
    and page: "sn_page s = write_to_fixed_address (sealed_from_thresholds t True ts) page" and w: "unat (th_window t) < 2 ^ 32"
  shows "\<exists>s1. migration_run s = Some (Ok (), s1) \<and>
    (\<forall>m agent ob kind score. mon_cfg m \<noteq> mon_cfg (sn_monitor s1) \<or>
       fst (observe agent ob m) = TierNone \<and> fst (record_signal agent kind score m) = TierNone)"
proof -
  have b: "read_migration_buffer (sn_page s) = Some (sealed_from_thresholds t True ts)"
    unfolding page by (rule read_written_buffer [OF sealed_valid(2)])
  note run = apply_run [OF b sealed_valid(1)]
  have "fst (observe agent ob m) = TierNone \<and> fst (record_signal agent kind score m) = TierNone" if "mon_cfg m = t" for m agent ob kind score
    using nan_gate_silences [OF gate] that by (simp add: observe_def record_signal_def Let_def)
  then show ?thesis using run sealed_fields(1) sealed_thresholds [OF w] by (auto simp: set_thresholds_def)
qed

theorem unvalidated_gate_silences_monitor_witness:
  "\<exists>s1. migration_run \<lparr> sn_audit = AuditTrail_new, sn_monitor = Monitor_new,
        sn_page = write_to_fixed_address (sealed_from_thresholds (default_config\<lparr> th_repetition := 0x7FC00000 \<rparr>) True 1) [] \<rparr> =
      Some (Ok (), s1) \<and>
    (\<forall>agent ob. fst (observe agent ob (sn_monitor s1)) = TierNone)"
proof -
  let ?t = "default_config\<lparr> th_repetition := 0x7FC00000 \<rparr>"
  have "decode 0x7FC00000 = NaN" by (simp add: decode_def Let_def)
  moreover have "unat (th_window ?t) < 2 ^ 32" by (simp add: default_config_def)
  ultimately show ?thesis
    using unvalidated_gate_silences_monitor [of ?t "\<lparr> sn_audit = AuditTrail_new, sn_monitor = Monitor_new,
        sn_page = write_to_fixed_address (sealed_from_thresholds ?t True 1) [] \<rparr>" 1 "[]"] by fastforce
qed

end
