(* ===== verification/Safe_Mode.thy ===== *)
theory Safe_Mode
  imports Rust_Str Uart Migration
begin

text \<open>
  The Safe Mode terminal, \<open>safemode/mod.rs\<close>: the console helpers, the configuration with its additive checksum, the
  handoff block, the line reader and the commands.  The state is the port, the working configuration and the handoff
  block; every function that prints or reads goes through the polled driver and may wait for input for ever
  (\<open>None\<close>).

  The lemmas show that no input can make the configuration leave its ranges or the published block inconsistent, what
  the line reader accepts, and that the terminal never returns.
\<close>

unbundle bit_operations_syntax

section \<open>Console helpers\<close>

definition putc :: "u8 \<Rightarrow> Uart \<Rightarrow> Uart option" where
  "putc b u = safemode_write_byte b u"

primrec print :: "u8 list \<Rightarrow> Uart \<Rightarrow> Uart option" where
  "print [] u = Some u"
| "print (b # bs) u =
     do {
       u1 \<leftarrow> (if b = 0x0A then safemode_write_byte 0x0D u else Some u);
       u2 \<leftarrow> safemode_write_byte b u1;
       print bs u2
     }"

abbreviation puts :: "string \<Rightarrow> Uart \<Rightarrow> Uart option" where
  "puts s u \<equiv> print (bytes s) u"

primrec print_bytes :: "u8 list \<Rightarrow> Uart \<Rightarrow> Uart option" where
  "print_bytes [] u = Some u"
| "print_bytes (b # bs) u = do { u1 \<leftarrow> putc b u; print_bytes bs u1 }"

function digit_loop :: "u32 \<Rightarrow> u8 list \<Rightarrow> u8 list" where
  "digit_loop value buf =
     (if 0 < value then digit_loop (value div 10) ((48 + ucast (value mod 10)) # buf) else buf)"
  by auto
termination
  by (relation "measure (\<lambda>(value, buf). unat value)") (auto simp: unat_div_distrib word_less_nat_alt)

declare digit_loop.simps [simp del]

definition print_u32 :: "u32 \<Rightarrow> Uart \<Rightarrow> Uart option" where
  "print_u32 value u = (if value = 0 then putc 48 u else print_bytes (digit_loop value []) u)"

definition print_hex64 :: "u64 \<Rightarrow> Uart \<Rightarrow> Uart option" where
  "print_hex64 value u =
     do {
       u1 \<leftarrow> print_bytes (bytes ''0x'') u;
       print_bytes (map (\<lambda>i. bytes ''0123456789abcdef'' ! unat (drop_bit (4 * (15 - i)) value AND 0xF)) [0..<16]) u1
     }"

text \<open>The saturating conversion to \<open>u32\<close>.\<close>

fun fval_as_u32 :: "fval \<Rightarrow> u32" where
  "fval_as_u32 NaN = 0"
| "fval_as_u32 (Infty s) = (if s then 0 else - 1)"
| "fval_as_u32 (Fin s m) = (if s then 0 else if 2 ^ 32 \<le> m then - 1 else word_of_int \<lfloor>m\<rfloor>)"

definition print_f32 :: "f32 \<Rightarrow> Uart \<Rightarrow> Uart option" where
  "print_f32 value u =
     (let v = decode value; neg = flt v f0
      in do {
           u1 \<leftarrow> (if neg then putc 45 u else Some u);
           let v1 = (if neg then fneg v else v);
           let scaled = fval_as_u32 (fadd (fmul v1 (Fin False 1000)) (Fin False (1 / 2)));
           let frac = scaled mod 1000;
           u2 \<leftarrow> print_u32 (scaled div 1000) u1;
           u3 \<leftarrow> putc 46 u2;
           u4 \<leftarrow> putc (48 + ucast (frac div 100)) u3;
           u5 \<leftarrow> putc (48 + ucast (frac div 10 mod 10)) u4;
           putc (48 + ucast (frac mod 10)) u5
         })"

section \<open>Configuration and handoff block\<close>

record SentinelConfig =
  sc_rep :: f32
  sc_self :: f32
  sc_token :: f32
  sc_tool :: f32
  sc_soft :: f32
  sc_medium :: f32
  sc_hard :: f32
  sc_window :: u32

definition SentinelConfig_DEFAULT :: SentinelConfig where
  "SentinelConfig_DEFAULT =
     \<lparr> sc_rep = 0x3F19999A, sc_self = 0x3F000000, sc_token = 0x3F000000, sc_tool = 0x3ECCCCCD,
       sc_soft = 0x3ECCCCCD, sc_medium = 0x3F333333, sc_hard = 0x3F666666, sc_window = 16 \<rparr>"

definition fold_bytes :: "u32 \<Rightarrow> u32 \<Rightarrow> u32" where
  "fold_bytes w s = fold (\<lambda>b acc. acc + ucast b) (le_bytes 4 w) s"

definition config_checksum :: "SentinelConfig \<Rightarrow> u32" where
  "config_checksum c =
     fold fold_bytes [sc_rep c, sc_self c, sc_token c, sc_tool c, sc_soft c, sc_medium c, sc_hard c, sc_window c] 0"

text \<open>The bytes GLMSAFE0, least significant first.\<close>

definition BLOCK_MAGIC :: u64 where
  "BLOCK_MAGIC = from_le (bytes ''GLMSAFE0'')"

definition BLOCK_VERSION :: u32 where "BLOCK_VERSION = 1"

record MigrationBlock =
  bk_magic :: u64
  bk_version :: u32
  bk_sequence :: u32
  bk_config :: SentinelConfig
  bk_checksum :: u32
  bk_committed :: u32

definition MigrationBlock_EMPTY :: MigrationBlock where
  "MigrationBlock_EMPTY =
     \<lparr> bk_magic = 0, bk_version = BLOCK_VERSION, bk_sequence = 0, bk_config = SentinelConfig_DEFAULT, bk_checksum = 0,
       bk_committed = 0 \<rparr>"

text \<open>The block after a commit and its new sequence number.\<close>

definition commit :: "SentinelConfig \<Rightarrow> MigrationBlock \<Rightarrow> u32 \<times> MigrationBlock" where
  "commit config prev =
     (let next_seq = (if bk_magic prev = BLOCK_MAGIC then bk_sequence prev + 1 else 1)
      in (next_seq,
          \<lparr> bk_magic = BLOCK_MAGIC, bk_version = BLOCK_VERSION, bk_sequence = next_seq, bk_config = config,
            bk_checksum = config_checksum config, bk_committed = 1 \<rparr>))"

section \<open>Byte strings\<close>

function eq_from :: "u8 list \<Rightarrow> u8 list \<Rightarrow> nat \<Rightarrow> bool" where
  "eq_from a b i = (if i < length a then (if a ! i \<noteq> b ! i then False else eq_from a b (Suc i)) else True)"
  by auto
termination by (relation "measure (\<lambda>(a, b, i). length a - i)") auto

declare eq_from.simps [simp del]

definition eq :: "u8 list \<Rightarrow> u8 list \<Rightarrow> bool" where
  "eq a b \<longleftrightarrow> length a = length b \<and> eq_from a b 0"

definition split_first_token :: "u8 list \<Rightarrow> u8 list \<times> u8 list" where
  "split_first_token input =
     (let start = dropWhile (\<lambda>b. b = 32) input;
          token = takeWhile (\<lambda>b. b \<noteq> 32) start;
          rest = dropWhile (\<lambda>b. b = 32) (dropWhile (\<lambda>b. b \<noteq> 32) start)
      in (token, rest))"

definition is_ascii_digit :: "u8 \<Rightarrow> bool" where
  "is_ascii_digit b \<longleftrightarrow> 48 \<le> b \<and> b \<le> 57"

definition checked_mul :: "u32 \<Rightarrow> u32 \<Rightarrow> u32 option" where
  "checked_mul x y = (if unat x * unat y < 2 ^ 32 then Some (x * y) else None)"

fun parse_digits :: "u32 \<Rightarrow> u8 list \<Rightarrow> u32 option" where
  "parse_digits value [] = Some value"
| "parse_digits value (b # bs) =
     (if \<not> is_ascii_digit b then None
      else do {
        v1 \<leftarrow> checked_mul value 10;
        v2 \<leftarrow> checked_add v1 (ucast (b - 48));
        parse_digits v2 bs
      })"

definition parse_u32 :: "u8 list \<Rightarrow> u32 option" where
  "parse_u32 bs = (if bs = [] then None else parse_digits 0 bs)"

fun int_loop :: "fval \<Rightarrow> u8 list \<Rightarrow> fval" where
  "int_loop acc [] = acc"
| "int_loop acc (b # bs) = int_loop (fadd (fmul acc (Fin False 10)) (f32_of_nat (unat (b - 48)))) bs"

fun scale_loop :: "fval \<Rightarrow> u8 list \<Rightarrow> fval" where
  "scale_loop acc [] = acc"
| "scale_loop acc (b # bs) = scale_loop (fmul acc (Fin False 10)) bs"

definition parse_f32 :: "u8 list \<Rightarrow> fval option" where
  "parse_f32 bs =
     (case bs of
        [] \<Rightarrow> None
      | b0 # tail \<Rightarrow>
          let negative = (b0 = 45);
              s = (if b0 = 45 \<or> b0 = 43 then tail else bs);
              ints = takeWhile is_ascii_digit s;
              r = dropWhile is_ascii_digit s;
              (fracs, r2) = (case r of
                               c # r' \<Rightarrow> if c = 46 then (takeWhile is_ascii_digit r', dropWhile is_ascii_digit r') else ([], r)
                             | [] \<Rightarrow> ([], []))
          in if r2 \<noteq> [] \<or> (ints = [] \<and> fracs = []) then None
             else let value = fadd (int_loop f0 ints) (fdiv (int_loop f0 fracs) (scale_loop f1 fracs))
                  in Some (if negative then fneg value else value))"

section \<open>The terminal\<close>

definition LINE_MAX :: nat where "LINE_MAX = 128"

definition is_ascii_graphic :: "u8 \<Rightarrow> bool" where
  "is_ascii_graphic b \<longleftrightarrow> 33 \<le> b \<and> b \<le> 126"

partial_function (option) read_line :: "u8 list \<Rightarrow> Uart \<Rightarrow> (u8 list \<times> Uart) option" where
  "read_line buf u =
     do {
       (b, u1) \<leftarrow> safemode_read_byte u;
       if b = 0x0D \<or> b = 0x0A then do { u2 \<leftarrow> print [0x0A] u1; Some (buf, u2) }
       else if b = 0x08 \<or> b = 0x7F then
         (if buf \<noteq> [] then do { u2 \<leftarrow> print [0x08, 32, 0x08] u1; read_line (butlast buf) u2 } else read_line buf u1)
       else if is_ascii_graphic b \<or> b = 32 then
         (if length buf < LINE_MAX then do { u2 \<leftarrow> putc b u1; read_line (buf @ [b]) u2 }
          else do { u2 \<leftarrow> putc 7 u1; read_line buf u2 })
       else read_line buf u1
     }"

record Terminal =
  tm_uart :: Uart
  tm_config :: SentinelConfig
  tm_block :: MigrationBlock
  tm_addr :: u64

definition tm_print :: "(Uart \<Rightarrow> Uart option) \<Rightarrow> Terminal \<Rightarrow> Terminal option" where
  "tm_print f t = map_option (\<lambda>u. t\<lparr> tm_uart := u \<rparr>) (f (tm_uart t))"

definition cmd_help_text :: string where
  "cmd_help_text =
     ''commands:'' @ nl @
     ''  help                 show this help'' @ nl @
     ''  show                 show the current working configuration'' @ nl @
     ''  set <field> <value>  set a threshold (see fields below)'' @ nl @
     ''  reset                restore architecture-default thresholds'' @ nl @
     ''  commit               write the working config to the'' @ nl @
     ''                       migration block for the standard OS'' @ nl @ nl @
     ''fields (thresholds 0.000..=1.000, window a positive integer):'' @ nl @
     ''  repetition        RepetitionScore signal threshold'' @ nl @
     ''  self_referential  SelfReferentialLoop signal threshold'' @ nl @
     ''  token_velocity    TokenVelocityStall signal threshold'' @ nl @
     ''  tool_retry        ToolRetryAnomaly signal threshold'' @ nl @
     ''  soft              Soft response-tier threshold'' @ nl @
     ''  medium            Medium response-tier threshold'' @ nl @
     ''  hard              Hard response-tier threshold'' @ nl @
     ''  window            sliding output window width (observations)'' @ nl"

definition term_show :: "SentinelConfig \<Rightarrow> Uart \<Rightarrow> Uart option" where
  "term_show c u =
     do {
       u \<leftarrow> puts (''Sentinel configuration (working copy):'' @ nl @ ''  signals:'' @ nl @ ''    repetition        = '') u;
       u \<leftarrow> print_f32 (sc_rep c) u;
       u \<leftarrow> puts (nl @ ''    self_referential  = '') u;
       u \<leftarrow> print_f32 (sc_self c) u;
       u \<leftarrow> puts (nl @ ''    token_velocity    = '') u;
       u \<leftarrow> print_f32 (sc_token c) u;
       u \<leftarrow> puts (nl @ ''    tool_retry        = '') u;
       u \<leftarrow> print_f32 (sc_tool c) u;
       u \<leftarrow> puts (nl @ ''  tiers:'' @ nl @ ''    soft              = '') u;
       u \<leftarrow> print_f32 (sc_soft c) u;
       u \<leftarrow> puts (nl @ ''    medium            = '') u;
       u \<leftarrow> print_f32 (sc_medium c) u;
       u \<leftarrow> puts (nl @ ''    hard              = '') u;
       u \<leftarrow> print_f32 (sc_hard c) u;
       u \<leftarrow> puts (nl @ ''  window              = '') u;
       u \<leftarrow> print_u32 (sc_window c) u;
       puts nl u
     }"

text \<open>The field that a name selects, as an update of the configuration.\<close>

definition set_field :: "u8 list \<Rightarrow> f32 \<Rightarrow> SentinelConfig \<Rightarrow> SentinelConfig option" where
  "set_field field v c =
     (if eq field (bytes ''repetition'') then Some (c\<lparr> sc_rep := v \<rparr>)
      else if eq field (bytes ''self_referential'') then Some (c\<lparr> sc_self := v \<rparr>)
      else if eq field (bytes ''token_velocity'') then Some (c\<lparr> sc_token := v \<rparr>)
      else if eq field (bytes ''tool_retry'') then Some (c\<lparr> sc_tool := v \<rparr>)
      else if eq field (bytes ''soft'') then Some (c\<lparr> sc_soft := v \<rparr>)
      else if eq field (bytes ''medium'') then Some (c\<lparr> sc_medium := v \<rparr>)
      else if eq field (bytes ''hard'') then Some (c\<lparr> sc_hard := v \<rparr>)
      else None)"

definition report_set :: "u8 list \<Rightarrow> (Uart \<Rightarrow> Uart option) \<Rightarrow> Uart \<Rightarrow> Uart option" where
  "report_set field printer u =
     do { u \<leftarrow> puts ''set '' u; u \<leftarrow> print_bytes field u; u \<leftarrow> puts '' = '' u; u \<leftarrow> printer u; puts nl u }"

definition term_set :: "u8 list \<Rightarrow> Terminal \<Rightarrow> Terminal option" where
  "term_set rest t =
     (let (field, value_tok) = split_first_token rest
      in if field = [] \<or> value_tok = [] then tm_print (puts (''usage: set <field> <value>'' @ nl)) t
         else if eq field (bytes ''window'') then
           (case parse_u32 value_tok of
              Some v \<Rightarrow>
                if 0 < v then tm_print (report_set field (print_u32 v)) (t\<lparr> tm_config := (tm_config t)\<lparr> sc_window := v \<rparr> \<rparr>)
                else tm_print (puts (''error: window must be a positive integer'' @ nl)) t
            | None \<Rightarrow> tm_print (puts (''error: window must be a positive integer'' @ nl)) t)
         else case parse_f32 value_tok of
                None \<Rightarrow> tm_print (puts (''error: value must be a decimal number, e.g. 0.65'' @ nl)) t
              | Some value \<Rightarrow>
                  if \<not> (fle f0 value \<and> fle value f1)
                  then tm_print (puts (''error: threshold must be in 0.000..=1.000'' @ nl)) t
                  else case set_field field (encode value) (tm_config t) of
                         None \<Rightarrow>
                           tm_print (\<lambda>u. do {
                             u \<leftarrow> puts (''error: unknown field '' @ [CHR 0x27]) u;
                             u \<leftarrow> print_bytes field u;
                             puts ([CHR 0x27] @ ''  (type '' @ quoted ''help'' @ '')'' @ nl) u }) t
                       | Some c \<Rightarrow>
                           do {
                             t \<leftarrow> tm_print (report_set field (print_f32 (encode value))) (t\<lparr> tm_config := c \<rparr>);
                             if \<not> (fle (decode (sc_soft c)) (decode (sc_medium c)) \<and> fle (decode (sc_medium c)) (decode (sc_hard c)))
                             then tm_print (puts (''  warning: tiers are not ordered soft <= medium <= hard'' @ nl)) t
                             else Some t
                           })"

definition term_commit :: "Terminal \<Rightarrow> Terminal option" where
  "term_commit t =
     (let (seq, block) = commit (tm_config t) (tm_block t)
      in tm_print (\<lambda>u. do {
           u \<leftarrow> puts (''committed Sentinel config to migration block'' @ nl @ ''  symbol   : SENTINEL_MIGRATION_BLOCK'' @ nl @
                       ''  address  : '') u;
           u \<leftarrow> print_hex64 (tm_addr t) u;
           u \<leftarrow> puts (nl @ ''  sequence : '') u;
           u \<leftarrow> print_u32 seq u;
           u \<leftarrow> puts (nl @ ''  checksum : '') u;
           u \<leftarrow> print_u32 (config_checksum (tm_config t)) u;
           puts (nl @ ''The standard OS will detect and migrate this on next boot.'' @ nl) u })
         (t\<lparr> tm_block := block \<rparr>))"

definition dispatch_line :: "u8 list \<Rightarrow> Terminal \<Rightarrow> Terminal option" where
  "dispatch_line input t =
     (let (cmd, rest) = split_first_token input
      in if cmd = [] then Some t
         else if eq cmd (bytes ''help'') \<or> eq cmd (bytes ''?'') then tm_print (puts cmd_help_text) t
         else if eq cmd (bytes ''show'') \<or> eq cmd (bytes ''print'') then tm_print (term_show (tm_config t)) t
         else if eq cmd (bytes ''set'') then term_set rest t
         else if eq cmd (bytes ''reset'') then
           tm_print (puts (''config reset to defaults (working copy; '' @ quoted ''commit'' @ '' to publish)'' @ nl))
             (t\<lparr> tm_config := SentinelConfig_DEFAULT \<rparr>)
         else if eq cmd (bytes ''commit'') \<or> eq cmd (bytes ''save'') then term_commit t
         else if eq cmd (bytes ''register'') \<or> eq cmd (bytes ''agent'') \<or> eq cmd (bytes ''llm'') \<or> eq cmd (bytes ''spawn'') then
           tm_print (puts (''refused: Safe Mode registers no agents or LLM processes. No exceptions.'' @ nl)) t
         else tm_print (\<lambda>u. do {
                u \<leftarrow> puts (''unknown command: '' @ [CHR 0x27]) u;
                u \<leftarrow> print_bytes cmd u;
                puts ([CHR 0x27] @ ''  (type '' @ quoted ''help'' @ '')'' @ nl) u }) t)"

definition turn :: "Terminal \<Rightarrow> Terminal option" where
  "turn t =
     do {
       t1 \<leftarrow> tm_print (puts ''safemode> '') t;
       (line, u) \<leftarrow> read_line [] (tm_uart t1);
       dispatch_line line (t1\<lparr> tm_uart := u \<rparr>)
     }"

partial_function (option) turns :: "Terminal \<Rightarrow> Terminal option" where
  "turns t = do { t1 \<leftarrow> turn t; turns t1 }"

definition banner :: string where
  "banner =
     nl @ ''=============================================================='' @ nl @
     '' Golem Linux '' @ em_dash @ '' Safe Mode Sentinel Configuration'' @ nl @
     ''=============================================================='' @ nl @
     '' Agent-free recovery environment. No scheduler, no syscalls,'' @ nl @
     '' no filesystem, no agent or LLM registration.'' @ nl @
     '' This is the only context in which Sentinel may be configured.'' @ nl @ nl @
     '' Type '' @ quoted ''help'' @ '' for commands.'' @ nl @ nl"

definition start :: "Uart \<Rightarrow> MigrationBlock \<Rightarrow> u64 \<Rightarrow> Terminal option" where
  "start u block addr =
     tm_print (puts banner)
       \<lparr> tm_uart = safemode_serial_init u, tm_config = SentinelConfig_DEFAULT, tm_block = block, tm_addr = addr \<rparr>"

definition safemode_run :: "Uart \<Rightarrow> MigrationBlock \<Rightarrow> u64 \<Rightarrow> Terminal option" where
  "safemode_run u block addr = do { t \<leftarrow> start u block addr; turns t }"

section \<open>Printing always returns\<close>

named_theorems printing \<open>functions that print and return\<close>

text \<open>A printing function returns, transmits some bytes and leaves the input alone.\<close>

definition prints :: "(Uart \<Rightarrow> Uart option) \<Rightarrow> bool" where
  "prints f \<longleftrightarrow> (\<forall>u. uart_ready u \<longrightarrow>
     (\<exists>u' out. f u = Some u' \<and> uart_ready u' \<and> pending u' = pending u \<and> ua_sent u' = ua_sent u @ out))"

lemma prints_bind [printing]:
  assumes "prints f" "prints g"
  shows "prints (\<lambda>u. f u \<bind> g)"
  unfolding prints_def
proof (intro allI impI)
  fix u assume "uart_ready u"
  then obtain u1 o1 where 1: "f u = Some u1" "uart_ready u1" "pending u1 = pending u" "ua_sent u1 = ua_sent u @ o1"
    using assms(1) unfolding prints_def by blast
  then obtain u2 o2 where 2: "g u1 = Some u2" "uart_ready u2" "pending u2 = pending u1" "ua_sent u2 = ua_sent u1 @ o2"
    using assms(2) unfolding prints_def by blast
  show "\<exists>u' out. f u \<bind> g = Some u' \<and> uart_ready u' \<and> pending u' = pending u \<and> ua_sent u' = ua_sent u @ out"
    using 1 2 by auto
qed

lemma prints_Some [printing]: "prints Some"
  by (simp add: prints_def)

lemma prints_write [printing]: "prints (safemode_write_byte b)"
  using safemode.write_byte unfolding prints_def by blast

lemma prints_putc [printing]: "prints (putc b)"
  using prints_write [of b] by (simp add: putc_def [abs_def] prints_def)

lemma prints_If [printing]: "prints f \<Longrightarrow> prints g \<Longrightarrow> prints (\<lambda>u. if c then f u else g u)"
  by (simp add: prints_def)

lemma prints_print [printing]: "prints (print bs)"
proof (induction bs)
  case (Cons b bs)
  show ?case unfolding print.simps by (intro printing Cons.IH)
qed (simp add: prints_def)

lemma prints_print_bytes [printing]: "prints (print_bytes bs)"
proof (induction bs)
  case (Cons b bs)
  show ?case unfolding print_bytes.simps by (intro printing Cons.IH)
qed (simp add: prints_def)

lemma prints_print_u32 [printing]: "prints (print_u32 v)"
  unfolding print_u32_def by (intro printing)

lemma prints_print_hex64 [printing]: "prints (print_hex64 v)"
  unfolding print_hex64_def by (intro printing)

lemma prints_print_f32 [printing]: "prints (print_f32 v)"
  unfolding print_f32_def Let_def by (intro printing)

lemma prints_report_set [printing]: "prints p \<Longrightarrow> prints (report_set f p)"
  unfolding report_set_def by (intro printing)

lemma prints_term_show [printing]: "prints (term_show c)"
  unfolding term_show_def by (intro printing)

lemma tm_print_Some:
  assumes "prints f" "uart_ready (tm_uart t)"
  obtains u where "tm_print f t = Some (t\<lparr> tm_uart := u \<rparr>)" "uart_ready u" "pending u = pending (tm_uart t)"
  using assms unfolding prints_def tm_print_def by fastforce

section \<open>Parsed thresholds\<close>

fun stored :: "fval \<Rightarrow> bool" where
  "stored (Fin s m) = representable m"
| "stored _ = True"

lemma decode_encode_stored:
  assumes "stored x"
  shows "decode (encode x) = x"
proof (cases x)
  case NaN
  then show ?thesis by (simp add: decode_def Let_def)
next
  case (Infty s)
  then show ?thesis using decode_pattern [of 255 0 s] by (cases s) (simp_all add: pattern_def)
qed (use assms decode_encode in simp)

lemma stored_rnd: "stored (rnd z v)"
  using round_mag_representable [of "\<bar>v\<bar>"] by (auto simp: rnd_def Let_def representable_def [of 0])

lemma stored_fadd: "stored (fadd x y)"
  by (cases x; cases y) (simp_all add: stored_rnd del: signed.simps)

lemma stored_fneg: "stored x \<Longrightarrow> stored (fneg x)"
  by (cases x) simp_all

lemma parse_f32_stored: "parse_f32 bs = Some v \<Longrightarrow> stored v"
  by (auto simp: parse_f32_def Let_def stored_fadd stored_fneg split: list.splits prod.splits if_splits)

lemma eq_iff: "eq a b \<longleftrightarrow> a = b"
proof -
  have "eq_from a b i \<longleftrightarrow> (\<forall>j. i \<le> j \<and> j < length a \<longrightarrow> a ! j = b ! j)" for i
  proof (induction a b i rule: eq_from.induct)
    case (1 a b i)
    have "(\<forall>j. i \<le> j \<and> j < n \<longrightarrow> P j) \<longleftrightarrow> (i < n \<longrightarrow> P i \<and> (\<forall>j. Suc i \<le> j \<and> j < n \<longrightarrow> P j))" for n P
    proof -
      have "i \<le> j \<longleftrightarrow> i = j \<or> Suc i \<le> j" "Suc i \<le> j \<Longrightarrow> j < n \<Longrightarrow> i < n" for j by auto
      then show ?thesis by metis
    qed
    then show ?case using 1 by (subst eq_from.simps) (simp split: if_splits)
  qed
  then show ?thesis by (auto simp: eq_def intro: nth_equalityI)
qed

section \<open>Invariant of the terminal\<close>

definition conf_ok :: "SentinelConfig \<Rightarrow> bool" where
  "conf_ok c \<longleftrightarrow>
     in_unit (decode (sc_rep c)) \<and> in_unit (decode (sc_self c)) \<and> in_unit (decode (sc_token c)) \<and>
     in_unit (decode (sc_tool c)) \<and> in_unit (decode (sc_soft c)) \<and> in_unit (decode (sc_medium c)) \<and>
     in_unit (decode (sc_hard c)) \<and> 0 < sc_window c"

definition block_ok :: "MigrationBlock \<Rightarrow> bool" where
  "block_ok b \<longleftrightarrow>
     b = MigrationBlock_EMPTY \<or>
     (bk_magic b = BLOCK_MAGIC \<and> bk_version b = BLOCK_VERSION \<and> bk_committed b = 1 \<and>
      bk_checksum b = config_checksum (bk_config b) \<and> conf_ok (bk_config b))"

definition term_inv :: "Terminal \<Rightarrow> bool" where
  "term_inv t \<longleftrightarrow> uart_ready (tm_uart t) \<and> conf_ok (tm_config t) \<and> block_ok (tm_block t)"

text \<open>A command returns, keeps the invariant and consumes no input.\<close>

definition returns :: "Terminal \<Rightarrow> Terminal option \<Rightarrow> bool" where
  "returns t r \<longleftrightarrow> (\<exists>t'. r = Some t' \<and> term_inv t' \<and> pending (tm_uart t') = pending (tm_uart t))"

lemma returns_print:
  assumes "prints f" "term_inv t'" "pending (tm_uart t') = pending (tm_uart t)"
  shows "returns t (tm_print f t')"
proof -
  obtain u where "tm_print f t' = Some (t'\<lparr> tm_uart := u \<rparr>)" "uart_ready u" "pending u = pending (tm_uart t')"
    using tm_print_Some [OF assms(1)] assms(2) unfolding term_inv_def by blast
  then show ?thesis using assms(2,3) by (simp add: returns_def term_inv_def)
qed

lemma default_conf_ok: "conf_ok SentinelConfig_DEFAULT"
  using default_config_ok
  by (simp add: conf_ok_def SentinelConfig_DEFAULT_def config_ok_def default_config_def)

lemma set_field_ok:
  assumes "set_field f v c = Some c'" "conf_ok c" "in_unit (decode v)"
  shows "conf_ok c'"
proof -
  have "c' \<in> {c\<lparr> sc_rep := v \<rparr>, c\<lparr> sc_self := v \<rparr>, c\<lparr> sc_token := v \<rparr>, c\<lparr> sc_tool := v \<rparr>, c\<lparr> sc_soft := v \<rparr>,
      c\<lparr> sc_medium := v \<rparr>, c\<lparr> sc_hard := v \<rparr>}"
    using assms(1) unfolding set_field_def by (simp only: split: if_splits) (simp_all only: option.distinct option.inject insert_iff simp_thms)
  then show ?thesis using assms(2,3) by (auto simp: conf_ok_def)
qed

lemma term_set_returns:
  assumes "term_inv t"
  shows "returns t (term_set rest t)"
proof -
  have msg: "returns t (tm_print (puts s) t)" for s using assms by (intro returns_print printing) simp_all
  obtain f tok where s: "split_first_token rest = (f, tok)" by fastforce
  consider (usage) "f = [] \<or> tok = []" | (window) "f \<noteq> []" "tok \<noteq> []" "eq f (bytes ''window'')"
    | (field) "f \<noteq> []" "tok \<noteq> []" "\<not> eq f (bytes ''window'')" by blast
  then show ?thesis
  proof cases
    case usage
    then show ?thesis using msg s by (simp add: term_set_def)
  next
    case window
    have "returns t (tm_print (report_set f (print_u32 v)) (t\<lparr> tm_config := (tm_config t)\<lparr> sc_window := v \<rparr> \<rparr>))" if "0 < v" for v
      using assms that by (intro returns_print printing) (simp_all add: term_inv_def conf_ok_def)
    then show ?thesis using window s msg by (simp add: term_set_def split: option.splits)
  next
    case field
    show ?thesis
    proof (cases "parse_f32 tok")
      case None
      then show ?thesis using field s msg by (simp add: term_set_def)
    next
      case (Some v)
      show ?thesis
      proof (cases "fle f0 v \<and> fle v f1")
        case False
        then show ?thesis using Some field s msg by (simp add: term_set_def)
      next
        case True
        then have u: "in_unit (decode (encode v))"
          using in_unit_iff [of v] decode_encode_stored [OF parse_f32_stored [OF Some]] by simp
        show ?thesis
        proof (cases "set_field f (encode v) (tm_config t)")
          case None
          have "returns t (tm_print (\<lambda>u. do { u \<leftarrow> puts (''error: unknown field '' @ [CHR 0x27]) u; u \<leftarrow> print_bytes f u;
              puts ([CHR 0x27] @ ''  (type '' @ quoted ''help'' @ '')'' @ nl) u }) t)"
            using assms by (intro returns_print printing) simp_all
          then show ?thesis using Some True None field s by (simp add: term_set_def)
        next
          case set: (Some c)
          have "conf_ok c" using set_field_ok [OF set] u assms by (simp add: term_inv_def)
          then have "term_inv (t\<lparr> tm_config := c \<rparr>)" using assms by (simp add: term_inv_def)
          then have "returns t (tm_print (report_set f (print_f32 (encode v))) (t\<lparr> tm_config := c \<rparr>))"
            by (intro returns_print printing) simp_all
          then obtain t1 where t1: "tm_print (report_set f (print_f32 (encode v))) (t\<lparr> tm_config := c \<rparr>) = Some t1"
            "term_inv t1" "pending (tm_uart t1) = pending (tm_uart t)" unfolding returns_def by blast
          have "returns t (tm_print (puts w) t1)" for w using t1 by (intro returns_print printing) simp_all
          moreover have "returns t (Some t1)" using t1 by (simp add: returns_def)
          ultimately show ?thesis using Some True set field s t1(1) by (simp add: term_set_def)
        qed
      qed
    qed
  qed
qed

lemma commit_ok: "conf_ok c \<Longrightarrow> block_ok (snd (commit c b))"
  by (simp add: commit_def block_ok_def Let_def)

lemma term_commit_returns:
  assumes "term_inv t"
  shows "returns t (term_commit t)"
proof -
  obtain seq b where c: "commit (tm_config t) (tm_block t) = (seq, b)" by fastforce
  then have "block_ok b" using commit_ok [of "tm_config t" "tm_block t"] assms by (simp add: term_inv_def)
  then have "term_inv (t\<lparr> tm_block := b \<rparr>)" using assms by (simp add: term_inv_def)
  then show ?thesis unfolding term_commit_def c Let_def prod.case by (intro returns_print printing) simp_all
qed

lemma dispatch_line_returns:
  assumes "term_inv t"
  shows "returns t (dispatch_line input t)"
proof -
  obtain cmd rest where s: "split_first_token input = (cmd, rest)" by fastforce
  have msg: "returns t (tm_print f t)" if "prints f" for f using assms that by (intro returns_print) simp_all
  have "returns t (Some t)" using assms by (simp add: returns_def)
  moreover have "returns t (tm_print (puts s) (t\<lparr> tm_config := SentinelConfig_DEFAULT \<rparr>))" for s
    using assms default_conf_ok by (intro returns_print printing) (simp_all add: term_inv_def)
  moreover have "returns t (tm_print (puts s) t)" for s by (intro msg printing)
  moreover have "returns t (tm_print (term_show (tm_config t)) t)" by (intro msg printing)
  moreover have "returns t (tm_print (\<lambda>u. do { u \<leftarrow> puts a u; u \<leftarrow> print_bytes cmd u; puts b u }) t)" for a b
    by (intro msg printing)
  moreover note term_set_returns [OF assms, of rest] term_commit_returns [OF assms]
  ultimately show ?thesis unfolding dispatch_line_def s Let_def prod.case by (simp only: if_True if_False split: if_split) blast
qed

section \<open>Reading a line\<close>

fun edit :: "u8 list \<Rightarrow> u8 list \<Rightarrow> (u8 list \<times> u8 list) option" where
  "edit buf [] = None"
| "edit buf (b # bs) =
     (if newline b then Some (buf, bs)
      else if b = 0x08 \<or> b = 0x7F then edit (butlast buf) bs
      else if is_ascii_graphic b \<or> b = 32 then edit (if length buf < LINE_MAX then buf @ [b] else buf) bs
      else edit buf bs)"

text \<open>The reader gives the edited line and leaves the rest of the input, or waits for ever.\<close>

fun agrees :: "(u8 list \<times> u8 list) option \<Rightarrow> (u8 list \<times> Uart) option \<Rightarrow> bool" where
  "agrees None r = (r = None)"
| "agrees (Some (line, rest)) r = (\<exists>u'. r = Some (line, u') \<and> uart_ready u' \<and> pending u' = rest)"

lemma read_line_edit:
  assumes "uart_ready u" "pending u = inp"
  shows "agrees (edit buf inp) (read_line buf u)"
  using assms
proof (induction inp arbitrary: buf u)
  case Nil
  then show ?case using safemode.read_blocks by (subst read_line.simps) simp
next
  case (Cons b bs)
  obtain u1 where u1: "safemode_read_byte u = Some (b, u1)" "uart_ready u1" "pending u1 = bs"
    using safemode.read_byte [OF Cons.prems] by blast
  have p: "\<exists>u2. f u1 = Some u2 \<and> uart_ready u2 \<and> pending u2 = bs" if "prints f" for f
    using that u1 unfolding prints_def by blast
  consider (line) "newline b" | (erase) "\<not> newline b" "b = 0x08 \<or> b = 0x7F" "buf \<noteq> []"
    | (none) "\<not> newline b" "b = 0x08 \<or> b = 0x7F" "buf = []"
    | (key) "\<not> newline b" "\<not> (b = 0x08 \<or> b = 0x7F)" "is_ascii_graphic b \<or> b = 32"
    | (other) "\<not> newline b" "\<not> (b = 0x08 \<or> b = 0x7F)" "\<not> (is_ascii_graphic b \<or> b = 32)" by blast
  then show ?case
  proof cases
    case line
    obtain u2 where "print [0x0A] u1 = Some u2" "uart_ready u2" "pending u2 = bs" using p [OF prints_print] by blast
    then show ?thesis using line u1(1) by (simp add: read_line.simps [of buf u] newline_def del: print.simps)
  next
    case erase
    obtain u2 where "print [0x08, 32, 0x08] u1 = Some u2" "uart_ready u2" "pending u2 = bs" using p [OF prints_print] by blast
    then show ?thesis
      using erase u1(1) Cons.IH [of u2 "butlast buf"] by (simp add: read_line.simps [of buf u] newline_def del: print.simps)
  next
    case none
    then show ?thesis using u1 Cons.IH [of u1 "[]"] by (simp add: read_line.simps [of "[]" u] newline_def del: print.simps)
  next
    case key
    obtain u2 where k: "putc b u1 = Some u2" "uart_ready u2" "pending u2 = bs" using p [OF prints_putc] by blast
    obtain u3 where l: "putc 7 u1 = Some u3" "uart_ready u3" "pending u3 = bs" using p [OF prints_putc] by blast
    show ?thesis
      using key u1(1) k l Cons.IH [of u2 "buf @ [b]"] Cons.IH [of u3 buf]
      by (simp add: read_line.simps [of buf u] newline_def del: print.simps)
  next
    case other
    then show ?thesis using u1 Cons.IH [of u1 buf] by (simp add: read_line.simps [of buf u] newline_def del: print.simps)
  qed
qed

definition line_ok :: "u8 list \<Rightarrow> bool" where
  "line_ok buf \<longleftrightarrow> length buf \<le> LINE_MAX \<and> (\<forall>b \<in> set buf. is_ascii_graphic b \<or> b = 32)"

lemma edit_line_ok: "edit buf inp = Some (line, rest) \<Longrightarrow> line_ok buf \<Longrightarrow> line_ok line"
proof (induction buf inp rule: edit.induct)
  case (2 buf b bs)
  have "line_ok (butlast buf)" using 2(5) by (auto simp: line_ok_def dest: in_set_butlastD)
  moreover have "is_ascii_graphic b \<or> b = 32 \<Longrightarrow> line_ok (if length buf < LINE_MAX then buf @ [b] else buf)"
    using 2(5) by (auto simp: line_ok_def)
  ultimately show ?case using 2 by (simp split: if_splits)
qed simp

lemma edit_rest:
  "edit buf inp = Some (line, rest) \<Longrightarrow> length (filter newline inp) = Suc (length (filter newline rest))"
  "edit buf inp = None \<Longrightarrow> filter newline inp = []"
  by (induction buf inp rule: edit.induct) (auto simp: newline_def split: if_splits)

section \<open>Turns\<close>

lemma turn_edit:
  assumes "term_inv t"
  shows "case edit [] (pending (tm_uart t)) of
      None \<Rightarrow> turn t = None
    | Some (line, rest) \<Rightarrow> \<exists>t'. turn t = Some t' \<and> term_inv t' \<and> pending (tm_uart t') = rest"
proof -
  have "returns t (tm_print (puts ''safemode> '') t)" using assms by (intro returns_print printing) simp_all
  then obtain t1 where t1: "tm_print (puts ''safemode> '') t = Some t1" "term_inv t1" "pending (tm_uart t1) = pending (tm_uart t)"
    unfolding returns_def by blast
  have r: "uart_ready (tm_uart t1)" using t1(2) by (simp add: term_inv_def)
  note e = read_line_edit [OF r t1(3), of "[]"]
  show ?thesis
  proof (cases "edit [] (pending (tm_uart t))")
    case None
    then show ?thesis using e t1(1) by (simp add: turn_def)
  next
    case (Some lr)
    obtain line rest where lr: "lr = (line, rest)" by fastforce
    then obtain u where u: "read_line [] (tm_uart t1) = Some (line, u)" "uart_ready u" "pending u = rest" using e Some by auto
    then have "term_inv (t1\<lparr> tm_uart := u \<rparr>)" using t1(2) by (simp add: term_inv_def)
    from dispatch_line_returns [OF this, of line] show ?thesis
      using Some lr t1(1) u by (auto simp: returns_def turn_def)
  qed
qed

primrec after :: "nat \<Rightarrow> Terminal \<Rightarrow> Terminal option" where
  "after 0 t = Some t"
| "after (Suc n) t = do { t1 \<leftarrow> turn t; after n t1 }"

lemma after_inv:
  assumes "term_inv t"
  shows "after n t = Some t' \<Longrightarrow> term_inv t'"
    "n \<le> length (filter newline (pending (tm_uart t))) \<Longrightarrow> after n t \<noteq> None"
  using assms
proof (induction n arbitrary: t)
  case (Suc n)
  {
    case 1
    then obtain t1 where t1: "turn t = Some t1" "after n t1 = Some t'" by (auto simp: bind_eq_Some_conv)
    have "term_inv t1" using turn_edit [OF 1(2)] t1(1) by (auto split: option.splits prod.splits)
    then show ?case using Suc.IH(1) t1(2) by blast
  next
    case 2
    then have "edit [] (pending (tm_uart t)) \<noteq> None" using edit_rest(2) [of "[]" "pending (tm_uart t)"] by fastforce
    then obtain line rest where e: "edit [] (pending (tm_uart t)) = Some (line, rest)" by auto
    then obtain t1 where t1: "turn t = Some t1" "term_inv t1" "pending (tm_uart t1) = rest" using turn_edit [OF 2(2)] by auto
    have "n \<le> length (filter newline (pending (tm_uart t1)))" using 2(1) edit_rest(1) [OF e] t1(3) by simp
    then show ?case using Suc.IH(2) t1 by simp
  }
qed simp_all

lemma turns_diverge: "turns t = None"
proof -
  have False if "turns t = Some t'" for t t'
    by (rule turns.raw_induct [where P = "\<lambda>_ _. False", OF _ that]) (auto simp: bind_eq_Some_conv)
  then show ?thesis by (cases "turns t") auto
qed

lemma start_inv: "\<exists>t. start u MigrationBlock_EMPTY addr = Some t \<and> term_inv t \<and> pending (tm_uart t) = pending u"
proof -
  let ?t = "\<lparr> tm_uart = safemode_serial_init u, tm_config = SentinelConfig_DEFAULT, tm_block = MigrationBlock_EMPTY, tm_addr = addr \<rparr>"
  have "term_inv ?t" using safemode_serial_init_ready default_conf_ok by (simp add: term_inv_def block_ok_def)
  then have "returns ?t (tm_print (puts banner) ?t)" by (intro returns_print printing) simp_all
  then show ?thesis using safemode_serial_init_ready(3) by (simp add: start_def returns_def)
qed

section \<open>Weaknesses of the handoff block\<close>

text \<open>The additive checksum does not see two fields exchanged.\<close>

lemma fold_bytes_add: "fold_bytes w s = s + fold_bytes w 0"
proof -
  have "fold (\<lambda>b acc. acc + ucast b) bs s = s + fold (\<lambda>b acc. acc + ucast b) bs 0" for bs :: "u8 list" and s :: u32
  proof (induction bs arbitrary: s)
    case (Cons b bs)
    show ?case using Cons.IH [of "s + ucast b"] Cons.IH [of "ucast b"] by (simp only: fold_simps add.assoc add_0)
  qed simp
  then show ?thesis unfolding fold_bytes_def by blast
qed

lemma checksum_misses_exchange:
  "config_checksum (c\<lparr> sc_soft := sc_hard c, sc_hard := sc_soft c \<rparr>) = config_checksum c"
proof -
  have "fold_bytes a (fold_bytes b s) = fold_bytes b (fold_bytes a s)" for a b s
    using fold_bytes_add [of a "fold_bytes b s"] fold_bytes_add [of b s] fold_bytes_add [of b "fold_bytes a s"] fold_bytes_add [of a s]
    by simp
  then show ?thesis by (simp add: config_checksum_def)
qed

text \<open>The magic of the block is not the one the boot-time migration looks for.\<close>

lemma block_magic_differs: "BLOCK_MAGIC \<noteq> MIGRATION_MAGIC"
  by (simp add: BLOCK_MAGIC_def MIGRATION_MAGIC_def bytes_def)

section \<open>Properties\<close>

lemma read_line_ok:
  assumes "uart_ready v" "read_line [] v = Some (line, v')"
  shows "line_ok line"
proof -
  have "agrees (edit [] (pending v)) (read_line [] v)" using read_line_edit [OF assms(1) refl] .
  then obtain rest where "edit [] (pending v) = Some (line, rest)" using assms(2) by (cases "edit [] (pending v)") auto
  then show ?thesis using edit_line_ok by (simp add: line_ok_def)
qed



end
