(* ===== verification/Drivers.thy ===== *)
theory Drivers
  imports Uart Rust_Format
begin

text \<open>
  CPU identification (\<open>drivers/cpuid.rs\<close>, \<open>drivers/mod.rs\<close>).  The \<open>cpuid\<close> instruction is a function from the leaf
  to the four registers, an argument of \<open>detect\<close>; the decoders are pure and the report goes to COM1 without a handshake.
\<close>

section \<open>The model\<close>

definition EXPECTED_VENDOR :: string where "EXPECTED_VENDOR = ''GenuineIntel''"

record Features =
  ft_sse :: bool
  ft_sse2 :: bool
  ft_avx :: bool

definition SSE_BIT :: u32 where "SSE_BIT = push_bit 25 1"
definition SSE2_BIT :: u32 where "SSE2_BIT = push_bit 26 1"
definition AVX_BIT :: u32 where "AVX_BIT = push_bit 28 1"

definition Features_decode :: "u32 \<Rightarrow> u32 \<Rightarrow> Features" where
  "Features_decode ecx edx =
     \<lparr> ft_sse = (edx AND SSE_BIT \<noteq> 0), ft_sse2 = (edx AND SSE2_BIT \<noteq> 0), ft_avx = (ecx AND AVX_BIT \<noteq> 0) \<rparr>"

definition Features_default :: Features where
  "Features_default = \<lparr> ft_sse = False, ft_sse2 = False, ft_avx = False \<rparr>"

record CpuInfo =
  ci_max_leaf :: u32
  ci_vendor :: "u8 list"
  ci_family :: u32
  ci_model :: u32
  ci_stepping :: u32
  ci_features :: Features

definition decode_vendor :: "u32 \<Rightarrow> u32 \<Rightarrow> u32 \<Rightarrow> u8 list" where
  "decode_vendor ebx ecx edx = le_bytes 4 ebx @ le_bytes 4 edx @ le_bytes 4 ecx"

definition decode_version :: "u32 \<Rightarrow> u32 \<times> u32 \<times> u32" where
  "decode_version eax =
     (let stepping = eax AND 0xF;
          base_model = drop_bit 4 eax AND 0xF;
          base_family = drop_bit 8 eax AND 0xF;
          ext_model = drop_bit 16 eax AND 0xF;
          ext_family = drop_bit 20 eax AND 0xFF;
          family = (if base_family = 0xF then base_family + ext_family else base_family);
          model = (if base_family = 0x6 \<or> base_family = 0xF then push_bit 4 ext_model OR base_model else base_model)
      in (family, model, stepping))"

definition vendor_str :: "CpuInfo \<Rightarrow> u8 list option" where
  "vendor_str info = (if utf8_valid (ci_vendor info) then Some (ci_vendor info) else None)"

definition vendor_matches_expected :: "CpuInfo \<Rightarrow> bool" where
  "vendor_matches_expected info \<longleftrightarrow> ci_vendor info = bytes EXPECTED_VENDOR"

type_synonym cpuid = "u32 \<Rightarrow> u32 \<times> u32 \<times> u32 \<times> u32"

definition detect :: "cpuid \<Rightarrow> CpuInfo" where
  "detect raw_cpuid =
     (let (max_leaf, ebx0, ecx0, edx0) = raw_cpuid 0;
          vendor = decode_vendor ebx0 ecx0 edx0;
          (family, model, stepping, features) =
            (if 1 \<le> max_leaf then
               let (eax1, ebx1, ecx1, edx1) = raw_cpuid 1;
                   (family, model, stepping) = decode_version eax1
               in (family, model, stepping, Features_decode ecx1 edx1)
             else (0, 0, 0, Features_default))
      in \<lparr> ci_max_leaf = max_leaf, ci_vendor = vendor, ci_family = family, ci_model = model, ci_stepping = stepping,
           ci_features = features \<rparr>)"

definition yn :: "bool \<Rightarrow> string" where
  "yn b = (if b then ''yes'' else ''no'')"

definition CpuInfo_fmt :: "CpuInfo \<Rightarrow> u8 list" where
  "CpuInfo_fmt info =
     (let vendor = (case vendor_str info of Some v \<Rightarrow> v | None \<Rightarrow> bytes ''<non-ascii>'');
          d = (\<lambda>w. dec (unat w)); x = (\<lambda>w. ''0x'' @ hexnum (unat w))
      in bytes ''    vendor: '' @ vendor @ bytes (nl @
         (if vendor_matches_expected info then ''    vendor check: ok (expected '' @ EXPECTED_VENDOR @ '')'' @ nl
          else ''    vendor check: MISMATCH (expected '' @ EXPECTED_VENDOR @ '')'' @ nl) @
         ''    family/model/stepping: '' @ d (ci_family info) @ ''/'' @ d (ci_model info) @ ''/'' @ d (ci_stepping info) @
         '' ('' @ x (ci_family info) @ ''/'' @ x (ci_model info) @ ''/'' @ x (ci_stepping info) @ '')'' @ nl @
         ''    features: SSE='' @ yn (ft_sse (ci_features info)) @ '' SSE2='' @ yn (ft_sse2 (ci_features info)) @
         '' AVX='' @ yn (ft_avx (ci_features info)) @ nl @
         ''    max cpuid leaf: '' @ x (ci_max_leaf info)))"

definition outb_com1 :: "u8 \<Rightarrow> Uart \<Rightarrow> Uart" where
  "outb_com1 byte u = outb COM1 byte u"

primrec SerialOut_write_str :: "u8 list \<Rightarrow> Uart \<Rightarrow> Uart" where
  "SerialOut_write_str [] u = u"
| "SerialOut_write_str (b # bs) u = SerialOut_write_str bs (outb_com1 b u)"

definition drivers_init :: "cpuid \<Rightarrow> Uart \<Rightarrow> CpuInfo \<times> Uart" where
  "drivers_init raw_cpuid u =
     (let info = detect raw_cpuid;
          u1 = SerialOut_write_str (bytes (''  cpuid: detecting CPU'' @ nl)) u;
          u2 = SerialOut_write_str (CpuInfo_fmt info @ bytes nl) u1
      in (info, u2))"

lemma SerialOut_serial_write: "SerialOut_write_str bs u = serial_write bs u"
  by (induction bs arbitrary: u) (simp_all add: outb_com1_def COM1_def)

section \<open>Decoding\<close>

lemma vendor_registers:
  "decode_vendor ebx ecx edx = bytes EXPECTED_VENDOR \<longleftrightarrow> ebx = 0x756E6547 \<and> edx = 0x49656E69 \<and> ecx = 0x6C65746E"
  (is "_ = ?r")
proof
  assume "decode_vendor ebx ecx edx = bytes EXPECTED_VENDOR"
  then have e: "le_bytes 4 ebx @ le_bytes 4 edx @ le_bytes 4 ecx = bytes ''Genu'' @ bytes ''ineI'' @ bytes ''ntel''"
    by (simp add: decode_vendor_def EXPECTED_VENDOR_def bytes_def)
  have n: "length (bytes ''Genu'') = 4" "length (bytes ''ineI'') = 4" by (simp_all add: bytes_def)
  have p: "le_bytes 4 ebx = bytes ''Genu''" "le_bytes 4 edx = bytes ''ineI''" "le_bytes 4 ecx = bytes ''ntel''"
    using e n by (simp_all del: bytes_inj)
  have "ebx = from_le (bytes ''Genu'')" "edx = from_le (bytes ''ineI'')" "ecx = from_le (bytes ''ntel'')"
    unfolding p [symmetric] by simp_all
  then show ?r by (simp add: bytes_def)
next
  assume ?r
  then show "decode_vendor ebx ecx edx = bytes EXPECTED_VENDOR"
    by (simp add: decode_vendor_def EXPECTED_VENDOR_def bytes_def le_bytes_def upt_rec)
qed

lemma and_low_mask: "w AND 0xF = take_bit 4 w" "w AND 0xFF = take_bit 8 w" for w :: u32
  by (simp_all add: take_bit_eq_mask mask_eq_exp_minus_1)

lemma unat_field: "unat (take_bit k (drop_bit n w)) = unat w div 2 ^ n mod 2 ^ k" for w :: u32
  using unsigned_take_bit_eq [where 'a = nat, of k "drop_bit n w"] unsigned_drop_bit_eq [where 'a = nat, of n w]
    mod_less [OF unsigned_less [where 'a = nat, of w]]
  by (simp add: take_bit_eq_mod drop_bit_eq_div)

lemma unat_nibbles:
  fixes a b :: u32
  shows "unat (push_bit 4 (take_bit 4 a) OR take_bit 4 b) = 16 * unat (take_bit 4 a) + unat (take_bit 4 b)"
proof -
  have l: "unat (take_bit 4 x) < 16" for x :: u32
    using unsigned_take_bit_eq [where 'a = nat, of 4 x] by (simp add: take_bit_eq_mod)
  have "push_bit 4 (take_bit 4 a) + take_bit 4 b = push_bit 4 (take_bit 4 a) OR take_bit 4 b"
    by (rule disjunctive_add) (auto simp: bit_push_bit_iff bit_take_bit_iff)
  moreover have "unat (push_bit 4 (take_bit 4 a)) = 16 * unat (take_bit 4 a)"
    using l [of a] by (simp add: push_bit_eq_mult unat_mult_lem [THEN iffD1])
  ultimately show ?thesis using l [of a] l [of b] unat_add_lem [THEN iffD1, of "push_bit 4 (take_bit 4 a)" "take_bit 4 b"] by simp
qed

lemma feature_bits: "w AND SSE_BIT \<noteq> 0 \<longleftrightarrow> bit w 25" "w AND SSE2_BIT \<noteq> 0 \<longleftrightarrow> bit w 26" "w AND AVX_BIT \<noteq> 0 \<longleftrightarrow> bit w 28"
  using and_two_power_eq_0_iff [of w 25] and_two_power_eq_0_iff [of w 26] and_two_power_eq_0_iff [of w 28]
  by (simp_all add: SSE_BIT_def SSE2_BIT_def AVX_BIT_def push_bit_eq_mult)

text \<open>C36: what the processor reports is what is decoded.  The vendor check passes exactly for the registers that spell
  GenuineIntel; with leaf 1 present, stepping, family and model are the fields of the version word with the extended
  fields folded in for families 6 and 15 only, and a feature is reported exactly when its bit is set; without leaf 1
  nothing of it is read.  Bring-up sends the report and returns the same value.\<close>

theorem detect_correct:
  assumes leaves: "raw_cpuid 0 = (max_leaf, ebx0, ecx0, edx0)" "raw_cpuid 1 = (eax1, ebx1, ecx1, edx1)"
    and version: "ver = unat eax1" "base = ver div 2 ^ 8 mod 16"
  shows "ci_max_leaf (detect raw_cpuid) = max_leaf \<and>
    (vendor_matches_expected (detect raw_cpuid) \<longleftrightarrow> ebx0 = 0x756E6547 \<and> edx0 = 0x49656E69 \<and> ecx0 = 0x6C65746E) \<and>
    (if max_leaf = 0
     then ci_family (detect raw_cpuid) = 0 \<and> ci_model (detect raw_cpuid) = 0 \<and> ci_stepping (detect raw_cpuid) = 0 \<and>
          ci_features (detect raw_cpuid) = Features_default
     else unat (ci_stepping (detect raw_cpuid)) = ver mod 16 \<and>
          unat (ci_family (detect raw_cpuid)) = (if base = 15 then 15 + ver div 2 ^ 20 mod 256 else base) \<and>
          unat (ci_model (detect raw_cpuid)) =
            (if base = 6 \<or> base = 15 then 16 * (ver div 2 ^ 16 mod 16) else 0) + ver div 2 ^ 4 mod 16 \<and>
          ci_features (detect raw_cpuid) = \<lparr> ft_sse = bit edx1 25, ft_sse2 = bit edx1 26, ft_avx = bit ecx1 28 \<rparr>) \<and>
    drivers_init raw_cpuid u =
      (detect raw_cpuid, serial_write (bytes (''  cpuid: detecting CPU'' @ nl) @ CpuInfo_fmt (detect raw_cpuid) @ bytes nl) u)"
proof -
  obtain family model stepping where v: "decode_version eax1 = (family, model, stepping)" by (cases "decode_version eax1") auto
  let ?bf = "take_bit 4 (drop_bit 8 eax1)" and ?xf = "take_bit 8 (drop_bit 20 eax1)"
  have base: "unat ?bf = base" using version unat_field [of 4 8 eax1] by simp
  then have bf: "?bf = 15 \<longleftrightarrow> base = 15" "?bf = 6 \<longleftrightarrow> base = 6" by (simp_all add: word_eq_iff_unsigned [where 'a = nat])
  have xf: "unat ?xf = ver div 2 ^ 20 mod 256" using version unat_field [of 8 20 eax1] by simp
  have "unat stepping = ver mod 16" using v version unat_field [of 4 0 eax1] by (auto simp: decode_version_def Let_def and_low_mask)
  moreover have "unat family = (if base = 15 then 15 + ver div 2 ^ 20 mod 256 else base)"
    using v base xf bf unat_add_lem [THEN iffD1, of ?bf ?xf] by (auto simp: decode_version_def Let_def and_low_mask)
  moreover have "unat model = (if base = 6 \<or> base = 15 then 16 * (ver div 2 ^ 16 mod 16) else 0) + ver div 2 ^ 4 mod 16"
    using v version bf unat_nibbles [of "drop_bit 16 eax1" "drop_bit 4 eax1"] unat_field [of 4 16 eax1] unat_field [of 4 4 eax1]
    by (auto simp: decode_version_def Let_def and_low_mask)
  moreover have "1 \<le> max_leaf \<longleftrightarrow> max_leaf \<noteq> 0" by (simp add: word_le_nat_alt unat_eq_0 [symmetric] Suc_le_eq del: unat_eq_0)
  moreover have "drivers_init raw_cpuid u =
      (detect raw_cpuid, serial_write (bytes (''  cpuid: detecting CPU'' @ nl) @ CpuInfo_fmt (detect raw_cpuid) @ bytes nl) u)"
    by (simp only: drivers_init_def Let_def SerialOut_serial_write serial_write_append)
  ultimately show ?thesis
    using leaves v vendor_registers [of ebx0 ecx0 edx0]
    by (simp add: detect_def vendor_matches_expected_def Features_decode_def feature_bits)
qed

theorem detect_correct_witness:
  "\<exists>c. vendor_matches_expected (detect c) \<and> unat (ci_family (detect c)) = 6 \<and> unat (ci_model (detect c)) = 158"
proof -
  let ?c = "\<lambda>leaf :: u32. if leaf = 0 then (0x16, 0x756E6547, 0x6C65746E, 0x49656E69) else (0x906EA, 0, 0, 0) :: u32 \<times> u32 \<times> u32 \<times> u32"
  have "?c 0 = (0x16, 0x756E6547, 0x6C65746E, 0x49656E69)" "?c 1 = (0x906EA, 0, 0, 0)" "(591594 :: nat) = unat (0x906EA :: u32)"
    "(6 :: nat) = 591594 div 2 ^ 8 mod 16" by simp_all
  from detect_correct [OF this] show ?thesis by (intro exI [of _ ?c]) simp
qed

end
