(* ===== verification/Ipc_Protocol.thy ===== *)
theory Ipc_Protocol
  imports Rust_Format "HOL-Library.Monad_Syntax"
begin

text \<open>
  The wire protocol of the registration channel (first half of \<open>sentinel/ipc.rs\<close>): the scanner for string fields of a
  flat JSON object, requests and responses in their fixed buffers, the bounded writer, the FNV-1a digest and the
  monotonic clock.  A \<open>str\<close> is the list of its bytes; \<open>from_utf8\<close> is \<open>utf8_valid\<close>.
\<close>

section \<open>Types\<close>

datatype IpcError =
  DeviceNotFound | FeatureNegotiationFailed | QueueSetupFailed | MessageTooLarge | MalformedRequest | NotInitialised

fun ipc_error_str :: "IpcError \<Rightarrow> string" where
  "ipc_error_str DeviceNotFound = ''virtio-serial device not found''"
| "ipc_error_str FeatureNegotiationFailed = ''feature negotiation failed''"
| "ipc_error_str QueueSetupFailed = ''virtqueue setup failed''"
| "ipc_error_str MessageTooLarge = ''message exceeds channel buffer''"
| "ipc_error_str MalformedRequest = ''malformed registration request''"
| "ipc_error_str NotInitialised = ''ipc channel not initialised''"

datatype WireTier = ReadOnly | Write | Execute

definition from_wire :: "u8 list \<Rightarrow> WireTier option" where
  "from_wire s =
     (if s = bytes ''READ_ONLY'' then Some ReadOnly
      else if s = bytes ''WRITE'' then Some Write
      else if s = bytes ''EXECUTE'' then Some Execute
      else None)"

fun as_wire :: "WireTier \<Rightarrow> string" where
  "as_wire ReadOnly = ''READ_ONLY''"
| "as_wire Write = ''WRITE''"
| "as_wire Execute = ''EXECUTE''"

definition MAX_AGENT_ID :: nat where "MAX_AGENT_ID = 128"

record RegisterRequest =
  rr_agent_id :: "u8 list"
  rr_agent_id_len :: nat
  rr_permission_tier :: WireTier

definition str_or_empty :: "u8 list \<Rightarrow> u8 list" where
  "str_or_empty s = (if utf8_valid s then s else [])"

definition request_agent_id :: "RegisterRequest \<Rightarrow> u8 list" where
  "request_agent_id req = str_or_empty (take (rr_agent_id_len req) (rr_agent_id req))"

record RegisterResponse =
  rs_success :: bool
  rs_agent_id :: "u8 list"
  rs_agent_id_len :: nat
  rs_audit_hash :: "u8 list"
  rs_timestamp :: "u8 list"
  rs_timestamp_len :: nat

definition response_agent_id :: "RegisterResponse \<Rightarrow> u8 list" where
  "response_agent_id r = str_or_empty (take (rs_agent_id_len r) (rs_agent_id r))"

definition response_audit_hash :: "RegisterResponse \<Rightarrow> u8 list" where
  "response_audit_hash r = str_or_empty (rs_audit_hash r)"

definition response_timestamp :: "RegisterResponse \<Rightarrow> u8 list" where
  "response_timestamp r = str_or_empty (take (rs_timestamp_len r) (rs_timestamp r))"

section \<open>The field scanner\<close>

definition is_ascii_whitespace :: "u8 \<Rightarrow> bool" where
  "is_ascii_whitespace b \<longleftrightarrow> b \<in> {9, 10, 12, 13, 32}"

abbreviation QUOTE :: u8 where "QUOTE \<equiv> 0x22"
abbreviation BACKSLASH :: u8 where "BACKSLASH \<equiv> 0x5C"
abbreviation COLON :: u8 where "COLON \<equiv> 0x3A"

function find_needle :: "u8 list \<Rightarrow> u8 list \<Rightarrow> nat \<Rightarrow> nat option" where
  "find_needle needle s i =
     (if length s < i + length needle then None
      else if take (length needle) (drop i s) = needle then Some (i + length needle)
      else find_needle needle s (i + 1))"
  by auto
termination by (relation "measure (\<lambda>(needle, s, i). Suc (length s) - i)") auto

function skip_whitespace :: "u8 list \<Rightarrow> nat \<Rightarrow> nat" where
  "skip_whitespace s j = (if j < length s \<and> is_ascii_whitespace (s ! j) then skip_whitespace s (j + 1) else j)"
  by auto
termination by (relation "measure (\<lambda>(s, j). length s - j)") auto

function scan_string :: "u8 list \<Rightarrow> nat \<Rightarrow> nat option" where
  "scan_string s j =
     (if j < length s then
        if s ! j = BACKSLASH then scan_string s (j + 2)
        else if s ! j = QUOTE then Some j
        else scan_string s (j + 1)
      else None)"
  by auto
termination by (relation "measure (\<lambda>(s, j). length s - j)") auto

declare find_needle.simps [simp del] skip_whitespace.simps [simp del] scan_string.simps [simp del]

definition json_string_field :: "u8 list \<Rightarrow> string \<Rightarrow> u8 list option" where
  "json_string_field src key =
     (if 64 < length key + 2 then None
      else do {
        start \<leftarrow> find_needle ([QUOTE] @ bytes key @ [QUOTE]) src 0;
        let j = skip_whitespace src start;
        if length src \<le> j \<or> src ! j \<noteq> COLON then None
        else do {
          let j = skip_whitespace src (j + 1);
          if length src \<le> j \<or> src ! j \<noteq> QUOTE then None
          else do {
            let value_start = j + 1;
            e \<leftarrow> scan_string src value_start;
            str_get value_start e src
          }
        }
      })"

text \<open>Writing a slice into an array at an offset, as \<open>copy_from_slice\<close> does on a range within bounds.\<close>

definition copy_at :: "nat \<Rightarrow> u8 list \<Rightarrow> u8 list \<Rightarrow> u8 list" where
  "copy_at off s buf = take off buf @ s @ drop (off + length s) buf"

definition parse_register_request :: "u8 list \<Rightarrow> IpcError + RegisterRequest" where
  "parse_register_request raw =
     (if \<not> utf8_valid raw then Err MalformedRequest
      else case json_string_field raw ''method'' of
        None \<Rightarrow> Err MalformedRequest
      | Some m \<Rightarrow>
          if m \<noteq> bytes ''register'' then Err MalformedRequest
          else case json_string_field raw ''agent_id'' of
            None \<Rightarrow> Err MalformedRequest
          | Some agent_id \<Rightarrow>
              if MAX_AGENT_ID < length agent_id then Err MessageTooLarge
              else case json_string_field raw ''permission_tier'' of
                None \<Rightarrow> Err MalformedRequest
              | Some tier_str \<Rightarrow>
                  (case from_wire tier_str of
                     None \<Rightarrow> Err MalformedRequest
                   | Some permission_tier \<Rightarrow>
                       Ok \<lparr> rr_agent_id = copy_at 0 agent_id (replicate MAX_AGENT_ID 0), rr_agent_id_len = length agent_id,
                            rr_permission_tier = permission_tier \<rparr>))"

section \<open>The bounded writer\<close>

record FixedWriter =
  fw_buf :: "u8 list"
  fw_pos :: nat
  fw_overflow :: bool

definition FixedWriter_new :: "u8 list \<Rightarrow> FixedWriter" where
  "FixedWriter_new buf = \<lparr> fw_buf = buf, fw_pos = 0, fw_overflow = False \<rparr>"

definition fw_write_str :: "u8 list \<Rightarrow> FixedWriter \<Rightarrow> bool \<times> FixedWriter" where
  "fw_write_str s w =
     (if length (fw_buf w) < fw_pos w + length s then (False, w\<lparr> fw_overflow := True \<rparr>)
      else (True, w\<lparr> fw_buf := copy_at (fw_pos w) s (fw_buf w), fw_pos := fw_pos w + length s \<rparr>))"

text \<open>\<open>write!\<close> writes its pieces in order and stops at the first error.\<close>

fun fw_write :: "u8 list list \<Rightarrow> FixedWriter \<Rightarrow> bool \<times> FixedWriter" where
  "fw_write [] w = (True, w)"
| "fw_write (p # ps) w = (case fw_write_str p w of (ok, w1) \<Rightarrow> if ok then fw_write ps w1 else (False, w1))"

definition response_pieces :: "RegisterResponse \<Rightarrow> u8 list list" where
  "response_pieces resp =
     [[0x7B, QUOTE] @ bytes ''success'' @ [QUOTE, COLON], bytes (if rs_success resp then ''true'' else ''false''),
      [0x2C, QUOTE] @ bytes ''agent_id'' @ [QUOTE, COLON, QUOTE], response_agent_id resp,
      [QUOTE, 0x2C, QUOTE] @ bytes ''audit_hash'' @ [QUOTE, COLON, QUOTE], response_audit_hash resp,
      [QUOTE, 0x2C, QUOTE] @ bytes ''timestamp'' @ [QUOTE, COLON, QUOTE], response_timestamp resp,
      [QUOTE, 0x7D]]"

definition serialize_response :: "RegisterResponse \<Rightarrow> u8 list \<Rightarrow> (IpcError + nat) \<times> u8 list" where
  "serialize_response resp out =
     (case fw_write (response_pieces resp) (FixedWriter_new out) of
        (ok, w) \<Rightarrow> (if \<not> ok \<or> fw_overflow w then Err MessageTooLarge else Ok (fw_pos w), fw_buf w))"

section \<open>Digest and clock\<close>

definition FNV_OFFSET :: u64 where "FNV_OFFSET = 0xcbf29ce484222325"
definition FNV_PRIME :: u64 where "FNV_PRIME = 0x100000001b3"

definition fnv1a :: "u8 list \<Rightarrow> u64" where
  "fnv1a bs = fold (\<lambda>b h. (h XOR ucast b) * FNV_PRIME) bs FNV_OFFSET"

definition hex16 :: "u64 \<Rightarrow> u8 list" where
  "hex16 value = map (\<lambda>i. bytes ''0123456789abcdef'' ! unat (drop_bit ((15 - i) * 4) value AND 0xF)) [0..<16]"

definition audit_hash_for :: "RegisterRequest \<Rightarrow> u8 list" where
  "audit_hash_for req =
     (let buf = replicate (MAX_AGENT_ID + 16) 0;
          id = request_agent_id req;
          buf = copy_at 0 id buf;
          tier = bytes (as_wire (rr_permission_tier req));
          buf = copy_at (length id) tier buf
      in hex16 (fnv1a (take (length id + length tier) buf)))"

text \<open>The counter is the state; \<open>now_string\<close> gives the buffer, the length and the next counter.\<close>

definition now_string :: "u64 \<Rightarrow> (u8 list \<times> nat) \<times> u64" where
  "now_string counter =
     (let (_, w) = fw_write [bytes ''mono+'', bytes (dec (unat counter))] (FixedWriter_new (replicate 24 0))
      in ((fw_buf w, fw_pos w), counter + 1))"

definition build_response :: "RegisterRequest \<Rightarrow> u64 \<Rightarrow> RegisterResponse \<times> u64" where
  "build_response req counter =
     (let ((timestamp, timestamp_len), counter) = now_string counter;
          id = request_agent_id req
      in (\<lparr> rs_success = True, rs_agent_id = copy_at 0 id (replicate MAX_AGENT_ID 0), rs_agent_id_len = length id,
            rs_audit_hash = audit_hash_for req, rs_timestamp = timestamp, rs_timestamp_len = timestamp_len \<rparr>, counter))"

section \<open>The scanner on the rest of the input\<close>

text \<open>
  A reference definition without indices: each step takes the rest of the input and returns what remains.
\<close>

fun after_needle :: "u8 list \<Rightarrow> u8 list \<Rightarrow> u8 list option" where
  "after_needle n [] = (if n = [] then Some [] else None)"
| "after_needle n (b # s) = (if take (length n) (b # s) = n then Some (drop (length n) (b # s)) else after_needle n s)"

fun read_string :: "u8 list \<Rightarrow> u8 list option" where
  "read_string [] = None"
| "read_string (b # s) =
     (if b = BACKSLASH then (case s of [] \<Rightarrow> None | c # s' \<Rightarrow> map_option (\<lambda>v. b # c # v) (read_string s'))
      else if b = QUOTE then Some []
      else map_option ((#) b) (read_string s))"

definition field_value :: "string \<Rightarrow> u8 list \<Rightarrow> u8 list option" where
  "field_value key s =
     (case after_needle ([QUOTE] @ bytes key @ [QUOTE]) s of
        None \<Rightarrow> None
      | Some r \<Rightarrow>
          (case dropWhile is_ascii_whitespace r of
             [] \<Rightarrow> None
           | c # r1 \<Rightarrow>
               if c \<noteq> COLON then None
               else (case dropWhile is_ascii_whitespace r1 of
                       [] \<Rightarrow> None
                     | q # r2 \<Rightarrow> if q \<noteq> QUOTE then None else read_string r2)))"

lemma find_needle_after:
  assumes "n \<noteq> []"
  shows "find_needle n s i = map_option (\<lambda>r. length s - length r) (after_needle n (drop i s))"
  using assms
proof (induction n s i rule: find_needle.induct)
  case (1 n s i)
  note assms = 1(2)
  show ?case
  proof (cases "i < length s")
    case True
    have d: "drop i s = s ! i # drop (Suc i) s" using True by (simp add: Cons_nth_drop_Suc)
    have none: "after_needle n (drop k s) = None" if "length s < k + length n" for k
    proof -
      have "length t < length n \<Longrightarrow> after_needle n t = None" for t
        using assms by (induction t) (auto dest: arg_cong [of _ _ length])
      then show ?thesis using that assms by (cases "k \<le> length s") (auto simp: less_diff_conv)
    qed
    show ?thesis
    proof (cases "length s < i + length n")
      case True
      then show ?thesis using none [of i] by (simp add: find_needle.simps [of n s i])
    next
      case False
      then show ?thesis using 1 True d by (auto simp: find_needle.simps [of n s i])
    qed
  next
    case False
    then have "length s < i + length n" using assms by (cases n) simp_all
    then show ?thesis using False assms by (simp add: find_needle.simps [of n s i])
  qed
qed

lemma skip_whitespace_drop: "drop (skip_whitespace s j) s = dropWhile is_ascii_whitespace (drop j s)"
proof (induction s j rule: skip_whitespace.induct)
  case (1 s j)
  show ?case
  proof (cases "j < length s")
    case True
    then have "drop j s = s ! j # drop (Suc j) s" by (simp add: Cons_nth_drop_Suc)
    then show ?thesis using 1 True by (cases "is_ascii_whitespace (s ! j)") (simp_all add: skip_whitespace.simps [of s j])
  qed (simp add: skip_whitespace.simps [of s j])
qed

lemma scan_string_read:
  "map_option (\<lambda>e. take (e - j) (drop j s)) (scan_string s j) = read_string (drop j s) \<and>
   (\<forall>e. scan_string s j = Some e \<longrightarrow> j \<le> e \<and> e < length s \<and> s ! e = QUOTE)"
proof (induction s j rule: scan_string.induct)
  case (1 s j)
  show ?case
  proof (cases "j < length s")
    case True
    have d: "drop j s = s ! j # drop (Suc j) s" using True by (simp add: Cons_nth_drop_Suc)
    consider (esc) "s ! j = BACKSLASH" | (quote) "s ! j = QUOTE" | (char) "s ! j \<noteq> BACKSLASH" "s ! j \<noteq> QUOTE" by blast
    then show ?thesis
    proof cases
      case esc
      have t: "take (e - j) (drop j s) = BACKSLASH # s ! Suc j # take (e - (j + 2)) (drop (j + 2) s)"
        if "j + 2 \<le> e" "Suc j < length s" for e
      proof -
        have "e - j = Suc (Suc (e - (j + 2)))" using that by simp
        moreover have "drop (Suc j) s = s ! Suc j # drop (j + 2) s" using that by (simp add: Cons_nth_drop_Suc)
        ultimately show ?thesis using d esc by simp
      qed
      show ?thesis
      proof (cases "Suc j < length s")
        case t2: True
        then have "drop (Suc j) s = s ! Suc j # drop (j + 2) s" by (simp add: Cons_nth_drop_Suc)
        then show ?thesis
          using 1(1) [OF True esc] True esc d t [OF _ t2]
          by (cases "scan_string s (j + 2)"; cases "read_string (drop (j + 2) s)") (simp_all add: scan_string.simps [of s j])
      next
        case False
        then have "scan_string s (j + 2) = None" by (subst scan_string.simps) simp
        then show ?thesis using False True esc d by (simp add: scan_string.simps [of s j])
      qed
    next
      case quote
      then show ?thesis using True d by (auto simp: scan_string.simps [of s j])
    next
      case char
      have t: "take (e - j) (drop j s) = s ! j # take (e - (j + 1)) (drop (j + 1) s)" if "j + 1 \<le> e" for e
      proof -
        have "e - j = Suc (e - (j + 1))" using that by simp
        then show ?thesis using d by simp
      qed
      show ?thesis
        using 1(2) [OF True char] True char d t
        by (cases "scan_string s (j + 1)"; cases "read_string (drop (j + 1) s)") (simp_all add: scan_string.simps [of s j])
    qed
  qed (simp add: scan_string.simps [of s j])
qed

lemma after_needle_split: "after_needle n s = Some r \<Longrightarrow> \<exists>p. s = p @ n @ r"
proof (induction n s rule: after_needle.induct)
  case (2 n b s)
  show ?case
  proof (cases "take (length n) (b # s) = n")
    case True
    then have "b # s = n @ r" using 2(2) append_take_drop_id [of "length n" "b # s"] by simp
    then show ?thesis by (intro exI [of _ "[]"]) simp
  next
    case False
    then obtain p where "s = p @ n @ r" using 2 by auto
    then show ?thesis by (intro exI [of _ "b # p"]) simp
  qed
qed (simp split: if_splits)

lemma drop_eq_Cons: "drop j s = c # r \<Longrightarrow> j < length s \<and> s ! j = c \<and> drop (Suc j) s = r"
  by (metis Cons_nth_drop_Suc drop_all linorder_not_le list.discI list.inject)

lemma json_string_field_value:
  assumes "utf8_valid src" "length key \<le> 62"
  shows "json_string_field src key = field_value key src"
proof (cases "after_needle ([QUOTE] @ bytes key @ [QUOTE]) src")
  case None
  then show ?thesis using assms by (simp add: json_string_field_def field_value_def find_needle_after)
next
  case (Some r)
  define start where "start = length src - length r"
  define j1 where "j1 = skip_whitespace src start"
  define j2 where "j2 = skip_whitespace src (Suc j1)"
  have f: "find_needle ([QUOTE] @ bytes key @ [QUOTE]) src 0 = Some start" using Some by (simp add: find_needle_after start_def)
  obtain p where p: "src = (p @ [QUOTE] @ bytes key @ [QUOTE]) @ r" using after_needle_split [OF Some] by auto
  have "drop start src = r" unfolding start_def p by simp
  then have d1: "drop j1 src = dropWhile is_ascii_whitespace r" by (simp add: j1_def skip_whitespace_drop)
  show ?thesis
  proof (cases "dropWhile is_ascii_whitespace r")
    case Nil
    then have "length src \<le> j1" using d1 by (metis drop_eq_Nil)
    then show ?thesis using assms f Some Nil by (simp add: json_string_field_def field_value_def j1_def Let_def del: dropWhile_eq_Nil_conv)
  next
    case (Cons c r1)
    have c: "j1 < length src" "src ! j1 = c" "drop (Suc j1) src = r1" using drop_eq_Cons [of j1 src c r1] d1 Cons by simp_all
    have d2: "drop j2 src = dropWhile is_ascii_whitespace r1" by (simp add: j2_def skip_whitespace_drop c)
    have j: "json_string_field src key =
        (if c \<noteq> COLON \<or> length src \<le> j2 \<or> src ! j2 \<noteq> QUOTE then None
         else Option.bind (scan_string src (Suc j2)) (\<lambda>e. str_get (Suc j2) e src))"
      using assms f c by (simp add: json_string_field_def j1_def [symmetric] j2_def [symmetric] Let_def)
    show ?thesis
    proof (cases "dropWhile is_ascii_whitespace r1")
      case Nil
      then have "length src \<le> j2" using d2 by (metis drop_eq_Nil)
      then show ?thesis using j Nil Cons Some by (simp add: field_value_def del: dropWhile_eq_Nil_conv)
    next
      case q: (Cons q r2)
      have q2: "j2 < length src" "src ! j2 = q" "drop (Suc j2) src = r2" using drop_eq_Cons [of j2 src q r2] d2 q by simp_all
      have "Option.bind (scan_string src (Suc j2)) (\<lambda>e. str_get (Suc j2) e src) = read_string r2" if "q = QUOTE"
      proof -
        note scan = scan_string_read [where j = "Suc j2" and s = src]
        have "is_char_boundary (Suc j2) src" using boundary_at_ascii(2) [OF assms(1) q2(1)] q2(2) that by simp
        then have "str_get (Suc j2) e src = Some (take (e - Suc j2) (drop (Suc j2) src))" if "scan_string src (Suc j2) = Some e" for e
          using scan that boundary_at_ascii(1) [OF assms(1), of e] by (simp add: str_get_def)
        then show ?thesis using scan q2(3) by (cases "scan_string src (Suc j2)") auto
      qed
      then show ?thesis using j Cons q q2 Some by (simp add: field_value_def)
    qed
  qed
qed

section \<open>Texts as quoted tokens\<close>

definition needle_of :: "u8 list \<Rightarrow> u8 list" where
  "needle_of k = [QUOTE] @ k @ [QUOTE]"

lemma after_needle_skip:
  "QUOTE \<notin> set t \<Longrightarrow> after_needle (needle_of k) (t @ QUOTE # r) = after_needle (needle_of k) (QUOTE # r)"
  by (induction t) (auto simp: needle_of_def)

lemma token_match:
  "QUOTE \<notin> set k \<Longrightarrow> QUOTE \<notin> set t \<Longrightarrow> take (Suc (length k)) (t @ QUOTE # r) = k @ [QUOTE] \<longleftrightarrow> t = k"
proof (induction k arbitrary: t)
  case Nil
  then show ?case by (cases t) auto
next
  case (Cons a k)
  then show ?case by (cases t) auto
qed

lemma after_needle_token:
  assumes "QUOTE \<notin> set k" "QUOTE \<notin> set t"
  shows "after_needle (needle_of k) (QUOTE # t @ QUOTE # r) =
    (if t = k then Some r else after_needle (needle_of k) (QUOTE # r))"
  using token_match [OF assms, of r] after_needle_skip [OF assms(2), of k r] by (auto simp: needle_of_def)

fun tokens :: "u8 list list \<Rightarrow> u8 list" where
  "tokens [] = []"
| "tokens [t] = t"
| "tokens (t # t' # ts) = t @ QUOTE # tokens (t' # ts)"

fun find_token :: "u8 list \<Rightarrow> u8 list list \<Rightarrow> u8 list option" where
  "find_token k (t # t' # ts) = (if t = k then Some (tokens (t' # ts)) else find_token k (t' # ts))"
| "find_token k _ = None"

lemma after_needle_tokens:
  assumes "QUOTE \<notin> set k" "\<forall>t \<in> set (t0 # t1 # ts). QUOTE \<notin> set t"
  shows "after_needle (needle_of k) (tokens (t0 # t1 # ts)) = find_token k (t1 # ts)"
proof -
  have "after_needle (needle_of k) (QUOTE # tokens (t1 # ts)) = find_token k (t1 # ts)"
    using assms(2)
  proof (induction ts arbitrary: t1)
    case Nil
    have "after_needle (needle_of k) (QUOTE # t1) \<noteq> Some r" for r
    proof
      assume "after_needle (needle_of k) (QUOTE # t1) = Some r"
      then obtain p where "QUOTE # t1 = p @ QUOTE # k @ QUOTE # r"
        using after_needle_split by (fastforce simp: needle_of_def)
      then show False using Nil by (cases p) auto
    qed
    then show ?case by (cases "after_needle (needle_of k) (QUOTE # t1)") auto
  next
    case (Cons t ts)
    then show ?case using after_needle_token [OF assms(1), of t1 "tokens (t # ts)"] by simp
  qed
  then show ?thesis using assms(2) after_needle_skip [of t0 k "tokens (t1 # ts)"] by simp
qed

lemma read_string_again: "read_string s = Some v \<Longrightarrow> read_string (v @ QUOTE # r) = Some v"
  by (induction s arbitrary: v rule: read_string.induct) (auto split: if_splits list.splits)

lemma read_string_plain: "QUOTE \<notin> set v \<Longrightarrow> BACKSLASH \<notin> set v \<Longrightarrow> read_string (v @ QUOTE # r) = Some v"
  by (induction v) auto

lemma field_value_at:
  assumes "after_needle (needle_of (bytes key)) s = Some (COLON # QUOTE # r)"
  shows "field_value key s = read_string r"
  using assms by (simp add: field_value_def needle_of_def is_ascii_whitespace_def)

section \<open>Requests\<close>

text \<open>The text of a request as the protocol documents it.\<close>

definition request_tokens :: "u8 list \<Rightarrow> WireTier \<Rightarrow> u8 list list" where
  "request_tokens ident tier =
     [[0x7B], bytes ''method'', [COLON], bytes ''register'', [0x2C], bytes ''agent_id'', [COLON], ident, [0x2C],
      bytes ''permission_tier'', [COLON], bytes (as_wire tier), [0x7D]]"

definition request_text :: "u8 list \<Rightarrow> WireTier \<Rightarrow> u8 list" where
  "request_text ident tier = tokens (request_tokens ident tier)"

lemma key_bytes:
  "QUOTE \<notin> set (bytes ''method'')" "QUOTE \<notin> set (bytes ''agent_id'')" "QUOTE \<notin> set (bytes ''permission_tier'')"
  "QUOTE \<notin> set (bytes ''register'')" "QUOTE \<notin> set (bytes (as_wire tier))" "BACKSLASH \<notin> set (bytes (as_wire tier))"
  "BACKSLASH \<notin> set (bytes ''register'')"
  by (simp_all add: bytes_def) (cases tier; simp)+

lemma single_byte [simp]: "length k \<noteq> 1 \<Longrightarrow> [b] \<noteq> bytes k"
  by (auto simp: bytes_def dest: arg_cong [of _ _ length])

lemma from_wire_as_wire [simp]: "from_wire (bytes (as_wire tier)) = Some tier"
  by (cases tier) (simp_all add: from_wire_def)

lemma utf8_valid_embed:
  assumes "utf8_valid ident" "\<forall>b \<in> set a. b \<le> 0x7F" "\<forall>b \<in> set c. b \<le> 0x7F"
  shows "utf8_valid (a @ ident @ QUOTE # c)"
proof -
  have n: "\<not> cont_byte QUOTE" by (simp add: cont_byte_def)
  have "utf8_valid (ident @ QUOTE # c)"
    using assms n utf8_valid_append [of "QUOTE # c" ident] utf8_valid_ascii [of "QUOTE # c"] by simp
  moreover have "\<not> cont_byte (hd (ident @ QUOTE # c))"
    using assms(1) n utf8_valid_hd by (cases ident) auto
  ultimately show ?thesis using utf8_valid_append [of "ident @ QUOTE # c" a] utf8_valid_ascii [OF assms(2)] by simp
qed

lemma request_text_valid:
  assumes "utf8_valid ident"
  shows "utf8_valid (request_text ident tier)"
proof -
  let ?a = "tokens [[0x7B], bytes ''method'', [COLON], bytes ''register'', [0x2C], bytes ''agent_id'', [COLON], []]"
  let ?c = "tokens [[0x2C], bytes ''permission_tier'', [COLON], bytes (as_wire tier), [0x7D]]"
  have e: "request_text ident tier = ?a @ ident @ QUOTE # ?c" by (simp add: request_text_def request_tokens_def)
  have a: "\<forall>b \<in> set ?a. b \<le> 0x7F" by (simp add: bytes_def)
  have c: "\<forall>b \<in> set ?c. b \<le> 0x7F" by (cases tier) (simp_all add: bytes_def)
  show ?thesis unfolding e by (rule utf8_valid_embed [OF assms a c])
qed

lemma request_fields:
  assumes id: "QUOTE \<notin> set ident" "BACKSLASH \<notin> set ident"
  shows "field_value ''method'' (request_text ident tier) = Some (bytes ''register'')"
    "field_value ''agent_id'' (request_text ident tier) = Some ident"
    "field_value ''permission_tier'' (request_text ident tier) =
       (if ident = bytes ''permission_tier'' then None else Some (bytes (as_wire tier)))"
proof -
  have q: "\<forall>t \<in> set (request_tokens ident tier). QUOTE \<notin> set t" using id key_bytes by (simp add: request_tokens_def)
  have find: "after_needle (needle_of k) (request_text ident tier) = find_token k (tl (request_tokens ident tier))" if "QUOTE \<notin> set k" for k
    using after_needle_tokens [OF that, of "hd (request_tokens ident tier)" "request_tokens ident tier ! 1" "drop 2 (request_tokens ident tier)"] q
    by (simp add: request_text_def request_tokens_def)
  note r = read_string_plain [OF id] read_string_plain [OF key_bytes(4,7)] read_string_plain [OF key_bytes(5,6)]
  show "field_value ''method'' (request_text ident tier) = Some (bytes ''register'')"
    by (rule trans [OF field_value_at], simp add: find key_bytes request_tokens_def, simp add: r)
  show "field_value ''agent_id'' (request_text ident tier) = Some ident"
    by (rule trans [OF field_value_at], simp add: find key_bytes request_tokens_def, simp add: r)
  show "field_value ''permission_tier'' (request_text ident tier) =
       (if ident = bytes ''permission_tier'' then None else Some (bytes (as_wire tier)))"
  proof (cases "ident = bytes ''permission_tier''")
    case True
    then have "after_needle (needle_of (bytes ''permission_tier'')) (request_text ident tier) =
        Some (0x2C # QUOTE # bytes ''permission_tier'' @ QUOTE # [COLON] @ QUOTE # bytes (as_wire tier) @ QUOTE # [0x7D])"
      using find [OF key_bytes(3)] by (simp add: request_tokens_def)
    then show ?thesis using True by (simp add: field_value_def needle_of_def is_ascii_whitespace_def)
  next
    case False
    show ?thesis
      by (rule trans [OF field_value_at], simp add: find key_bytes request_tokens_def False, simp add: r False)
  qed
qed

lemma copy_at_replicate: "length s \<le> n \<Longrightarrow> take (length s) (copy_at 0 s (replicate n 0)) = s"
  by (simp add: copy_at_def)

lemma parse_ok:
  assumes "parse_register_request raw = Ok req"
  shows "utf8_valid raw" "field_value ''agent_id'' raw = Some (request_agent_id req)" "length (request_agent_id req) \<le> 128"
    "utf8_valid (request_agent_id req)" "rr_agent_id_len req = length (request_agent_id req)"
    "field_value ''permission_tier'' raw = Some (bytes (as_wire (rr_permission_tier req)))"
proof -
  show v: "utf8_valid raw" using assms by (simp add: parse_register_request_def split: if_splits)
  note eq = json_string_field_value [OF v]
  obtain ident tier where f: "field_value ''agent_id'' raw = Some ident" "length ident \<le> 128" "field_value ''permission_tier'' raw = Some tier"
    "from_wire tier = Some (rr_permission_tier req)" "req = \<lparr> rr_agent_id = copy_at 0 ident (replicate 128 0), rr_agent_id_len = length ident,
      rr_permission_tier = rr_permission_tier req \<rparr>"
    using assms v by (auto simp: parse_register_request_def eq MAX_AGENT_ID_def split: if_splits option.splits)
  have "json_string_field raw ''agent_id'' = Some ident" using f(1) eq by simp
  then obtain a b where "str_get a b raw = Some ident"
    unfolding json_string_field_def by (auto simp: bind_eq_Some_conv Let_def split: if_splits)
  then have u: "utf8_valid ident" using utf8_valid_slice [OF v] by blast
  have "take (length ident) (copy_at 0 ident (replicate 128 0)) = ident" using copy_at_replicate [OF f(2)] by simp
  then have r: "request_agent_id req = ident" using u by (subst f(5)) (simp add: request_agent_id_def str_or_empty_def)
  show "field_value ''agent_id'' raw = Some (request_agent_id req)" "length (request_agent_id req) \<le> 128"
    "utf8_valid (request_agent_id req)" using r f u by simp_all
  show "rr_agent_id_len req = length (request_agent_id req)" using r by (subst f(5)) simp
  have "tier = bytes (as_wire (rr_permission_tier req))" using f(4) by (auto simp: from_wire_def split: if_splits)
  then show "field_value ''permission_tier'' raw = Some (bytes (as_wire (rr_permission_tier req)))" using f(3) by simp
qed

section \<open>Responses\<close>

lemma copy_at_copy_at:
  "pos + length p + length q \<le> length buf \<Longrightarrow> copy_at (pos + length p) q (copy_at pos p buf) = copy_at pos (p @ q) buf"
  by (simp add: copy_at_def add.commute add.left_commute)

lemma copy_at_length [simp]: "pos + length p \<le> length buf \<Longrightarrow> length (copy_at pos p buf) = length buf"
  by (simp add: copy_at_def)

lemma copy_at_Nil [simp]: "copy_at pos [] buf = buf"
  by (simp add: copy_at_def)

lemma fw_write_fits:
  assumes "fw_pos w + length (concat ps) \<le> length (fw_buf w)"
  shows "fw_write ps w = (True, w\<lparr> fw_buf := copy_at (fw_pos w) (concat ps) (fw_buf w), fw_pos := fw_pos w + length (concat ps) \<rparr>)"
  using assms
proof (induction ps arbitrary: w)
  case (Cons p ps)
  let ?w = "w\<lparr> fw_buf := copy_at (fw_pos w) p (fw_buf w), fw_pos := fw_pos w + length p \<rparr>"
  have "fw_write_str p w = (True, ?w)" using Cons.prems by (simp add: fw_write_str_def)
  then show ?case using Cons.IH [of ?w] Cons.prems by (simp add: copy_at_copy_at add.assoc)
qed simp

lemma length_dec: "0 < k \<Longrightarrow> length (dec n) \<le> k \<longleftrightarrow> n < 10 ^ k"
proof (induction n arbitrary: k rule: dec.induct)
  case (1 n)
  show ?case
  proof (cases "n < 10")
    case True
    have "(10 :: nat) ^ 1 \<le> 10 ^ k" using 1(2) by (intro power_increasing) simp_all
    then show ?thesis using True 1(2) by (simp add: dec.simps [of n] Suc_le_eq)
  next
    case False
    then have d: "length (dec n) = Suc (length (dec (n div 10)))" by (simp add: dec.simps [of n])
    have pos: "0 < length (dec m)" for m by (simp add: dec.simps [of m])
    show ?thesis
    proof (cases "k = 1")
      case True
      then show ?thesis using False d pos [of "n div 10"] by simp
    next
      case k: False
      then obtain j where j: "k = Suc j" "0 < j" using 1(2) by (cases k) auto
      have "n div 10 < 10 ^ j \<longleftrightarrow> n < 10 ^ j * 10" by (rule div_less_iff_less_mult) simp
      then show ?thesis using 1(1) [OF False j(2)] d j by (simp add: mult.commute)
    qed
  qed
qed

text \<open>
  The clock: below ten to the nineteenth the whole number is printed; from there on it does not fit the 24 bytes and
  only the prefix remains, although the source calls the write infallible.
\<close>

definition timestamp_text :: "u64 \<Rightarrow> u8 list" where
  "timestamp_text counter = (if unat counter < 10 ^ 19 then bytes ''mono+'' @ bytes (dec (unat counter)) else bytes ''mono+'')"

lemma length_bytes [simp]: "length (bytes s) = length s"
  by (simp add: bytes_def)

lemma bytes_append [simp]: "bytes (s @ t) = bytes s @ bytes t"
  by (simp add: bytes_def)

lemma now_string_text:
  obtains buf len where "now_string counter = ((buf, len), counter + 1)" "take len buf = timestamp_text counter"
    "length (timestamp_text counter) \<le> 24"
proof -
  let ?d = "bytes (dec (unat counter))"
  show thesis
  proof (cases "unat counter < 10 ^ 19")
    case True
    then have l: "length (dec (unat counter)) \<le> 19" using length_dec [of 19 "unat counter"] by simp
    note f = fw_write_fits [of "FixedWriter_new (replicate 24 0)" "[bytes ''mono+'', ?d]"]
    have "now_string counter = ((copy_at 0 (bytes ''mono+'' @ ?d) (replicate 24 0), 5 + length ?d), counter + 1)"
      using f l by (simp add: now_string_def FixedWriter_new_def)
    moreover have "take (5 + length ?d) (copy_at 0 (bytes ''mono+'' @ ?d) (replicate 24 0)) = bytes ''mono+'' @ ?d"
      by (simp add: copy_at_def)
    ultimately show thesis using that l True by (simp add: timestamp_text_def)
  next
    case False
    then have l: "19 < length (dec (unat counter))" using length_dec [of 19 "unat counter"] by simp
    have "now_string counter = ((copy_at 0 (bytes ''mono+'') (replicate 24 0), 5), counter + 1)"
      using l by (simp add: now_string_def FixedWriter_new_def fw_write_str_def)
    moreover have "take 5 (copy_at 0 (bytes ''mono+'') (replicate 24 0)) = bytes ''mono+''" by (simp add: copy_at_def)
    ultimately show thesis using that False by (simp add: timestamp_text_def)
  qed
qed

lemma hex16_ascii: "length (hex16 v) = 16" "\<forall>b \<in> set (hex16 v). b \<le> 0x7F"
proof -
  show "length (hex16 v) = 16" by (simp add: hex16_def)
  have "bytes ''0123456789abcdef'' ! k \<le> 0x7F" if "k < 16" for k
  proof -
    have "bytes ''0123456789abcdef'' ! k \<in> set (bytes ''0123456789abcdef'')" using that by (intro nth_mem) simp
    then show ?thesis by (auto simp: bytes_def)
  qed
  moreover have "unat (w AND 0xF) < 16" for w :: u64
    using word_and_le1 [of w "0xF"] by (simp add: word_le_nat_alt and.commute)
  ultimately show "\<forall>b \<in> set (hex16 v). b \<le> 0x7F" by (auto simp: hex16_def)
qed

text \<open>The digest is the published function: the empty string, \<open>a\<close> and \<open>foobar\<close>.\<close>

lemma fnv1a_vectors:
  "fnv1a [] = 0xcbf29ce484222325" "fnv1a (bytes ''a'') = 0xaf63dc4c8601ec8c" "fnv1a (bytes ''foobar'') = 0x85944171f73967e8"
  by (simp_all add: fnv1a_def FNV_OFFSET_def FNV_PRIME_def bytes_def)

definition response_text :: "RegisterRequest \<Rightarrow> u64 \<Rightarrow> u8 list" where
  "response_text req counter =
     [0x7B] @ QUOTE # bytes ''success'' @ QUOTE # ([COLON] @ bytes ''true'' @ [0x2C]) @ QUOTE # bytes ''agent_id'' @ QUOTE # COLON #
     QUOTE # request_agent_id req @ QUOTE # [0x2C] @ QUOTE # bytes ''audit_hash'' @ QUOTE # COLON #
     QUOTE # hex16 (fnv1a (request_agent_id req @ bytes (as_wire (rr_permission_tier req)))) @
     QUOTE # [0x2C] @ QUOTE # bytes ''timestamp'' @ QUOTE # COLON # QUOTE # timestamp_text counter @ [QUOTE, 0x7D]"

lemma audit_hash_text:
  assumes "length (request_agent_id req) \<le> 128"
  shows "audit_hash_for req = hex16 (fnv1a (request_agent_id req @ bytes (as_wire (rr_permission_tier req))))"
proof -
  have "length (as_wire (rr_permission_tier req)) \<le> 16" by (cases "rr_permission_tier req") simp_all
  then have "copy_at (length (request_agent_id req)) (bytes (as_wire (rr_permission_tier req)))
      (copy_at 0 (request_agent_id req) (replicate 144 0)) =
    copy_at 0 (request_agent_id req @ bytes (as_wire (rr_permission_tier req))) (replicate 144 0)"
    using copy_at_copy_at [of 0 "request_agent_id req" "bytes (as_wire (rr_permission_tier req))" "replicate 144 0"] assms by simp
  then show ?thesis by (simp add: audit_hash_for_def MAX_AGENT_ID_def Let_def) (simp add: copy_at_def)
qed

lemma timestamp_ascii: "\<forall>b \<in> set (timestamp_text c). b \<le> 0x7F"
proof -
  have "of_nat (of_char ch) \<le> (0x7F :: u8)" if "digit_char ch" for ch
    using that by (auto simp: digit_char_def word_le_nat_alt unat_of_nat)
  then show ?thesis using dec_digits [of _ "unat c"] by (auto simp: timestamp_text_def bytes_def)
qed

lemma response_correct:
  assumes id: "length (request_agent_id req) \<le> 128" "utf8_valid (request_agent_id req)" and out: "length out = 4096"
  shows "\<exists>resp buf. build_response req counter = (resp, counter + 1) \<and>
    serialize_response resp out = (Ok (length (response_text req counter)), buf) \<and>
    take (length (response_text req counter)) buf = response_text req counter \<and> length buf = 4096 \<and>
    length (response_text req counter) \<le> 300"
proof -
  obtain tb tl where t: "now_string counter = ((tb, tl), counter + 1)" "take tl tb = timestamp_text counter"
    "length (timestamp_text counter) \<le> 24" by (rule now_string_text)
  let ?id = "request_agent_id req"
  define resp where "resp = \<lparr> rs_success = True, rs_agent_id = copy_at 0 ?id (replicate MAX_AGENT_ID 0), rs_agent_id_len = length ?id,
      rs_audit_hash = audit_hash_for req, rs_timestamp = tb, rs_timestamp_len = tl \<rparr>"
  have b: "build_response req counter = (resp, counter + 1)" using t(1) by (simp add: build_response_def resp_def Let_def)
  have "response_agent_id resp = ?id"
    using copy_at_replicate [OF id(1)] id(2) by (simp add: response_agent_id_def resp_def str_or_empty_def MAX_AGENT_ID_def)
  moreover have "response_audit_hash resp = audit_hash_for req"
    using utf8_valid_ascii [OF hex16_ascii(2)] audit_hash_text [OF id(1)]
    by (simp add: response_audit_hash_def resp_def str_or_empty_def)
  moreover have "response_timestamp resp = timestamp_text counter"
    using utf8_valid_ascii [OF timestamp_ascii] t(2) by (simp add: response_timestamp_def resp_def str_or_empty_def)
  ultimately have p: "concat (response_pieces resp) = response_text req counter"
    using audit_hash_text [OF id(1)] by (simp add: response_pieces_def response_text_def resp_def)
  have l: "length (response_text req counter) \<le> 300" using id(1) t(3) by (simp add: response_text_def hex16_ascii)
  have "fw_write (response_pieces resp) (FixedWriter_new out) =
      (True, (FixedWriter_new out)\<lparr> fw_buf := copy_at 0 (response_text req counter) out, fw_pos := length (response_text req counter) \<rparr>)"
    using fw_write_fits [of "FixedWriter_new out" "response_pieces resp"] p l out by (simp add: FixedWriter_new_def)
  then have "serialize_response resp out = (Ok (length (response_text req counter)), copy_at 0 (response_text req counter) out)"
    by (simp add: serialize_response_def FixedWriter_new_def)
  moreover have "take (length (response_text req counter)) (copy_at 0 (response_text req counter) out) = response_text req counter"
    by (simp add: copy_at_def)
  ultimately show ?thesis using b l out by (intro exI [of _ resp] exI [of _ "copy_at 0 (response_text req counter) out"]) simp
qed

lemma response_echoes:
  assumes "parse_register_request raw = Ok req"
  shows "json_string_field (response_text req counter) ''agent_id'' = Some (request_agent_id req)"
proof -
  let ?id = "request_agent_id req"
  note p = parse_ok [OF assms]
  obtain s where s: "read_string s = Some ?id"
    using p(2) by (auto simp: field_value_def split: option.splits list.splits if_splits)
  define tail where "tail = [0x2C] @ QUOTE # bytes ''audit_hash'' @ QUOTE # COLON #
     QUOTE # hex16 (fnv1a (?id @ bytes (as_wire (rr_permission_tier req)))) @
     QUOTE # [0x2C] @ QUOTE # bytes ''timestamp'' @ QUOTE # COLON # QUOTE # timestamp_text counter @ [QUOTE, 0x7D]"
  let ?r = "COLON # QUOTE # ?id @ QUOTE # tail"
  have r: "response_text req counter =
      [0x7B] @ QUOTE # bytes ''success'' @ QUOTE # ([COLON] @ bytes ''true'' @ [0x2C]) @ QUOTE # bytes ''agent_id'' @ QUOTE # ?r"
    by (simp only: response_text_def tail_def append_assoc append_Cons)
  have "\<forall>b \<in> set tail. b \<le> 0x7F" using hex16_ascii(2) timestamp_ascii by (auto simp: tail_def bytes_def)
  then have "utf8_valid (([0x7B] @ QUOTE # bytes ''success'' @ QUOTE # ([COLON] @ bytes ''true'' @ [0x2C]) @ QUOTE # bytes ''agent_id'' @
      [QUOTE, COLON, QUOTE]) @ ?id @ QUOTE # tail)"
    by (intro utf8_valid_embed p(4)) (simp_all add: bytes_def)
  then have v: "utf8_valid (response_text req counter)" unfolding r by simp
  let ?find = "after_needle (needle_of (bytes ''agent_id''))" and ?m = "[COLON] @ bytes ''true'' @ [0x2C]"
  have q: "QUOTE \<notin> set (bytes ''success'')" "QUOTE \<notin> set ?m" by (simp_all add: bytes_def)
  have "?m \<noteq> bytes ''agent_id''" by (auto dest: arg_cong [of _ _ length])
  then have "?find (QUOTE # ?m @ QUOTE # bytes ''agent_id'' @ QUOTE # ?r) = Some ?r"
    using after_needle_token [OF key_bytes(2) q(2)] after_needle_token [OF key_bytes(2,2)] by simp
  then have "?find (QUOTE # bytes ''success'' @ QUOTE # ?m @ QUOTE # bytes ''agent_id'' @ QUOTE # ?r) = Some ?r"
    using after_needle_token [OF key_bytes(2) q(1)] by simp
  then have "?find (response_text req counter) = Some ?r"
    unfolding r using after_needle_skip [of "[0x7B]"] by simp
  then have "field_value ''agent_id'' (response_text req counter) = Some ?id"
    using field_value_at read_string_again [OF s] by simp
  then show ?thesis using json_string_field_value [OF v] by simp
qed

section \<open>Properties\<close>



end
