(* ===== verification/Ipc_Channel.thy ===== *)
theory Ipc_Channel
  imports Ipc_Protocol
begin

text \<open>
  The registration channel (second half of \<open>sentinel/ipc.rs\<close>): device discovery, feature negotiation, the split
  virtqueues with one buffer in flight, and the request/response service \<open>handle_one\<close>.

  The device is not part of the kernel: what it does on a register read, on a register write and, between two polls of
  the driver, to the two queues in memory are functions of a platform record, an argument of every operation.  The
  addresses of the two static queues are part of it.  Polling for a device that never answers does not return
  (\<open>None\<close>).  The spin lock around the channel is not modelled: every operation is one step.
\<close>

section \<open>Registers\<close>

definition MAGIC_VALUE :: u64 where "MAGIC_VALUE = 0x000"
definition VERSION :: u64 where "VERSION = 0x004"
definition DEVICE_ID :: u64 where "DEVICE_ID = 0x008"
definition DEVICE_FEATURES :: u64 where "DEVICE_FEATURES = 0x010"
definition DEVICE_FEATURES_SEL :: u64 where "DEVICE_FEATURES_SEL = 0x014"
definition DRIVER_FEATURES :: u64 where "DRIVER_FEATURES = 0x020"
definition DRIVER_FEATURES_SEL :: u64 where "DRIVER_FEATURES_SEL = 0x024"
definition QUEUE_SEL :: u64 where "QUEUE_SEL = 0x030"
definition QUEUE_NUM_MAX :: u64 where "QUEUE_NUM_MAX = 0x034"
definition QUEUE_NUM :: u64 where "QUEUE_NUM = 0x038"
definition QUEUE_READY :: u64 where "QUEUE_READY = 0x044"
definition QUEUE_NOTIFY :: u64 where "QUEUE_NOTIFY = 0x050"
definition STATUS :: u64 where "STATUS = 0x070"
definition QUEUE_DESC_LOW :: u64 where "QUEUE_DESC_LOW = 0x080"
definition QUEUE_DESC_HIGH :: u64 where "QUEUE_DESC_HIGH = 0x084"
definition QUEUE_DRIVER_LOW :: u64 where "QUEUE_DRIVER_LOW = 0x090"
definition QUEUE_DRIVER_HIGH :: u64 where "QUEUE_DRIVER_HIGH = 0x094"
definition QUEUE_DEVICE_LOW :: u64 where "QUEUE_DEVICE_LOW = 0x0a0"
definition QUEUE_DEVICE_HIGH :: u64 where "QUEUE_DEVICE_HIGH = 0x0a4"

definition MAGIC :: u32 where "MAGIC = 0x74726976"
definition VERSION_MODERN :: u32 where "VERSION_MODERN = 2"
definition DEVICE_ID_CONSOLE :: u32 where "DEVICE_ID_CONSOLE = 3"

definition STATUS_ACKNOWLEDGE :: u32 where "STATUS_ACKNOWLEDGE = 1"
definition STATUS_DRIVER :: u32 where "STATUS_DRIVER = 2"
definition STATUS_DRIVER_OK :: u32 where "STATUS_DRIVER_OK = 4"
definition STATUS_FEATURES_OK :: u32 where "STATUS_FEATURES_OK = 8"

definition VIRTIO_F_VERSION_1 :: u64 where "VIRTIO_F_VERSION_1 = push_bit 32 1"
definition VIRTIO_CONSOLE_F_MULTIPORT :: u64 where "VIRTIO_CONSOLE_F_MULTIPORT = push_bit 1 1"

section \<open>Queues\<close>

definition QUEUE_SIZE :: nat where "QUEUE_SIZE = 16"
definition BUF_SIZE :: nat where "BUF_SIZE = 4096"
definition VIRTQ_DESC_F_WRITE :: u16 where "VIRTQ_DESC_F_WRITE = 2"

record VirtqDesc =
  vd_addr :: u64
  vd_len :: u32
  vd_flags :: u16
  vd_next :: u16

record VirtqAvail =
  va_flags :: u16
  va_idx :: u16
  va_ring :: "u16 list"
  va_used_event :: u16

record VirtqUsedElem =
  ue_id :: u32
  ue_len :: u32

record VirtqUsed =
  vu_flags :: u16
  vu_idx :: u16
  vu_ring :: "VirtqUsedElem list"
  vu_avail_event :: u16

record QueueMem =
  qm_desc :: "VirtqDesc list"
  qm_avail :: VirtqAvail
  qm_used :: VirtqUsed
  qm_buffer :: "u8 list"

definition QueueMem_new :: QueueMem where
  "QueueMem_new =
     \<lparr> qm_desc = replicate QUEUE_SIZE \<lparr> vd_addr = 0, vd_len = 0, vd_flags = 0, vd_next = 0 \<rparr>,
       qm_avail = \<lparr> va_flags = 0, va_idx = 0, va_ring = replicate QUEUE_SIZE 0, va_used_event = 0 \<rparr>,
       qm_used = \<lparr> vu_flags = 0, vu_idx = 0, vu_ring = replicate QUEUE_SIZE \<lparr> ue_id = 0, ue_len = 0 \<rparr>, vu_avail_event = 0 \<rparr>,
       qm_buffer = replicate BUF_SIZE 0 \<rparr>"

text \<open>Offsets of the fields of \<open>QueueMem\<close> in its C layout.\<close>

definition DESC_OFFSET :: u64 where "DESC_OFFSET = 0"
definition AVAIL_OFFSET :: u64 where "AVAIL_OFFSET = 256"
definition USED_OFFSET :: u64 where "USED_OFFSET = 296"
definition BUFFER_OFFSET :: u64 where "BUFFER_OFFSET = 432"

datatype queue = RxMem | TxMem

record VirtQueue =
  vq_mem :: queue
  vq_index :: u32
  vq_avail_idx :: u16
  vq_last_used_idx :: u16

record Channel =
  ch_base :: u64
  ch_rx :: VirtQueue
  ch_tx :: VirtQueue

section \<open>The platform and the state\<close>

record 'd Platform =
  pf_read :: "u64 \<Rightarrow> 'd \<Rightarrow> u32"
  pf_write :: "u64 \<Rightarrow> u32 \<Rightarrow> 'd \<Rightarrow> 'd"
  pf_run :: "'d \<Rightarrow> QueueMem \<Rightarrow> QueueMem \<Rightarrow> 'd \<times> QueueMem \<times> QueueMem"
  pf_rx_addr :: u64
  pf_tx_addr :: u64

record 'd World =
  w_device :: 'd
  w_rx :: QueueMem
  w_tx :: QueueMem
  w_channel :: "Channel option"
  w_mono :: u64

definition read32 :: "'d Platform \<Rightarrow> u64 \<Rightarrow> u64 \<Rightarrow> 'd World \<Rightarrow> u32" where
  "read32 p base offset w = pf_read p (base + offset) (w_device w)"

definition write32 :: "'d Platform \<Rightarrow> u64 \<Rightarrow> u64 \<Rightarrow> u32 \<Rightarrow> 'd World \<Rightarrow> 'd World" where
  "write32 p base offset v w = w\<lparr> w_device := pf_write p (base + offset) v (w_device w) \<rparr>"

definition device_runs :: "'d Platform \<Rightarrow> 'd World \<Rightarrow> 'd World" where
  "device_runs p w =
     (case pf_run p (w_device w) (w_rx w) (w_tx w) of
        (d, rx, tx) \<Rightarrow> w\<lparr> w_device := d, w_rx := rx, w_tx := tx \<rparr>)"

fun queue_mem :: "queue \<Rightarrow> 'd World \<Rightarrow> QueueMem" where
  "queue_mem RxMem w = w_rx w"
| "queue_mem TxMem w = w_tx w"

fun set_queue_mem :: "queue \<Rightarrow> QueueMem \<Rightarrow> 'd World \<Rightarrow> 'd World" where
  "set_queue_mem RxMem m w = w\<lparr> w_rx := m \<rparr>"
| "set_queue_mem TxMem m w = w\<lparr> w_tx := m \<rparr>"

fun queue_addr :: "'d Platform \<Rightarrow> queue \<Rightarrow> u64" where
  "queue_addr p RxMem = pf_rx_addr p"
| "queue_addr p TxMem = pf_tx_addr p"

section \<open>Discovery and negotiation\<close>

definition QEMU_VIRT_MMIO_BASE :: u64 where "QEMU_VIRT_MMIO_BASE = 0x0a000000"
definition QEMU_VIRT_MMIO_STRIDE :: u64 where "QEMU_VIRT_MMIO_STRIDE = 0x200"
definition QEMU_VIRT_MMIO_COUNT :: nat where "QEMU_VIRT_MMIO_COUNT = 32"

fun discover_slots :: "'d Platform \<Rightarrow> nat list \<Rightarrow> 'd World \<Rightarrow> IpcError + u64" where
  "discover_slots p [] w = Err DeviceNotFound"
| "discover_slots p (slot # slots) w =
     (let base = QEMU_VIRT_MMIO_BASE + of_nat slot * QEMU_VIRT_MMIO_STRIDE in
      if read32 p base MAGIC_VALUE w \<noteq> MAGIC then discover_slots p slots w
      else if read32 p base VERSION w \<noteq> VERSION_MODERN then discover_slots p slots w
      else if read32 p base DEVICE_ID w = DEVICE_ID_CONSOLE then Ok base
      else discover_slots p slots w)"

definition discover_device :: "'d Platform \<Rightarrow> 'd World \<Rightarrow> IpcError + u64" where
  "discover_device p w = discover_slots p [0..<QEMU_VIRT_MMIO_COUNT] w"

definition configure :: "'d Platform \<Rightarrow> u64 \<Rightarrow> u32 \<Rightarrow> queue \<Rightarrow> 'd World \<Rightarrow> (IpcError + VirtQueue) \<times> 'd World" where
  "configure p base index q w =
     (let w = write32 p base QUEUE_SEL index w;
          max_size = read32 p base QUEUE_NUM_MAX w in
      if max_size = 0 then (Err QueueSetupFailed, w)
      else
        let sz = of_nat (min (unat max_size) QUEUE_SIZE);
            w = write32 p base QUEUE_NUM sz w;
            desc_addr = queue_addr p q + DESC_OFFSET;
            avail_addr = queue_addr p q + AVAIL_OFFSET;
            used_addr = queue_addr p q + USED_OFFSET;
            w = write32 p base QUEUE_DESC_LOW (ucast desc_addr) w;
            w = write32 p base QUEUE_DESC_HIGH (ucast (drop_bit 32 desc_addr)) w;
            w = write32 p base QUEUE_DRIVER_LOW (ucast avail_addr) w;
            w = write32 p base QUEUE_DRIVER_HIGH (ucast (drop_bit 32 avail_addr)) w;
            w = write32 p base QUEUE_DEVICE_LOW (ucast used_addr) w;
            w = write32 p base QUEUE_DEVICE_HIGH (ucast (drop_bit 32 used_addr)) w;
            w = write32 p base QUEUE_READY 1 w in
        if read32 p base QUEUE_READY w \<noteq> 1 then (Err QueueSetupFailed, w)
        else (Ok \<lparr> vq_mem = q, vq_index = index, vq_avail_idx = 0, vq_last_used_idx = 0 \<rparr>, w))"

definition negotiate_multiport :: "u64 \<Rightarrow> 'd World \<Rightarrow> (IpcError + unit) \<times> 'd World" where
  "negotiate_multiport base w = (Ok (), w)"

definition reset_and_negotiate :: "'d Platform \<Rightarrow> u64 \<Rightarrow> 'd World \<Rightarrow> (IpcError + unit) \<times> 'd World" where
  "reset_and_negotiate p base w =
     (let w = write32 p base STATUS 0 w;
          w = write32 p base STATUS STATUS_ACKNOWLEDGE w;
          w = write32 p base STATUS (STATUS_ACKNOWLEDGE OR STATUS_DRIVER) w;
          w = write32 p base DEVICE_FEATURES_SEL 0 w;
          feat_lo = ucast (read32 p base DEVICE_FEATURES w) :: u64;
          w = write32 p base DEVICE_FEATURES_SEL 1 w;
          feat_hi = ucast (read32 p base DEVICE_FEATURES w) :: u64;
          device_features = feat_lo OR push_bit 32 feat_hi in
      if device_features AND VIRTIO_F_VERSION_1 = 0 then (Err FeatureNegotiationFailed, write32 p base STATUS 0x80 w)
      else
        let driver_features =
              (if device_features AND VIRTIO_CONSOLE_F_MULTIPORT \<noteq> 0 then VIRTIO_F_VERSION_1 OR VIRTIO_CONSOLE_F_MULTIPORT
               else VIRTIO_F_VERSION_1);
            w = write32 p base DRIVER_FEATURES_SEL 0 w;
            w = write32 p base DRIVER_FEATURES (ucast driver_features) w;
            w = write32 p base DRIVER_FEATURES_SEL 1 w;
            w = write32 p base DRIVER_FEATURES (ucast (drop_bit 32 driver_features)) w;
            status = STATUS_ACKNOWLEDGE OR STATUS_DRIVER OR STATUS_FEATURES_OK;
            w = write32 p base STATUS status w in
        if read32 p base STATUS w AND STATUS_FEATURES_OK = 0
        then (Err FeatureNegotiationFailed, write32 p base STATUS 0x80 w)
        else (Ok (), w))"

section \<open>Queue operations\<close>

definition submit :: "'d Platform \<Rightarrow> u64 \<Rightarrow> u32 \<Rightarrow> bool \<Rightarrow> VirtQueue \<Rightarrow> 'd World \<Rightarrow> VirtQueue \<times> 'd World" where
  "submit p base len writable q w =
     (let m = queue_mem (vq_mem q) w;
          buf_addr = queue_addr p (vq_mem q) + BUFFER_OFFSET;
          m = m\<lparr> qm_desc := (qm_desc m)[0 := \<lparr> vd_addr = buf_addr, vd_len = len,
                    vd_flags = (if writable then VIRTQ_DESC_F_WRITE else 0), vd_next = 0 \<rparr>] \<rparr>;
          slot = unat (vq_avail_idx q) mod QUEUE_SIZE;
          m = m\<lparr> qm_avail := (qm_avail m)\<lparr> va_ring := (va_ring (qm_avail m))[slot := 0] \<rparr> \<rparr>;
          q = q\<lparr> vq_avail_idx := vq_avail_idx q + 1 \<rparr>;
          m = m\<lparr> qm_avail := (qm_avail m)\<lparr> va_idx := vq_avail_idx q \<rparr> \<rparr>;
          w = set_queue_mem (vq_mem q) m w
      in (q, write32 p base QUEUE_NOTIFY (vq_index q) w))"

partial_function (option) poll_used :: "'d Platform \<Rightarrow> VirtQueue \<Rightarrow> 'd World \<Rightarrow> (u32 \<times> VirtQueue \<times> 'd World) option" where
  "poll_used p q w =
     (let w = device_runs p w;
          used = qm_used (queue_mem (vq_mem q) w) in
      if vu_idx used \<noteq> vq_last_used_idx q then
        let slot = unat (vq_last_used_idx q) mod QUEUE_SIZE;
            elem = vu_ring used ! slot
        in Some (ue_len elem, q\<lparr> vq_last_used_idx := vq_last_used_idx q + 1 \<rparr>, w)
      else poll_used p q w)"

definition fill_tx :: "u8 list \<Rightarrow> VirtQueue \<Rightarrow> 'd World \<Rightarrow> (IpcError + u32) \<times> 'd World" where
  "fill_tx data q w =
     (if BUF_SIZE < length data then (Err MessageTooLarge, w)
      else
        let m = queue_mem (vq_mem q) w
        in (Ok (of_nat (length data)), set_queue_mem (vq_mem q) (m\<lparr> qm_buffer := copy_at 0 data (qm_buffer m) \<rparr>) w))"

definition read_rx :: "u32 \<Rightarrow> u8 list \<Rightarrow> VirtQueue \<Rightarrow> 'd World \<Rightarrow> nat \<times> u8 list" where
  "read_rx len out q w =
     (let n = min (unat len) (min (length out) BUF_SIZE)
      in (n, copy_at 0 (take n (qm_buffer (queue_mem (vq_mem q) w))) out))"

section \<open>The channel\<close>

definition SENTINEL_RX_QUEUE :: u32 where "SENTINEL_RX_QUEUE = 4"
definition SENTINEL_TX_QUEUE :: u32 where "SENTINEL_TX_QUEUE = 5"

definition ipc_init :: "'d Platform \<Rightarrow> 'd World \<Rightarrow> (IpcError + unit) \<times> 'd World" where
  "ipc_init p w =
     (if w_channel w \<noteq> None then (Ok (), w)
      else
        then_try (discover_device p w, w) (\<lambda>base w.
        then_try (reset_and_negotiate p base w) (\<lambda>_ w.
        then_try (configure p base SENTINEL_RX_QUEUE RxMem w) (\<lambda>rx w.
        then_try (configure p base SENTINEL_TX_QUEUE TxMem w) (\<lambda>tx w.
        then_try (negotiate_multiport base w) (\<lambda>_ w.
          let w = write32 p base STATUS
                    (STATUS_ACKNOWLEDGE OR STATUS_DRIVER OR STATUS_FEATURES_OK OR STATUS_DRIVER_OK) w;
              (rx, w) = submit p base (of_nat BUF_SIZE) True rx w
          in (Ok (), w\<lparr> w_channel := Some \<lparr> ch_base = base, ch_rx = rx, ch_tx = tx \<rparr> \<rparr>)))))))"

definition read_message :: "'d Platform \<Rightarrow> u8 list \<Rightarrow> Channel \<Rightarrow> 'd World \<Rightarrow> (nat \<times> u8 list \<times> Channel \<times> 'd World) option" where
  "read_message p out ch w =
     do {
       (len, rx, w) \<leftarrow> poll_used p (ch_rx ch) w;
       let (n, out) = read_rx len out rx w;
       let (rx, w) = submit p (ch_base ch) (of_nat BUF_SIZE) True rx w;
       Some (n, out, ch\<lparr> ch_rx := rx \<rparr>, w)
     }"

definition write_message :: "'d Platform \<Rightarrow> u8 list \<Rightarrow> Channel \<Rightarrow> 'd World \<Rightarrow> ((IpcError + unit) \<times> Channel \<times> 'd World) option" where
  "write_message p data ch w =
     (case fill_tx data (ch_tx ch) w of
        (Inl e, w) \<Rightarrow> Some (Err e, ch, w)
      | (Inr len, w) \<Rightarrow>
          do {
            let (tx, w) = submit p (ch_base ch) len False (ch_tx ch) w;
            (_, tx, w) \<leftarrow> poll_used p tx w;
            Some (Ok (), ch\<lparr> ch_tx := tx \<rparr>, w)
          })"

definition read_request :: "'d Platform \<Rightarrow> u8 list \<Rightarrow> 'd World \<Rightarrow> ((IpcError + nat \<times> u8 list) \<times> 'd World) option" where
  "read_request p out w =
     (case w_channel w of
        None \<Rightarrow> Some (Err NotInitialised, w)
      | Some ch \<Rightarrow>
          do {
            (n, out, ch, w) \<leftarrow> read_message p out ch w;
            Some (Ok (n, out), w\<lparr> w_channel := Some ch \<rparr>)
          })"

definition write_response_bytes :: "'d Platform \<Rightarrow> u8 list \<Rightarrow> 'd World \<Rightarrow> ((IpcError + unit) \<times> 'd World) option" where
  "write_response_bytes p data w =
     (case w_channel w of
        None \<Rightarrow> Some (Err NotInitialised, w)
      | Some ch \<Rightarrow>
          do {
            (r, ch, w) \<leftarrow> write_message p data ch w;
            Some (r, w\<lparr> w_channel := Some ch \<rparr>)
          })"

definition MAX_MESSAGE :: nat where "MAX_MESSAGE = BUF_SIZE"

definition handle_one :: "'d Platform \<Rightarrow> 'd World \<Rightarrow> ((IpcError + RegisterRequest) \<times> 'd World) option" where
  "handle_one p w =
     do {
       (r, w) \<leftarrow> read_request p (replicate MAX_MESSAGE 0) w;
       (case r of
          Inl e \<Rightarrow> Some (Err e, w)
        | Inr (n, req_buf) \<Rightarrow>
            (case parse_register_request (take n req_buf) of
               Inl e \<Rightarrow> Some (Err e, w)
             | Inr req \<Rightarrow>
                 let (resp, mono) = build_response req (w_mono w); w = w\<lparr> w_mono := mono \<rparr> in
                 (case serialize_response resp (replicate MAX_MESSAGE 0) of
                    (Inl e, _) \<Rightarrow> Some (Err e, w)
                  | (Inr m, resp_buf) \<Rightarrow>
                      do {
                        (r, w) \<leftarrow> write_response_bytes p (take m resp_buf) w;
                        (case r of Inl e \<Rightarrow> Some (Err e, w) | Inr _ \<Rightarrow> Some (Ok req, w))
                      })))
     }"

section \<open>What the device promises\<close>

text \<open>
  The behaviour of a virtio console that the driver relies on, for a queue with one buffer posted: between two polls the
  device consumes the transmit buffer, or fills the receive buffer with the next message of the host, or does nothing;
  it does nothing for ever only when there is nothing to do.  \<open>inbox\<close> and \<open>outbox\<close> are the messages on the host's side.
\<close>

definition shaped :: "QueueMem \<Rightarrow> bool" where
  "shaped m \<longleftrightarrow> length (qm_desc m) = QUEUE_SIZE \<and> length (va_ring (qm_avail m)) = QUEUE_SIZE \<and>
     length (vu_ring (qm_used m)) = QUEUE_SIZE \<and> length (qm_buffer m) = BUF_SIZE"

definition outstanding :: "QueueMem \<Rightarrow> bool" where
  "outstanding m \<longleftrightarrow> va_idx (qm_avail m) \<noteq> vu_idx (qm_used m)"

definition posted :: "'d Platform \<Rightarrow> queue \<Rightarrow> bool \<Rightarrow> QueueMem \<Rightarrow> bool" where
  "posted p q writable m \<longleftrightarrow>
     vd_addr (qm_desc m ! 0) = queue_addr p q + BUFFER_OFFSET \<and>
     vd_flags (qm_desc m ! 0) = (if writable then VIRTQ_DESC_F_WRITE else 0) \<and> unat (vd_len (qm_desc m ! 0)) \<le> BUF_SIZE"

definition complete :: "nat \<Rightarrow> u32 \<Rightarrow> QueueMem \<Rightarrow> QueueMem" where
  "complete sz n m =
     (let slot = unat (vu_idx (qm_used m)) mod sz
      in m\<lparr> qm_used := (qm_used m)\<lparr>
             vu_ring := (vu_ring (qm_used m))[slot := \<lparr> ue_id = ucast (va_ring (qm_avail m) ! slot), ue_len = n \<rparr>],
             vu_idx := vu_idx (qm_used m) + 1 \<rparr> \<rparr>)"

definition received :: "u8 list \<Rightarrow> QueueMem \<Rightarrow> QueueMem" where
  "received msg m = complete QUEUE_SIZE (of_nat (length msg)) (m\<lparr> qm_buffer := copy_at 0 msg (qm_buffer m) \<rparr>)"

definition can_receive :: "u8 list list \<Rightarrow> QueueMem \<Rightarrow> bool" where
  "can_receive msgs rx \<longleftrightarrow> msgs \<noteq> [] \<and> outstanding rx \<and> length (hd msgs) \<le> unat (vd_len (qm_desc rx ! 0))"

definition sent_bytes :: "QueueMem \<Rightarrow> u8 list" where
  "sent_bytes tx = take (unat (vd_len (qm_desc tx ! 0))) (qm_buffer tx)"

definition console_device ::
  "'d Platform \<Rightarrow> u64 \<Rightarrow> ('d \<Rightarrow> u8 list list) \<Rightarrow> ('d \<Rightarrow> u8 list list) \<Rightarrow> ('d \<Rightarrow> nat) \<Rightarrow> bool" where
  "console_device p base inbox outbox lag \<longleftrightarrow>
     (\<forall>d rx tx d' rx' tx'.
        (outstanding rx \<longrightarrow> posted p RxMem True rx) \<and> (outstanding tx \<longrightarrow> posted p TxMem False tx) \<and>
        pf_run p d rx tx = (d', rx', tx') \<longrightarrow>
          rx' = rx \<and> tx' = tx \<and> inbox d' = inbox d \<and> outbox d' = outbox d \<and>
            (lag d' < lag d \<or> \<not> outstanding tx \<and> \<not> can_receive (inbox d) rx) \<or>
          outstanding tx \<and> rx' = rx \<and> tx' = complete QUEUE_SIZE 0 tx \<and> inbox d' = inbox d \<and>
            outbox d' = outbox d @ [sent_bytes tx] \<or>
          can_receive (inbox d) rx \<and> tx' = tx \<and> rx' = received (hd (inbox d)) rx \<and> inbox d' = tl (inbox d) \<and>
            outbox d' = outbox d) \<and>
     (\<forall>v d. inbox (pf_write p (base + QUEUE_NOTIFY) v d) = inbox d \<and> outbox (pf_write p (base + QUEUE_NOTIFY) v d) = outbox d)"

section \<open>The state of the driver\<close>

definition rx_ok :: "'d Platform \<Rightarrow> VirtQueue \<Rightarrow> QueueMem \<Rightarrow> bool" where
  "rx_ok p q m \<longleftrightarrow>
     shaped m \<and> vq_mem q = RxMem \<and> vq_avail_idx q = vq_last_used_idx q + 1 \<and> va_idx (qm_avail m) = vq_last_used_idx q + 1 \<and>
     posted p RxMem True m \<and> vd_len (qm_desc m ! 0) = of_nat BUF_SIZE \<and>
     (vu_idx (qm_used m) = vq_last_used_idx q \<or>
      vu_idx (qm_used m) = vq_last_used_idx q + 1 \<and>
      unat (ue_len (vu_ring (qm_used m) ! (unat (vq_last_used_idx q) mod QUEUE_SIZE))) \<le> BUF_SIZE)"

definition delivered :: "VirtQueue \<Rightarrow> QueueMem \<Rightarrow> u8 list list" where
  "delivered q m =
     (if vu_idx (qm_used m) = vq_last_used_idx q then []
      else [take (unat (ue_len (vu_ring (qm_used m) ! (unat (vq_last_used_idx q) mod QUEUE_SIZE)))) (qm_buffer m)])"

definition tx_ok :: "VirtQueue \<Rightarrow> QueueMem \<Rightarrow> bool" where
  "tx_ok q m \<longleftrightarrow>
     shaped m \<and> vq_mem q = TxMem \<and> vq_avail_idx q = vq_last_used_idx q \<and> va_idx (qm_avail m) = vq_last_used_idx q \<and>
     vu_idx (qm_used m) = vq_last_used_idx q"

definition messages_fit :: "u8 list list \<Rightarrow> bool" where
  "messages_fit msgs \<longleftrightarrow> (\<forall>m \<in> set msgs. length m \<le> BUF_SIZE)"

lemmas queue_defs = QUEUE_SIZE_def BUF_SIZE_def

lemma device_runs_other [simp]:
  "w_channel (device_runs p w) = w_channel w" "w_mono (device_runs p w) = w_mono w"
  by (simp_all add: device_runs_def split: prod.splits)

lemma received_ok:
  assumes rx: "rx_ok p q m" and out: "outstanding m" and len: "length msg \<le> BUF_SIZE"
  shows "delivered q m = []" "rx_ok p q (received msg m)" "delivered q (received msg m) = [msg]"
proof -
  let ?s = "unat (vq_last_used_idx q) mod QUEUE_SIZE"
  have u: "vu_idx (qm_used m) = vq_last_used_idx q" using rx out by (auto simp: rx_ok_def outstanding_def)
  then show "delivered q m = []" by (simp add: delivered_def)
  have sh: "length (vu_ring (qm_used m)) = 16" "length (qm_buffer m) = 4096" using rx by (simp_all add: rx_ok_def shaped_def queue_defs)
  have s: "?s < 16" by (simp add: queue_defs)
  have n: "unat (of_nat (length msg) :: u32) = length msg" using len by (simp add: unat_of_nat queue_defs)
  have r: "vu_ring (qm_used (received msg m)) ! ?s = \<lparr> ue_id = ucast (va_ring (qm_avail m) ! ?s), ue_len = of_nat (length msg) \<rparr>"
    "vu_idx (qm_used (received msg m)) = vq_last_used_idx q + 1" "qm_buffer (received msg m) = copy_at 0 msg (qm_buffer m)"
    using u sh s by (simp_all add: received_def complete_def Let_def)
  show "delivered q (received msg m) = [msg]" using r n by (simp add: delivered_def copy_at_def)
  have "shaped (received msg m)" "va_idx (qm_avail (received msg m)) = va_idx (qm_avail m)" "qm_desc (received msg m) = qm_desc m"
    using rx len by (simp_all add: rx_ok_def shaped_def received_def complete_def Let_def)
  then show "rx_ok p q (received msg m)" using rx r n len by (simp add: rx_ok_def posted_def BUF_SIZE_def)
qed

lemma device_runs_cases [consumes 3, case_names tx idle sent received]:
  assumes dev: "console_device p base inbox outbox lag"
    and rx: "rx_ok p q (w_rx w)" "messages_fit (inbox (w_device w))"
    and tx: "outstanding (w_tx w) \<Longrightarrow> posted p TxMem False (w_tx w)"
  obtains "w_rx (device_runs p w) = w_rx w" "w_tx (device_runs p w) = w_tx w"
      "inbox (w_device (device_runs p w)) = inbox (w_device w)" "outbox (w_device (device_runs p w)) = outbox (w_device w)"
      "lag (w_device (device_runs p w)) < lag (w_device w) \<or>
       \<not> outstanding (w_tx w) \<and> (delivered q (w_rx w) \<noteq> [] \<or> inbox (w_device w) = [])"
  | "outstanding (w_tx w)" "w_rx (device_runs p w) = w_rx w" "w_tx (device_runs p w) = complete QUEUE_SIZE 0 (w_tx w)"
      "inbox (w_device (device_runs p w)) = inbox (w_device w)"
      "outbox (w_device (device_runs p w)) = outbox (w_device w) @ [sent_bytes (w_tx w)]"
  | "delivered q (w_rx w) = []" "w_tx (device_runs p w) = w_tx w" "rx_ok p q (w_rx (device_runs p w))"
      "inbox (w_device w) = hd (inbox (w_device w)) # inbox (w_device (device_runs p w))"
      "delivered q (w_rx (device_runs p w)) = [hd (inbox (w_device w))]"
      "outbox (w_device (device_runs p w)) = outbox (w_device w)"
proof -
  obtain d' rx' tx' where r: "pf_run p (w_device w) (w_rx w) (w_tx w) = (d', rx', tx')" by (metis prod_cases3)
  then have w: "w_device (device_runs p w) = d'" "w_rx (device_runs p w) = rx'" "w_tx (device_runs p w) = tx'"
    by (simp_all add: device_runs_def)
  have can: "can_receive (inbox (w_device w)) (w_rx w) \<longleftrightarrow> inbox (w_device w) \<noteq> [] \<and> outstanding (w_rx w)"
    using rx by (auto simp: can_receive_def rx_ok_def messages_fit_def BUF_SIZE_def)
  have undelivered: "delivered q (w_rx w) = [] \<Longrightarrow> outstanding (w_rx w)"
    using rx by (auto simp: delivered_def outstanding_def rx_ok_def split: if_splits)
  have "posted p RxMem True (w_rx w)" using rx by (simp add: rx_ok_def)
  then have moves: "rx' = w_rx w \<and> tx' = w_tx w \<and> inbox d' = inbox (w_device w) \<and> outbox d' = outbox (w_device w) \<and>
        (lag d' < lag (w_device w) \<or> \<not> outstanding (w_tx w) \<and> \<not> can_receive (inbox (w_device w)) (w_rx w)) \<or>
      outstanding (w_tx w) \<and> rx' = w_rx w \<and> tx' = complete QUEUE_SIZE 0 (w_tx w) \<and> inbox d' = inbox (w_device w) \<and>
        outbox d' = outbox (w_device w) @ [sent_bytes (w_tx w)] \<or>
      can_receive (inbox (w_device w)) (w_rx w) \<and> tx' = w_tx w \<and> rx' = received (hd (inbox (w_device w))) (w_rx w) \<and>
        inbox d' = tl (inbox (w_device w)) \<and> outbox d' = outbox (w_device w)"
    using dev [unfolded console_device_def, THEN conjunct1, rule_format, of "w_rx w" "w_tx w" "w_device w" d' rx' tx'] tx r by blast
  then show thesis
  proof (elim disjE)
    assume "rx' = w_rx w \<and> tx' = w_tx w \<and> inbox d' = inbox (w_device w) \<and> outbox d' = outbox (w_device w) \<and>
        (lag d' < lag (w_device w) \<or> \<not> outstanding (w_tx w) \<and> \<not> can_receive (inbox (w_device w)) (w_rx w))"
    then show thesis using that(1) w can undelivered by blast
  next
    assume "outstanding (w_tx w) \<and> rx' = w_rx w \<and> tx' = complete QUEUE_SIZE 0 (w_tx w) \<and> inbox d' = inbox (w_device w) \<and>
        outbox d' = outbox (w_device w) @ [sent_bytes (w_tx w)]"
    then show thesis using that(2) w by blast
  next
    assume a: "can_receive (inbox (w_device w)) (w_rx w) \<and> tx' = w_tx w \<and> rx' = received (hd (inbox (w_device w))) (w_rx w) \<and>
        inbox d' = tl (inbox (w_device w)) \<and> outbox d' = outbox (w_device w)"
    then have "length (hd (inbox (w_device w))) \<le> BUF_SIZE" using can rx(2) by (simp add: messages_fit_def)
    with received_ok [OF rx(1), of "hd (inbox (w_device w))"] a can show thesis using that(3) w by simp
  qed
qed
section \<open>Polling\<close>

lemma poll_rx:
  assumes dev: "console_device p base inbox outbox lag"
    and "rx_ok p q (w_rx w)" "messages_fit (inbox (w_device w))" "\<not> outstanding (w_tx w)"
    and "delivered q (w_rx w) @ inbox (w_device w) = msg # msgs"
  shows "\<exists>len w'. poll_used p q w = Some (len, q\<lparr> vq_last_used_idx := vq_last_used_idx q + 1 \<rparr>, w') \<and>
    unat len = length msg \<and> take (length msg) (qm_buffer (w_rx w')) = msg \<and> length msg \<le> BUF_SIZE \<and>
    rx_ok p q (w_rx w') \<and> vu_idx (qm_used (w_rx w')) = vq_last_used_idx q + 1 \<and> inbox (w_device w') = msgs \<and>
    outbox (w_device w') = outbox (w_device w) \<and> w_tx w' = w_tx w \<and> w_channel w' = w_channel w \<and> w_mono w' = w_mono w"
  using assms(2-5)
proof (induction "lag (w_device w)" arbitrary: w rule: less_induct)
  case less
  let ?w = "device_runs p w"
  have mem: "vq_mem q = RxMem" using less.prems by (simp add: rx_ok_def)
  have got: ?case if "rx_ok p q (w_rx ?w)" "delivered q (w_rx ?w) @ inbox (w_device ?w) = msg # msgs" "delivered q (w_rx ?w) \<noteq> []"
    "outbox (w_device ?w) = outbox (w_device w)" "w_tx ?w = w_tx w"
  proof -
    let ?s = "unat (vq_last_used_idx q) mod QUEUE_SIZE" and ?u = "qm_used (w_rx ?w)"
    have idx: "vu_idx ?u = vq_last_used_idx q + 1" "unat (ue_len (vu_ring ?u ! ?s)) \<le> BUF_SIZE"
      using that(1,3) by (auto simp: rx_ok_def delivered_def split: if_splits)
    then have msg: "msg = take (unat (ue_len (vu_ring ?u ! ?s))) (qm_buffer (w_rx ?w))" "inbox (w_device ?w) = msgs"
      using that(2) by (simp_all add: delivered_def)
    have l: "length msg = unat (ue_len (vu_ring ?u ! ?s))" using msg(1) idx(2) that(1) by (simp add: rx_ok_def shaped_def)
    have "poll_used p q w = Some (ue_len (vu_ring ?u ! ?s), q\<lparr> vq_last_used_idx := vq_last_used_idx q + 1 \<rparr>, ?w)"
      using idx mem by (simp add: poll_used.simps [of p q w] Let_def)
    moreover have "take (length msg) (qm_buffer (w_rx ?w)) = msg" unfolding l by (rule msg(1) [symmetric])
    ultimately show ?thesis using that(1,4,5) idx msg(2) l by (intro exI [of _ "ue_len (vu_ring ?u ! ?s)"] exI [of _ ?w]) simp
  qed
  from dev less.prems(1,2) show ?case
  proof (cases rule: device_runs_cases)
    case idle
    show ?thesis
    proof (cases "delivered q (w_rx w) = []")
      case True
      then have "lag (w_device ?w) < lag (w_device w)" using idle(5) less.prems by simp
      moreover have "poll_used p q w = poll_used p q ?w"
        using True idle mem by (simp add: poll_used.simps [of p q w] Let_def delivered_def split: if_splits)
      ultimately show ?thesis using less.hyps [of ?w] less.prems idle by simp
    qed (use got idle less.prems in simp)
  next
    case sent
    then show ?thesis using less.prems by simp
  next
    case received
    then show ?thesis using got less.prems by auto
  next
    case tx
    then show "posted p TxMem False (w_tx w)" using less.prems by simp
  qed
qed
lemma poll_tx:
  assumes dev: "console_device p base inbox outbox lag"
    and "rx_ok p q (w_rx w)" "messages_fit (inbox (w_device w))"
    and "w_tx w = tx" "posted p TxMem False tx" "outstanding tx" "vq_mem t = TxMem" "vu_idx (qm_used tx) = vq_last_used_idx t"
  shows "\<exists>len w'. poll_used p t w = Some (len, t\<lparr> vq_last_used_idx := vq_last_used_idx t + 1 \<rparr>, w') \<and>
    rx_ok p q (w_rx w') \<and> messages_fit (inbox (w_device w')) \<and>
    delivered q (w_rx w') @ inbox (w_device w') = delivered q (w_rx w) @ inbox (w_device w) \<and>
    w_tx w' = complete QUEUE_SIZE 0 tx \<and> outbox (w_device w') = outbox (w_device w) @ [sent_bytes tx] \<and>
    w_channel w' = w_channel w \<and> w_mono w' = w_mono w"
  using assms(2-4)
proof (induction "(length (inbox (w_device w)), lag (w_device w))" arbitrary: w rule: wf_induct_rule [OF wf_lex_prod [OF wf_less_than wf_less_than]])
  case 1
  let ?w = "device_runs p w"
  have unfold: "poll_used p t w =
      (if vu_idx (qm_used (w_tx ?w)) \<noteq> vq_last_used_idx t
       then Some (ue_len (vu_ring (qm_used (w_tx ?w)) ! (unat (vq_last_used_idx t) mod QUEUE_SIZE)),
                  t\<lparr> vq_last_used_idx := vq_last_used_idx t + 1 \<rparr>, ?w)
       else poll_used p t ?w)"
    using assms(7) by (simp add: poll_used.simps [of p t w] Let_def)
  from dev "1.prems"(1,2) show ?case
  proof (cases rule: device_runs_cases)
    case idle
    then have "lag (w_device ?w) < lag (w_device w)" using "1.prems" assms(6) by simp
    then show ?thesis using "1.hyps" [of ?w] "1.prems" idle unfold assms(8) by simp
  next
    case sent
    then show ?thesis using "1.prems" assms(8) unfold by (simp add: complete_def Let_def)
  next
    case received
    have "length (inbox (w_device ?w)) < length (inbox (w_device w))" by (subst received(4)) simp
    moreover have "messages_fit (inbox (w_device ?w))" using "1.prems"(2) by (subst (asm) received(4)) (simp add: messages_fit_def)
    moreover have "delivered q (w_rx ?w) @ inbox (w_device ?w) = delivered q (w_rx w) @ inbox (w_device w)"
      unfolding received(1,5) using received(4) by simp
    ultimately show ?thesis using "1.hyps" [of ?w] "1.prems" received(2,3,6) unfold assms(8) by simp
  next
    case tx
    then show "posted p TxMem False (w_tx w)" using "1.prems" assms(5) by simp
  qed
qed

section \<open>Messages\<close>

definition chan_ok :: "'d Platform \<Rightarrow> ('d \<Rightarrow> u8 list list) \<Rightarrow> Channel \<Rightarrow> 'd World \<Rightarrow> bool" where
  "chan_ok p inbox ch w \<longleftrightarrow>
     rx_ok p (ch_rx ch) (w_rx w) \<and> tx_ok (ch_tx ch) (w_tx w) \<and> messages_fit (inbox (w_device w))"

definition incoming :: "('d \<Rightarrow> u8 list list) \<Rightarrow> Channel \<Rightarrow> 'd World \<Rightarrow> u8 list list" where
  "incoming inbox ch w = delivered (ch_rx ch) (w_rx w) @ inbox (w_device w)"

lemma submit_rx:
  assumes rx: "rx_ok p q m" "vu_idx (qm_used m) = vq_last_used_idx q + 1" "w_rx w = m"
    and s: "submit p base (of_nat BUF_SIZE) True (q\<lparr> vq_last_used_idx := vq_last_used_idx q + 1 \<rparr>) w = (q', w')"
  shows "rx_ok p q' (w_rx w')" "delivered q' (w_rx w') = []" "w_tx w' = w_tx w" "w_channel w' = w_channel w" "w_mono w' = w_mono w"
    "w_device w' = pf_write p (base + QUEUE_NOTIFY) (vq_index q) (w_device w)"
proof -
  have m: "vq_mem q = RxMem" "length (qm_desc m) = 16" using rx by (simp_all add: rx_ok_def shaped_def QUEUE_SIZE_def)
  show "w_tx w' = w_tx w" "w_channel w' = w_channel w" "w_mono w' = w_mono w"
    "w_device w' = pf_write p (base + QUEUE_NOTIFY) (vq_index q) (w_device w)"
    using s m by (auto simp: submit_def Let_def write32_def)
  show "delivered q' (w_rx w') = []" using s m rx by (auto simp: submit_def Let_def write32_def delivered_def)
  show "rx_ok p q' (w_rx w')"
    using s m rx by (auto simp: submit_def Let_def write32_def rx_ok_def shaped_def posted_def BUF_SIZE_def)
qed

lemma read_message_correct:
  assumes dev: "console_device p (ch_base ch) inbox outbox lag" and ok: "chan_ok p inbox ch w"
    and inc: "incoming inbox ch w = msg # msgs" and out: "length out = BUF_SIZE"
  shows "\<exists>buf ch' w'. read_message p out ch w = Some (length msg, buf, ch', w') \<and> take (length msg) buf = msg \<and>
    chan_ok p inbox ch' w' \<and> incoming inbox ch' w' = msgs \<and> outbox (w_device w') = outbox (w_device w) \<and>
    ch_base ch' = ch_base ch \<and> w_mono w' = w_mono w"
proof -
  let ?q = "ch_rx ch"
  have "\<not> outstanding (w_tx w)" using ok by (simp add: chan_ok_def tx_ok_def outstanding_def)
  with ok inc obtain len w1 where poll: "poll_used p ?q w = Some (len, ?q\<lparr> vq_last_used_idx := vq_last_used_idx ?q + 1 \<rparr>, w1)"
    "unat len = length msg" "take (length msg) (qm_buffer (w_rx w1)) = msg" "length msg \<le> BUF_SIZE"
    "rx_ok p ?q (w_rx w1)" "vu_idx (qm_used (w_rx w1)) = vq_last_used_idx ?q + 1" "inbox (w_device w1) = msgs"
    "outbox (w_device w1) = outbox (w_device w)" "w_tx w1 = w_tx w" "w_channel w1 = w_channel w" "w_mono w1 = w_mono w"
    using poll_rx [OF dev, of ?q w msg msgs] by (auto simp: chan_ok_def incoming_def)
  obtain rx' w2 where s: "submit p (ch_base ch) (of_nat BUF_SIZE) True (?q\<lparr> vq_last_used_idx := vq_last_used_idx ?q + 1 \<rparr>) w1 = (rx', w2)"
    by fastforce
  note sub = submit_rx [OF poll(5,6) refl s]
  have dev2: "inbox (w_device w2) = msgs" "outbox (w_device w2) = outbox (w_device w)"
    using dev sub(6) poll(7,8) by (simp_all add: console_device_def)
  let ?buf = "copy_at 0 (take (length msg) (qm_buffer (w_rx w1))) out"
  have mem: "vq_mem ?q = RxMem" using poll(5) by (simp add: rx_ok_def)
  have n: "min (unat len) (min (length out) BUF_SIZE) = length msg" using poll(2,4) out by simp
  have "read_message p out ch w = Some (length msg, ?buf, ch\<lparr> ch_rx := rx' \<rparr>, w2)"
    using poll(1) s mem n by (simp add: read_message_def read_rx_def Let_def)
  moreover have "take (length msg) ?buf = msg" using poll(3) by (simp add: copy_at_def)
  moreover have "messages_fit msgs" using ok inc by (auto simp: chan_ok_def incoming_def messages_fit_def delivered_def split: if_splits)
  ultimately show ?thesis using sub dev2 ok poll(9,11) by (simp add: chan_ok_def incoming_def)
qed

lemma write_message_correct:
  assumes dev: "console_device p (ch_base ch) inbox outbox lag" and ok: "chan_ok p inbox ch w" and fit: "length data \<le> BUF_SIZE"
  shows "\<exists>ch' w'. write_message p data ch w = Some (Ok (), ch', w') \<and> chan_ok p inbox ch' w' \<and>
    incoming inbox ch' w' = incoming inbox ch w \<and> outbox (w_device w') = outbox (w_device w) @ [data] \<and>
    ch_base ch' = ch_base ch \<and> w_mono w' = w_mono w"
proof -
  let ?t = "ch_tx ch" and ?m = "w_tx w"
  have t: "vq_mem ?t = TxMem" "vq_avail_idx ?t = vq_last_used_idx ?t" "vu_idx (qm_used ?m) = vq_last_used_idx ?t" "shaped ?m"
    using ok by (simp_all add: chan_ok_def tx_ok_def)
  have sh: "length (qm_desc ?m) = 16" "length (qm_buffer ?m) = BUF_SIZE" using t(4) by (simp_all add: shaped_def QUEUE_SIZE_def)
  have n: "unat (of_nat (length data) :: u32) = length data" using fit by (simp add: unat_of_nat BUF_SIZE_def)
  let ?w1 = "w\<lparr> w_tx := ?m\<lparr> qm_buffer := copy_at 0 data (qm_buffer ?m) \<rparr> \<rparr>"
  have fill: "fill_tx data ?t w = (Ok (of_nat (length data)), ?w1)" using fit t(1) by (simp add: fill_tx_def Let_def)
  obtain t2 w2 where s: "submit p (ch_base ch) (of_nat (length data)) False ?t ?w1 = (t2, w2)" by fastforce
  have w2: "w_rx w2 = w_rx w" "w_device w2 = pf_write p (ch_base ch + QUEUE_NOTIFY) (vq_index ?t) (w_device w)"
    "w_mono w2 = w_mono w" "t2 = ?t\<lparr> vq_avail_idx := vq_last_used_idx ?t + 1 \<rparr>"
    using s t by (auto simp: submit_def Let_def write32_def)
  let ?tx = "w_tx w2"
  have tx: "posted p TxMem False ?tx" "outstanding ?tx" "vu_idx (qm_used ?tx) = vq_last_used_idx t2" "sent_bytes ?tx = data"
    "shaped ?tx" "va_idx (qm_avail ?tx) = vq_last_used_idx ?t + 1"
    using s t sh n fit
    by (auto simp: submit_def Let_def write32_def posted_def outstanding_def sent_bytes_def copy_at_def shaped_def BUF_SIZE_def)
  have dev2: "inbox (w_device w2) = inbox (w_device w)" "outbox (w_device w2) = outbox (w_device w)"
    using dev w2(2) by (simp_all add: console_device_def)
  have mem2: "vq_mem t2 = TxMem" using w2(4) t(1) by simp
  have rx2: "rx_ok p (ch_rx ch) (w_rx w2)" "messages_fit (inbox (w_device w2))" using ok w2(1) dev2 by (simp_all add: chan_ok_def)
  obtain len w3 where poll: "poll_used p t2 w2 = Some (len, t2\<lparr> vq_last_used_idx := vq_last_used_idx t2 + 1 \<rparr>, w3)"
    "rx_ok p (ch_rx ch) (w_rx w3)" "messages_fit (inbox (w_device w3))"
    "delivered (ch_rx ch) (w_rx w3) @ inbox (w_device w3) = delivered (ch_rx ch) (w_rx w2) @ inbox (w_device w2)"
    "w_tx w3 = complete QUEUE_SIZE 0 ?tx" "outbox (w_device w3) = outbox (w_device w2) @ [sent_bytes ?tx]" "w_mono w3 = w_mono w2"
    using poll_tx [OF dev rx2 refl tx(1,2) mem2 tx(3)] by blast
  have "write_message p data ch w = Some (Ok (), ch\<lparr> ch_tx := t2\<lparr> vq_last_used_idx := vq_last_used_idx t2 + 1 \<rparr> \<rparr>, w3)"
    using fill s poll(1) by (simp add: write_message_def Let_def)
  moreover have "tx_ok (t2\<lparr> vq_last_used_idx := vq_last_used_idx t2 + 1 \<rparr>) (w_tx w3)"
    using poll(5) tx t w2(4) by (simp add: tx_ok_def complete_def Let_def shaped_def)
  ultimately show ?thesis using poll tx(4) dev2 w2 by (simp add: chan_ok_def incoming_def)
qed

text \<open>Setting the channel does not concern the queues.\<close>

lemma chan_ok_set [simp]:
  "chan_ok p inbox ch (w\<lparr> w_channel := c \<rparr>) = chan_ok p inbox ch w" "incoming inbox ch (w\<lparr> w_channel := c \<rparr>) = incoming inbox ch w"
  "chan_ok p inbox ch (w\<lparr> w_mono := n \<rparr>) = chan_ok p inbox ch w" "incoming inbox ch (w\<lparr> w_mono := n \<rparr>) = incoming inbox ch w"
  by (simp_all add: chan_ok_def incoming_def)

section \<open>Bring-up\<close>

lemma write32_other [simp]:
  "w_rx (write32 p base off v w) = w_rx w" "w_tx (write32 p base off v w) = w_tx w" "w_channel (write32 p base off v w) = w_channel w"
  "w_mono (write32 p base off v w) = w_mono w"
  by (simp_all add: write32_def)

lemma reset_other:
  "reset_and_negotiate p base w = (r, w') \<Longrightarrow> w_rx w' = w_rx w \<and> w_tx w' = w_tx w \<and> w_channel w' = w_channel w \<and> w_mono w' = w_mono w \<and>
     (\<forall>e. r = Err e \<longrightarrow> e = FeatureNegotiationFailed)"
  by (auto simp: reset_and_negotiate_def Let_def split: if_splits)

lemma configure_other:
  "configure p base i q w = (r, w') \<Longrightarrow> w_rx w' = w_rx w \<and> w_tx w' = w_tx w \<and> w_channel w' = w_channel w \<and> w_mono w' = w_mono w \<and>
     (\<forall>v. r = Ok v \<longrightarrow> v = \<lparr> vq_mem = q, vq_index = i, vq_avail_idx = 0, vq_last_used_idx = 0 \<rparr>) \<and> (\<forall>e. r = Err e \<longrightarrow> e = QueueSetupFailed)"
  by (auto simp: configure_def Let_def split: if_splits)

definition is_console :: "'d Platform \<Rightarrow> 'd World \<Rightarrow> u64 \<Rightarrow> bool" where
  "is_console p w base \<longleftrightarrow>
     read32 p base MAGIC_VALUE w = MAGIC \<and> read32 p base VERSION w = VERSION_MODERN \<and> read32 p base DEVICE_ID w = DEVICE_ID_CONSOLE"

definition slot_base :: "nat \<Rightarrow> u64" where
  "slot_base slot = QEMU_VIRT_MMIO_BASE + of_nat slot * QEMU_VIRT_MMIO_STRIDE"

lemma discover_slots_correct:
  "discover_slots p slots w =
     (case filter (\<lambda>slot. is_console p w (slot_base slot)) slots of [] \<Rightarrow> Err DeviceNotFound | slot # _ \<Rightarrow> Ok (slot_base slot))"
  by (induction slots) (auto simp: is_console_def slot_base_def Let_def)

lemma init_ok:
  assumes init: "ipc_init p w = (Ok (), w')" "w_channel w = None"
    and fresh: "w_rx w = QueueMem_new" "w_tx w = QueueMem_new"
  shows "\<exists>ch. w_channel w' = Some ch \<and> discover_device p w = Ok (ch_base ch) \<and> is_console p w (ch_base ch) \<and>
    rx_ok p (ch_rx ch) (w_rx w') \<and> tx_ok (ch_tx ch) (w_tx w') \<and> delivered (ch_rx ch) (w_rx w') = [] \<and> w_mono w' = w_mono w"
proof -
  obtain base where b: "discover_device p w = Ok base" using init by (cases "discover_device p w") (auto simp: ipc_init_def)
  then have c: "is_console p w base"
    by (auto simp: discover_device_def discover_slots_correct dest!: filter_eq_ConsD split: list.splits)
  obtain w1 where w1: "reset_and_negotiate p base w = (Ok (), w1)"
    using init b by (cases "reset_and_negotiate p base w"; cases "fst (reset_and_negotiate p base w)") (auto simp: ipc_init_def)
  obtain rx w2 where w2: "configure p base SENTINEL_RX_QUEUE RxMem w1 = (Ok rx, w2)"
    using init b w1 by (cases "configure p base SENTINEL_RX_QUEUE RxMem w1"; cases "fst (configure p base SENTINEL_RX_QUEUE RxMem w1)")
      (auto simp: ipc_init_def)
  obtain tx w3 where w3: "configure p base SENTINEL_TX_QUEUE TxMem w2 = (Ok tx, w3)"
    using init b w1 w2 by (cases "configure p base SENTINEL_TX_QUEUE TxMem w2"; cases "fst (configure p base SENTINEL_TX_QUEUE TxMem w2)")
      (auto simp: ipc_init_def)
  note same = reset_other [OF w1] configure_other [OF w2] configure_other [OF w3]
  have "w' = (let w4 = write32 p base STATUS (STATUS_ACKNOWLEDGE OR STATUS_DRIVER OR STATUS_FEATURES_OK OR STATUS_DRIVER_OK) w3;
      (rx1, w5) = submit p base (of_nat BUF_SIZE) True rx w4 in w5\<lparr> w_channel := Some \<lparr> ch_base = base, ch_rx = rx1, ch_tx = tx \<rparr> \<rparr>)"
    using init b w1 w2 w3 by (simp add: ipc_init_def negotiate_multiport_def Let_def split: prod.splits)
  then show ?thesis
    using same b c fresh
    by (auto simp: submit_def Let_def rx_ok_def tx_ok_def delivered_def shaped_def posted_def QueueMem_new_def queue_defs)
qed

lemma init_err:
  assumes "ipc_init p w = (Err e, w')"
  shows "w_channel w' = None \<and> w_channel w = None \<and> w_rx w' = w_rx w \<and> w_tx w' = w_tx w \<and> w_mono w' = w_mono w \<and>
    (e = DeviceNotFound \<and> w' = w \<or> e = FeatureNegotiationFailed \<or> e = QueueSetupFailed)"
  using assms
  by (auto simp: ipc_init_def then_try_def negotiate_multiport_def Let_def discover_device_def discover_slots_correct
      dest!: reset_other configure_other split: if_splits sum.splits prod.splits list.splits)

text \<open>The offsets are those of the C layout: fields in order, each aligned, the used ring to four bytes.\<close>

lemma queue_layout:
  "unat AVAIL_OFFSET = 16 * QUEUE_SIZE"
  "unat USED_OFFSET = (unat AVAIL_OFFSET + 2 + 2 + 2 * QUEUE_SIZE + 2 + 3) div 4 * 4"
  "unat BUFFER_OFFSET = (unat USED_OFFSET + 2 + 2 + 8 * QUEUE_SIZE + 2 + 3) div 4 * 4"
  by (simp_all add: AVAIL_OFFSET_def USED_OFFSET_def BUFFER_OFFSET_def QUEUE_SIZE_def)

text \<open>
  A device that offers fewer than sixteen entries is given the smaller size by \<open>configure\<close>, but the driver still reads
  the used ring modulo sixteen: with eight entries, the ninth completion is written to slot 0 and looked up in slot 8.
\<close>

lemma small_ring_missed:
  assumes "vu_idx (qm_used m) = 8"
  shows "vu_ring (qm_used (complete 8 n m)) ! (unat (8 :: u16) mod QUEUE_SIZE) = vu_ring (qm_used m) ! 8"
  using assms by (simp add: complete_def Let_def QUEUE_SIZE_def)

section \<open>A device for examples\<close>

text \<open>A console in the first slot that answers at once: its state is the status register and the two message lists.\<close>

type_synonym example_device = "u32 \<times> u8 list list \<times> u8 list list"

definition example_read :: "u64 \<Rightarrow> example_device \<Rightarrow> u32" where
  "example_read a d =
     (if a = 0x0a000000 then 0x74726976 else if a = 0x0a000004 then 2 else if a = 0x0a000008 then 3
      else if a = 0x0a000010 then 1 else if a = 0x0a000034 then 64 else if a = 0x0a000044 then 1
      else if a = 0x0a000070 then fst d else 0)"

definition example_write :: "u64 \<Rightarrow> u32 \<Rightarrow> example_device \<Rightarrow> example_device" where
  "example_write a v d = (if a = 0x0a000070 then (v, snd d) else d)"

definition example_run :: "example_device \<Rightarrow> QueueMem \<Rightarrow> QueueMem \<Rightarrow> example_device \<times> QueueMem \<times> QueueMem" where
  "example_run d rx tx =
     (case d of (st, inbox, outbox) \<Rightarrow>
        if outstanding tx then ((st, inbox, outbox @ [sent_bytes tx]), rx, complete QUEUE_SIZE 0 tx)
        else if can_receive inbox rx then ((st, tl inbox, outbox), received (hd inbox) rx, tx)
        else (d, rx, tx))"

definition example_platform :: "example_device Platform" where
  "example_platform =
     \<lparr> pf_read = example_read, pf_write = example_write, pf_run = example_run, pf_rx_addr = 0x200000, pf_tx_addr = 0x202000 \<rparr>"

definition example_world :: "u8 list list \<Rightarrow> example_device World" where
  "example_world msgs =
     \<lparr> w_device = (0, msgs, []), w_rx = QueueMem_new, w_tx = QueueMem_new, w_channel = None, w_mono = 0 \<rparr>"

lemma example_console:
  "console_device example_platform 0x0a000000 (\<lambda>d. fst (snd d)) (\<lambda>d. snd (snd d)) (\<lambda>d. 0)"
  unfolding console_device_def
  by (auto simp: example_platform_def example_run_def example_write_def QUEUE_NOTIFY_def split: prod.splits if_splits)

lemma example_found: "discover_device example_platform (example_world msgs) = Ok 0x0a000000"
proof -
  have "[0..<QEMU_VIRT_MMIO_COUNT] = 0 # [1..<32]" by (simp add: QEMU_VIRT_MMIO_COUNT_def upt_conv_Cons)
  then show ?thesis
    by (simp add: discover_device_def read32_def example_platform_def example_read_def example_world_def MAGIC_VALUE_def
        MAGIC_def VERSION_def VERSION_MODERN_def DEVICE_ID_def DEVICE_ID_CONSOLE_def QEMU_VIRT_MMIO_BASE_def Let_def)
qed

lemma example_init:
  "\<exists>w. ipc_init example_platform (example_world msgs) = (Ok (), w) \<and> w_device w = (0xF, msgs, [])"
proof -
  have reset: "\<exists>w1. reset_and_negotiate example_platform 0x0a000000 (example_world msgs) = (Ok (), w1) \<and> snd (w_device w1) = (msgs, [])"
    by (simp add: reset_and_negotiate_def Let_def read32_def write32_def example_platform_def example_read_def example_write_def
        example_world_def DEVICE_FEATURES_def DEVICE_FEATURES_SEL_def STATUS_def VIRTIO_F_VERSION_1_def DRIVER_FEATURES_def
        DRIVER_FEATURES_SEL_def STATUS_ACKNOWLEDGE_def STATUS_DRIVER_def STATUS_FEATURES_OK_def)
  have conf: "\<exists>v w2. configure example_platform 0x0a000000 i q w1 = (Ok v, w2) \<and> snd (w_device w2) = snd (w_device w1)" for i q w1
    by (simp add: configure_def Let_def read32_def write32_def example_platform_def example_read_def example_write_def QUEUE_SEL_def
        QUEUE_NUM_MAX_def QUEUE_NUM_def QUEUE_READY_def QUEUE_DESC_LOW_def QUEUE_DESC_HIGH_def QUEUE_DRIVER_LOW_def
        QUEUE_DRIVER_HIGH_def QUEUE_DEVICE_LOW_def QUEUE_DEVICE_HIGH_def)
  obtain w1 where w1: "reset_and_negotiate example_platform 0x0a000000 (example_world msgs) = (Ok (), w1)" "snd (w_device w1) = (msgs, [])"
    using reset by blast
  obtain rx w2 where w2: "configure example_platform 0x0a000000 SENTINEL_RX_QUEUE RxMem w1 = (Ok rx, w2)" "snd (w_device w2) = (msgs, [])"
    using conf w1(2) by metis
  obtain tx w3 where w3: "configure example_platform 0x0a000000 SENTINEL_TX_QUEUE TxMem w2 = (Ok tx, w3)" "snd (w_device w3) = (msgs, [])"
    using conf w2(2) by metis
  have "w_channel (example_world msgs) = None" by (simp add: example_world_def)
  moreover have "w_device (snd (submit example_platform 0x0a000000 n True q w4)) = w_device w4" for n q w4
    by (cases "vq_mem q")
      (simp_all add: submit_def Let_def write32_def example_platform_def example_write_def QUEUE_NOTIFY_def)
  moreover have "w_device (write32 example_platform 0x0a000000 STATUS 0xF w3) = (0xF, msgs, [])"
    using w3(2) by (cases "w_device w3") (simp add: write32_def example_platform_def example_write_def STATUS_def)
  ultimately show ?thesis
    using example_found [of msgs] w1(1) w2(1) w3(1)
    by (auto simp: ipc_init_def negotiate_multiport_def Let_def STATUS_ACKNOWLEDGE_def STATUS_DRIVER_def STATUS_FEATURES_OK_def
        STATUS_DRIVER_OK_def split: prod.splits) (metis snd_conv)
qed

section \<open>Properties\<close>


lemma example_channel:
  assumes "messages_fit msgs"
  shows "\<exists>w ch. ipc_init example_platform (example_world msgs) = (Ok (), w) \<and> w_channel w = Some ch \<and> ch_base ch = 0x0a000000 \<and>
    chan_ok example_platform (\<lambda>d. fst (snd d)) ch w \<and> incoming (\<lambda>d. fst (snd d)) ch w = msgs \<and> w_device w = (0xF, msgs, []) \<and> w_mono w = 0"
proof -
  obtain w where w: "ipc_init example_platform (example_world msgs) = (Ok (), w)" "w_device w = (0xF, msgs, [])"
    using example_init by blast
  have fresh: "w_channel (example_world msgs) = None" "w_rx (example_world msgs) = QueueMem_new" "w_tx (example_world msgs) = QueueMem_new"
    "w_mono (example_world msgs) = 0" by (simp_all add: example_world_def)
  obtain ch where ch: "w_channel w = Some ch" "discover_device example_platform (example_world msgs) = Ok (ch_base ch)"
    "rx_ok example_platform (ch_rx ch) (w_rx w)" "tx_ok (ch_tx ch) (w_tx w)" "delivered (ch_rx ch) (w_rx w) = []" "w_mono w = 0"
    using init_ok [OF w(1) fresh(1-3)] fresh(4) by auto
  have "ch_base ch = 0x0a000000"
    using ch(2) example_found [of msgs] by simp
  then show ?thesis using w ch assms by (simp add: chan_ok_def incoming_def)
qed




end
