(* ===== verification/Boot.thy ===== *)
theory Boot
  imports Memory_Init Round_Robin Vfs Syscall_Entry Migration Safe_Mode Drivers Ipc_Channel
begin

text \<open>
  The two kernel entry points: \<open>kernel_main\<close> of \<open>main.rs\<close>, which brings the subsystems up in their fixed order, and
  \<open>kernel_main\<close> of \<open>safemode/main.rs\<close>.  The state collects the statics of the subsystems.  Each entry point ends in
  \<open>halt\<close>; the model returns where it halted and the state at that moment, and \<open>None\<close> for a panic, undefined
  behaviour or a terminal that never returns.
\<close>

section \<open>The main kernel\<close>

record 'd Hardware =
  hw_platform :: "'d Platform"
  hw_cpuid :: cpuid
  hw_trampoline :: u64
  hw_idle_loop :: u64
  hw_idle_stack :: Stack
  hw_syscall_entry :: u64
  hw_root_fs :: fs_ref

record 'd Kernel =
  k_uart :: Uart
  k_ipc :: "'d World"
  k_memory :: memory_state
  k_sentinel :: Sentinel
  k_fs :: fs_statics
  k_sched :: kernel
  k_syscall :: "Handler list \<times> msrs"

datatype Halt = Ready | MemoryFailed | MigrationFailed MigrationError | SchedulerFailed

definition say :: "string \<Rightarrow> 'd Kernel \<Rightarrow> 'd Kernel" where
  "say s k = k\<lparr> k_uart := serial_write (bytes s) (k_uart k) \<rparr>"

definition boot_services :: "'d Hardware \<Rightarrow> 'd Kernel \<Rightarrow> (Halt \<times> 'd Kernel) option" where
  "boot_services hw k =
     (case fs_init (hw_root_fs hw) (k_fs k) of
        None \<Rightarrow> None
      | Some f \<Rightarrow> Some
          (let k = say (''  fs: initialized'' @ nl) (k\<lparr> k_fs := f \<rparr>);
               (_, u) = drivers_init (hw_cpuid hw) (k_uart k);
               k = k\<lparr> k_uart := u \<rparr> in
           case sched_init (hw_trampoline hw) (hw_idle_loop hw) (hw_idle_stack hw) (k_sched k) of
             (Inl _, s) \<Rightarrow> (SchedulerFailed, say (''  scheduler: FAILED'' @ nl) (k\<lparr> k_sched := s \<rparr>))
           | (Inr _, s) \<Rightarrow>
               let k = say (''  scheduler: initialized'' @ nl) (k\<lparr> k_sched := s \<rparr>);
                   k = k\<lparr> k_syscall := syscall_init (hw_syscall_entry hw) (k_syscall k) \<rparr>;
                   k = say (''  syscall: initialized'' @ nl) k
               in (Ready, say (''Golem Linux ready'' @ nl) k)))"

definition kernel_main :: "'d Hardware \<Rightarrow> BootHandoff option \<Rightarrow> 'd Kernel \<Rightarrow> (Halt \<times> 'd Kernel) option" where
  "kernel_main hw memory_map k =
     (let k = say (''Golem Linux gkern v0.1.0'' @ nl) k;
          (_, ipc) = ipc_init (hw_platform hw) (k_ipc k);
          k = say (''  sentinel: initialized'' @ nl) (k\<lparr> k_ipc := ipc \<rparr>) in
      case memory_init memory_map (k_memory k) of
        None \<Rightarrow> None
      | Some (Inl _, m) \<Rightarrow> Some (MemoryFailed, say (''  memory: FAILED'' @ nl) (k\<lparr> k_memory := m \<rparr>))
      | Some (Inr _, m) \<Rightarrow>
          let k = say (''  memory: initialized'' @ nl) (k\<lparr> k_memory := m \<rparr>) in
          (case migration_run (k_sentinel k) of
             None \<Rightarrow> None
           | Some (Inl e, s) \<Rightarrow>
               let k = say (''  migration: FAILED '' @ em_dash @ '' '') (k\<lparr> k_sentinel := s \<rparr>)
               in Some (MigrationFailed e, say nl (say (reason e) k))
           | Some (Inr _, s) \<Rightarrow>
               boot_services hw (say (''  migration: ok'' @ nl) (k\<lparr> k_sentinel := s \<rparr>))))"

section \<open>Safe Mode\<close>

definition safemode_kernel_main ::
  "BootHandoff option \<Rightarrow> u64 \<Rightarrow> Uart \<Rightarrow> memory_state \<Rightarrow> MigrationBlock \<Rightarrow> (Uart \<times> memory_state) option" where
  "safemode_kernel_main memory_map block_addr u m block =
     (let u = serial_write (bytes (''Golem Linux gkern-safemode v0.1.0 (SAFE MODE)'' @ nl)) u in
      case memory_init memory_map m of
        None \<Rightarrow> None
      | Some (Inl _, m) \<Rightarrow> Some (serial_write (bytes (''  memory: FAILED'' @ nl)) u, m)
      | Some (Inr _, m) \<Rightarrow>
          let u = serial_write (bytes (''  memory: initialized'' @ nl)) u
          in map_option (\<lambda>t. (tm_uart t, m)) (safemode_run u block block_addr))"

section \<open>Where the boot stops\<close>

lemma say_fields [simp]:
  "k_ipc (say s k) = k_ipc k" "k_memory (say s k) = k_memory k" "k_sentinel (say s k) = k_sentinel k" "k_fs (say s k) = k_fs k"
  "k_sched (say s k) = k_sched k" "k_syscall (say s k) = k_syscall k" "k_uart (say s k) = serial_write (bytes s) (k_uart k)"
  by (simp_all add: say_def)

lemma kernel_main_cases:
  assumes "kernel_main hw memory_map k = Some (h, k')"
  obtains (memory) e m where "memory_init memory_map (k_memory k) = Some (Err e, m)" "h = MemoryFailed" "k_memory k' = m"
      "k_sentinel k' = k_sentinel k" "k_fs k' = k_fs k" "k_sched k' = k_sched k" "k_syscall k' = k_syscall k"
      "k_ipc k' = snd (ipc_init (hw_platform hw) (k_ipc k))"
  | (migration) m e s where "memory_init memory_map (k_memory k) = Some (Ok (), m)" "migration_run (k_sentinel k) = Some (Err e, s)"
      "h = MigrationFailed e" "k_memory k' = m" "k_sentinel k' = s" "k_fs k' = k_fs k" "k_sched k' = k_sched k"
      "k_syscall k' = k_syscall k" "k_ipc k' = snd (ipc_init (hw_platform hw) (k_ipc k))"
  | (services) m s f r sc where "memory_init memory_map (k_memory k) = Some (Ok (), m)" "migration_run (k_sentinel k) = Some (Ok (), s)"
      "fs_init (hw_root_fs hw) (k_fs k) = Some f"
      "sched_init (hw_trampoline hw) (hw_idle_loop hw) (hw_idle_stack hw) (k_sched k) = (r, sc)"
      "k_memory k' = m" "k_sentinel k' = s" "k_fs k' = f" "k_sched k' = sc" "k_ipc k' = snd (ipc_init (hw_platform hw) (k_ipc k))"
      "if r = Ok () then h = Ready \<and> k_syscall k' = syscall_init (hw_syscall_entry hw) (k_syscall k)
       else h = SchedulerFailed \<and> k_syscall k' = k_syscall k"
proof -
  obtain r m where mem: "memory_init memory_map (k_memory k) = Some (r, m)"
    using assms by (cases "memory_init memory_map (k_memory k)") (auto simp: kernel_main_def Let_def split: prod.splits)
  show thesis
  proof (cases r)
    case (Inl e)
    then show thesis using memory [of e m] mem assms by (auto simp: kernel_main_def Let_def split: prod.splits)
  next
    case (Inr u)
    then obtain q s where mig: "migration_run (k_sentinel k) = Some (q, s)"
      using assms mem by (cases "migration_run (k_sentinel k)") (auto simp: kernel_main_def Let_def split: prod.splits)
    show thesis
    proof (cases q)
      case (Inl e)
      then show thesis using migration [of m e s] mem Inr mig assms by (auto simp: kernel_main_def Let_def split: prod.splits)
    next
      case (Inr u')
      then obtain f where "fs_init (hw_root_fs hw) (k_fs k) = Some f"
        using assms mem mig \<open>r = Inr u\<close>
        by (cases "fs_init (hw_root_fs hw) (k_fs k)") (auto simp: kernel_main_def boot_services_def Let_def split: prod.splits)
      moreover obtain sr sc where "sched_init (hw_trampoline hw) (hw_idle_loop hw) (hw_idle_stack hw) (k_sched k) = (sr, sc)" by fastforce
      ultimately show thesis
        using services [of m s f sr sc] mem mig \<open>r = Inr u\<close> Inr assms
        by (cases sr) (auto simp: kernel_main_def boot_services_def Let_def split: prod.splits)
    qed
  qed
qed

lemma kernel_main_returns:
  assumes "memory_init memory_map (k_memory k) = Some (Ok (), m)" "migration_run (k_sentinel k) = Some (Ok (), s)"
    "fs_init (hw_root_fs hw) (k_fs k) = Some f"
  obtains h k' where "kernel_main hw memory_map k = Some (h, k')"
proof -
  have "kernel_main hw memory_map k \<noteq> None"
    using assms by (simp add: kernel_main_def boot_services_def Let_def split: prod.splits)
  then show thesis using that by fastforce
qed

text \<open>The start-up image of Safe Mode: without memory it stops before the terminal is started.\<close>

lemma safemode_needs_memory:
  assumes "memory_init memory_map m = Some (Err e, m')"
  shows "safemode_kernel_main memory_map block_addr u m block =
    Some (serial_write (bytes (''  memory: FAILED'' @ nl))
      (serial_write (bytes (''Golem Linux gkern-safemode v0.1.0 (SAFE MODE)'' @ nl)) u), m')"
  using assms by (simp add: safemode_kernel_main_def Let_def)

lemma safemode_with_memory:
  assumes "memory_init memory_map m = Some (Ok (), m')"
  shows "map_option snd (safemode_kernel_main memory_map block_addr u m block) =
    map_option (\<lambda>_. m') (safemode_run (serial_write (bytes (''  memory: initialized'' @ nl))
      (serial_write (bytes (''Golem Linux gkern-safemode v0.1.0 (SAFE MODE)'' @ nl)) u)) block block_addr)"
  using assms by (simp add: safemode_kernel_main_def Let_def option.map_comp comp_def)

section \<open>An example machine\<close>

definition example_hardware :: "example_device Hardware" where
  "example_hardware =
     \<lparr> hw_platform = example_platform, hw_cpuid = (\<lambda>_. (0, 0, 0, 0)), hw_trampoline = 0x200, hw_idle_loop = 0x300,
       hw_idle_stack = \<lparr> stack_base = 0x10000, stack_len = 4096 \<rparr>, hw_syscall_entry = 0x400, hw_root_fs = 7 \<rparr>"

definition linked_kernel :: "u8 list \<Rightarrow> example_device Kernel" where
  "linked_kernel page =
     \<lparr> k_uart = typing_uart [], k_ipc = example_world [], k_memory = machine_after_firmware,
       k_sentinel = \<lparr> sn_audit = AuditTrail_new, sn_monitor = Monitor_new, sn_page = page \<rparr>,
       k_fs = \<lparr> vfs = vfs_new (\<lambda>_. RamFs_new), initialized = False \<rparr>,
       k_sched = \<lparr> NEXT_PID = NEXT_PID_INIT, SCHEDULER = Scheduler_new, cpu = example_machine 0x2000 \<rparr>,
       k_syscall = (SYSCALL_TABLE, \<lambda>_. 0) \<rparr>"


end
