(* ===== verification/Invisible.thy ===== *)
theory Invisible
  imports Audit_Log
begin

text \<open>
  The visibility gate of \<open>sentinel/invisible.rs\<close>.  The constant \<open>SAFE_MODE_ACTIVE\<close> depends on the build, so it is
  an argument: \<open>False\<close> for \<open>gkern\<close>, \<open>True\<close> for \<open>gkern-safemode\<close>.  The optional audit log is passed in and returned.
\<close>

datatype CallerContext = Agent | Operator | SafeMode | Kernel

datatype Operation = Handshake | Monitor | ReadStatus | ReadAudit | Configure | VerifyAudit

datatype InvisibleError = NotPresent | Forbidden string

fun InvisibleError_to_errno :: "InvisibleError \<Rightarrow> int" where
  "InvisibleError_to_errno NotPresent = 38"
| "InvisibleError_to_errno (Forbidden _) = 1"

fun is_authorized :: "bool \<Rightarrow> CallerContext \<Rightarrow> Operation \<Rightarrow> bool" where
  "is_authorized safe_mode_active Agent Handshake = True"
| "is_authorized safe_mode_active Operator Handshake = True"
| "is_authorized safe_mode_active SafeMode Handshake = False"
| "is_authorized safe_mode_active Kernel Handshake = True"
| "is_authorized safe_mode_active Kernel Monitor = True"
| "is_authorized safe_mode_active _ Monitor = False"
| "is_authorized safe_mode_active Operator ReadStatus = True"
| "is_authorized safe_mode_active Kernel ReadStatus = True"
| "is_authorized safe_mode_active SafeMode ReadStatus = True"
| "is_authorized safe_mode_active Agent ReadStatus = False"
| "is_authorized safe_mode_active SafeMode ReadAudit = safe_mode_active"
| "is_authorized safe_mode_active _ ReadAudit = False"
| "is_authorized safe_mode_active SafeMode Configure = safe_mode_active"
| "is_authorized safe_mode_active _ Configure = False"
| "is_authorized safe_mode_active Kernel VerifyAudit = True"
| "is_authorized safe_mode_active SafeMode VerifyAudit = True"
| "is_authorized safe_mode_active _ VerifyAudit = False"

fun op_name :: "Operation \<Rightarrow> string" where
  "op_name Handshake = ''handshake''"
| "op_name Monitor = ''monitor''"
| "op_name ReadStatus = ''read_status''"
| "op_name ReadAudit = ''read_audit''"
| "op_name Configure = ''configure''"
| "op_name VerifyAudit = ''verify_audit''"

definition gate ::
  "bool \<Rightarrow> CallerContext \<Rightarrow> Operation \<Rightarrow> string \<Rightarrow> u64 \<Rightarrow> AuditInner option \<Rightarrow>
    (InvisibleError + unit) \<times> AuditInner option" where
  "gate safe_mode_active ctx op actor_id timestamp audit =
    (if is_authorized safe_mode_active ctx op then (Ok (), audit)
     else if ctx = Agent then
       (Err NotPresent,
        (case audit of
           None \<Rightarrow> None
         | Some a \<Rightarrow> Some (snd (audit_record timestamp actor_id ''invisible_probe'' (op_name op) a))))
     else (Err (Forbidden (op_name op)), audit))"

fun describe_error :: "InvisibleError \<Rightarrow> string" where
  "describe_error NotPresent = ''ENOSYS''"
| "describe_error (Forbidden op) = ''EPERM: '' @ op"

section \<open>Properties\<close>

text \<open>C24: the gate.  Reading the audit log and configuring are granted exactly to the Safe Mode context of the Safe
  Mode build.  An agent is granted the handshake alone; everything else it asks gives the one answer
  \<open>NotPresent\<close> (\<open>ENOSYS\<close>) in either build and leaves exactly one entry naming the operation in the log.  Any other
  refusal names the operation, and nothing but an agent's probe is logged.\<close>

theorem invisible_gate:
  "(fst (gate active ctx ReadAudit actor ts trail) = Ok () \<longleftrightarrow> active \<and> ctx = SafeMode) \<and>
   (fst (gate active ctx Configure actor ts trail) = Ok () \<longleftrightarrow> active \<and> ctx = SafeMode) \<and>
   (fst (gate active Agent op actor ts trail) = Ok () \<longleftrightarrow> op = Handshake) \<and>
   (op = Handshake \<or>
      gate active Agent op actor ts trail =
        (Err NotPresent, map_option (\<lambda>g. snd (audit_record ts actor ''invisible_probe'' (op_name op) g)) trail)) \<and>
   (ctx = Agent \<or>
      gate active ctx op actor ts trail = (Ok (), trail) \<or> gate active ctx op actor ts trail = (Err (Forbidden (op_name op)), trail)) \<and>
   fst (gate active Agent op actor ts trail) = fst (gate active' Agent op actor ts None)"
proof (intro conjI)
  show "fst (gate active ctx ReadAudit actor ts trail) = Ok () \<longleftrightarrow> active \<and> ctx = SafeMode"
    "fst (gate active ctx Configure actor ts trail) = Ok () \<longleftrightarrow> active \<and> ctx = SafeMode"
    by (cases ctx; simp add: gate_def)+
  show "fst (gate active Agent op actor ts trail) = Ok () \<longleftrightarrow> op = Handshake"
    "fst (gate active Agent op actor ts trail) = fst (gate active' Agent op actor ts None)"
    "op = Handshake \<or>
      gate active Agent op actor ts trail =
        (Err NotPresent, map_option (\<lambda>g. snd (audit_record ts actor ''invisible_probe'' (op_name op) g)) trail)"
    by (cases op; cases trail; simp add: gate_def)+
qed (auto simp: gate_def)

end
