(* ===== verification/Handshake.thy ===== *)
theory Handshake
  imports BTree_Map
begin

text \<open>
  The agent registry of \<open>sentinel/handshake.rs\<close>: the map behind the registry's lock, keyed by agent identifier.
\<close>

section \<open>The registry\<close>

datatype PermissionTier = ReadOnly | Write | Execute

fun PermissionTier_as_str :: "PermissionTier \<Rightarrow> string" where
  "PermissionTier_as_str ReadOnly = ''READ_ONLY''"
| "PermissionTier_as_str Write = ''WRITE''"
| "PermissionTier_as_str Execute = ''EXECUTE''"

fun downgrade :: "PermissionTier \<Rightarrow> PermissionTier option" where
  "downgrade Execute = Some Write"
| "downgrade Write = Some ReadOnly"
| "downgrade ReadOnly = None"

record HandshakeRequest =
  rq_agent_id :: string
  rq_tier :: PermissionTier
  rq_heartbeat_interval_secs :: u64

record HandshakeAck =
  ack_agent_id :: string
  ack_token :: string
  ack_registered_at :: u64

datatype HandshakeError = AlreadyRegistered | EmptyAgentId | AgentIdTooLong | HeartbeatOutOfRange

definition MAX_AGENT_ID_LEN :: nat where "MAX_AGENT_ID_LEN = 128"
definition MIN_HEARTBEAT_SECS :: u64 where "MIN_HEARTBEAT_SECS = 1"
definition MAX_HEARTBEAT_SECS :: u64 where "MAX_HEARTBEAT_SECS = 3600"

record AgentRecord =
  agent_id :: string
  tier :: PermissionTier
  original_tier :: PermissionTier
  heartbeat_interval_secs :: u64
  registered_at :: u64
  last_heartbeat :: u64
  locked :: bool

type_synonym Registry = "(string, AgentRecord) btree"

definition Registry_new :: Registry where
  "Registry_new = bt_new"

definition handshake_validate :: "HandshakeRequest \<Rightarrow> HandshakeError + unit" where
  "handshake_validate req =
    (if rq_agent_id req = [] then Err EmptyAgentId
     else if MAX_AGENT_ID_LEN < length (rq_agent_id req) then Err AgentIdTooLong
     else if rq_heartbeat_interval_secs req < MIN_HEARTBEAT_SECS \<or> MAX_HEARTBEAT_SECS < rq_heartbeat_interval_secs req
     then Err HeartbeatOutOfRange
     else Ok ())"

definition clamp_heartbeat :: "u64 \<Rightarrow> u64" where
  "clamp_heartbeat secs =
    (if secs < MIN_HEARTBEAT_SECS then MIN_HEARTBEAT_SECS
     else if MAX_HEARTBEAT_SECS < secs then MAX_HEARTBEAT_SECS else secs)"

definition register :: "HandshakeRequest \<Rightarrow> u64 \<Rightarrow> Registry \<Rightarrow> (HandshakeError + AgentRecord) \<times> Registry" where
  "register req now g =
    (case handshake_validate req of
       Inl e \<Rightarrow> (Err e, g)
     | Inr _ \<Rightarrow>
         if bt_contains_key (rq_agent_id req) g then (Err AlreadyRegistered, g)
         else
           let clamped = clamp_heartbeat (rq_heartbeat_interval_secs req);
               rec = \<lparr>agent_id = rq_agent_id req, tier = rq_tier req, original_tier = rq_tier req,
                      heartbeat_interval_secs = clamped, registered_at = now, last_heartbeat = now, locked = False\<rparr>
           in (Ok rec, bt_insert (rq_agent_id req) rec g))"

definition heartbeat :: "string \<Rightarrow> u64 \<Rightarrow> Registry \<Rightarrow> bool \<times> Registry" where
  "heartbeat aid now g =
    (if bt_contains_key aid g then (True, bt_get_mut aid (\<lambda>rec. rec\<lparr>last_heartbeat := now\<rparr>) g) else (False, g))"

definition set_tier :: "string \<Rightarrow> PermissionTier \<Rightarrow> Registry \<Rightarrow> PermissionTier option \<times> Registry" where
  "set_tier aid t g =
    (case bt_get aid g of
       None \<Rightarrow> (None, g)
     | Some rec \<Rightarrow> (Some (tier rec), bt_get_mut aid (\<lambda>rec. rec\<lparr>tier := t\<rparr>) g))"

definition lock :: "string \<Rightarrow> Registry \<Rightarrow> bool \<times> Registry" where
  "lock aid g =
    (if bt_contains_key aid g then (True, bt_get_mut aid (\<lambda>rec. rec\<lparr>locked := True, tier := ReadOnly\<rparr>) g)
     else (False, g))"

definition registry_get :: "string \<Rightarrow> Registry \<Rightarrow> AgentRecord option" where
  "registry_get aid g = bt_get aid g"

definition deregister :: "string \<Rightarrow> Registry \<Rightarrow> bool \<times> Registry" where
  "deregister aid g = (bt_contains_key aid g, bt_remove aid g)"

definition agent_ids :: "Registry \<Rightarrow> string list" where
  "agent_ids g = map fst g"

definition registry_len :: "Registry \<Rightarrow> nat" where
  "registry_len g = length g"

definition token_from_audit_hash :: "string \<Rightarrow> string" where
  "token_from_audit_hash audit_hash = take (min (length audit_hash) 32) audit_hash"

section \<open>Reachable registries\<close>

inductive registry_step :: "Registry \<Rightarrow> Registry \<Rightarrow> bool" where
  register: "registry_step g (snd (register req now g))"
| heartbeat: "registry_step g (snd (heartbeat aid now g))"
| set_tier: "registry_step g (snd (set_tier aid t g))"
| lock: "registry_step g (snd (lock aid g))"

inductive registry_reachable :: "Registry \<Rightarrow> bool" where
  new: "registry_reachable Registry_new"
| step: "registry_reachable g \<Longrightarrow> registry_step g g' \<Longrightarrow> registry_reachable g'"
| deregister: "registry_reachable g \<Longrightarrow> registry_reachable (snd (deregister aid g))"

definition record_ok :: "string \<Rightarrow> AgentRecord \<Rightarrow> bool" where
  "record_ok aid rec \<longleftrightarrow>
    agent_id rec = aid \<and> aid \<noteq> [] \<and> length aid \<le> MAX_AGENT_ID_LEN \<and>
    MIN_HEARTBEAT_SECS \<le> heartbeat_interval_secs rec \<and> heartbeat_interval_secs rec \<le> MAX_HEARTBEAT_SECS"

definition registry_ok :: "Registry \<Rightarrow> bool" where
  "registry_ok g \<longleftrightarrow> bt_sorted g \<and> (\<forall>aid rec. bt_get aid g = Some rec \<longrightarrow> record_ok aid rec)"

lemma clamp_id: "handshake_validate req = Ok () \<Longrightarrow>
    clamp_heartbeat (rq_heartbeat_interval_secs req) = rq_heartbeat_interval_secs req"
  by (auto simp: handshake_validate_def clamp_heartbeat_def split: if_splits)

lemma validate_Ok: "handshake_validate req = Ok () \<longleftrightarrow>
    rq_agent_id req \<noteq> [] \<and> length (rq_agent_id req) \<le> MAX_AGENT_ID_LEN \<and>
    MIN_HEARTBEAT_SECS \<le> rq_heartbeat_interval_secs req \<and> rq_heartbeat_interval_secs req \<le> MAX_HEARTBEAT_SECS"
  by (auto simp: handshake_validate_def not_less)

lemma registry_ok_get_mut:
  assumes "registry_ok g" "\<And>rec. record_ok aid rec \<Longrightarrow> record_ok aid (f rec)"
  shows "registry_ok (bt_get_mut aid f g)"
  using assms by (auto simp: registry_ok_def bt_simps bt_sorted_intros split: if_splits)

lemma register_cases:
  obtains (Err) e where "register req now g = (Err e, g)"
  | (Ok) rec where "register req now g = (Ok rec, bt_insert (rq_agent_id req) rec g)"
      "bt_get (rq_agent_id req) g = None" "record_ok (rq_agent_id req) rec" "\<not> locked rec"
proof (cases "handshake_validate req")
  case (Inl e)
  then show ?thesis using Err by (simp add: register_def)
next
  case (Inr u)
  then have v: "handshake_validate req = Ok ()" by simp
  show ?thesis
  proof (cases "bt_contains_key (rq_agent_id req) g")
    case False
    then show ?thesis
      using Ok v validate_Ok [of req]
      by (simp add: register_def clamp_id [OF v] Let_def bt_contains_key_def record_ok_def)
  qed (use Err v in \<open>simp add: register_def\<close>)
qed

lemma registry_step_ok: "registry_step g g' \<Longrightarrow> registry_ok g \<Longrightarrow> registry_ok g'"
proof (induction rule: registry_step.induct)
  case (register g req now)
  then show ?case
    by (cases rule: register_cases [of req now g]) (auto simp: registry_ok_def bt_simps bt_sorted_intros split: if_splits)
qed (auto simp: heartbeat_def set_tier_def lock_def split: option.splits intro!: registry_ok_get_mut simp: record_ok_def)

lemma locked_kept:
  assumes "registry_step g g'" "bt_get aid g = Some rec" "locked rec"
  shows "\<exists>rec'. bt_get aid g' = Some rec' \<and> locked rec'"
  using assms
proof (induction rule: registry_step.induct)
  case (register g req now)
  then show ?case by (cases rule: register_cases [of req now g]) (auto simp: bt_simps)
qed (auto simp: heartbeat_def set_tier_def lock_def bt_simps split: option.splits)

section \<open>Properties\<close>

text \<open>C25: in every reachable registry each record is filed under its own non-empty identifier of at most 128 bytes,
  with a heartbeat interval between one second and one hour; a registration succeeds exactly for a valid request
  under a free identifier and changes nothing otherwise; and a locked agent stays locked, whatever happens short of
  its deregistration.\<close>

theorem registry_invariant:
  assumes "registry_reachable g"
  shows "registry_ok g \<and>
    ((\<exists>rec. fst (register req now g) = Ok rec) \<longleftrightarrow> handshake_validate req = Ok () \<and> registry_get (rq_agent_id req) g = None) \<and>
    (\<forall>e. fst (register req now g) = Err e \<longrightarrow> snd (register req now g) = g) \<and>
    (\<forall>aid rec g'. registry_get aid g = Some rec \<and> locked rec \<and> registry_step\<^sup>*\<^sup>* g g' \<longrightarrow>
      (\<exists>rec'. registry_get aid g' = Some rec' \<and> locked rec'))"
proof (intro conjI allI impI)
  show "registry_ok g" using assms
  proof induction
    case (deregister g aid)
    then show ?case by (auto simp: registry_ok_def deregister_def bt_simps bt_sorted_intros split: if_splits)
  qed (auto simp: registry_step_ok, simp add: registry_ok_def Registry_new_def bt_simps)
  show "(\<exists>rec. fst (register req now g) = Ok rec) \<longleftrightarrow> handshake_validate req = Ok () \<and> registry_get (rq_agent_id req) g = None"
    by (auto simp: register_def registry_get_def bt_contains_key_def Let_def split: sum.splits)
  show "fst (register req now g) = Err e \<Longrightarrow> snd (register req now g) = g" for e
    by (cases rule: register_cases [of req now g]) auto
  fix aid rec g'
  assume "registry_get aid g = Some rec \<and> locked rec \<and> registry_step\<^sup>*\<^sup>* g g'"
  then have "registry_step\<^sup>*\<^sup>* g g'" "\<exists>rec. bt_get aid g = Some rec \<and> locked rec" by (auto simp: registry_get_def)
  then show "\<exists>rec'. registry_get aid g' = Some rec' \<and> locked rec'"
    unfolding registry_get_def by (induction rule: rtranclp_induct) (blast intro: locked_kept)+
qed

theorem registry_invariant_witness:
  "registry_ok Registry_new \<and>
    (\<exists>rec. fst (register \<lparr>rq_agent_id = ''a'', rq_tier = Write, rq_heartbeat_interval_secs = 5\<rparr> 0 Registry_new) = Ok rec)"
  using registry_invariant [OF registry_reachable.new, of "\<lparr>rq_agent_id = ''a'', rq_tier = Write, rq_heartbeat_interval_secs = 5\<rparr>" 0]
  by (simp add: validate_Ok registry_get_def Registry_new_def bt_simps MAX_AGENT_ID_LEN_def MIN_HEARTBEAT_SECS_def MAX_HEARTBEAT_SECS_def)

text \<open>Deregistering and registering again clears the lock.\<close>

lemma reregister_clears_lock:
  assumes "handshake_validate req = Ok ()"
  shows "\<exists>rec. fst (register req now (snd (deregister (rq_agent_id req) g))) = Ok rec \<and> \<not> locked rec \<and> tier rec = rq_tier req"
  using assms by (simp add: register_def deregister_def bt_simps Let_def)

end
