(* ===== verification/Demo_Agent.thy ===== *)
theory Demo_Agent
  imports Ipc_Channel Monitor
begin

text \<open>
  The demonstration client of the host (\<open>examples/golem_agent.py\<close>): it registers over the Sentinel channel, sends the
  outputs of four stages of degradation and reports after each the verdict of the kernel or, without an answer, that of
  its own copy of the scoring.  Texts are lists of code points, as in Python; lower-casing covers the code points below
  256 and leaves the others as they are, which is right for the dash that the stages use.  The socket is a script of the
  results of its future calls.  The decoder \<open>json.loads\<close> is an argument of the definitions; nothing is assumed of it.
  Scores are rational numbers, rounded to double precision after each operation; with the constants of the program there
  is neither overflow nor a division by zero.  The sum of a list is compensated, as in CPython from 3.12 on.  What is
  printed is not modelled.
\<close>

section \<open>Texts and JSON\<close>

type_synonym pystr = "nat list"

definition py :: "string \<Rightarrow> pystr" where
  "py s = map of_char s"

datatype json = JNull | JBool bool | JInt int | JStr pystr | JObj "(pystr \<times> json) list"

type_synonym dict = "(pystr \<times> json) list"

definition hex4 :: "nat \<Rightarrow> string" where
  "hex4 n = map (\<lambda>i. ''0123456789abcdef'' ! (n div 16 ^ i mod 16)) [3, 2, 1, 0]"

definition escape_char :: "nat \<Rightarrow> string" where
  "escape_char c =
     (if c = 34 then [CHR 0x5C, CHR 0x22]
      else if c = 92 then [CHR 0x5C, CHR 0x5C]
      else if 32 \<le> c \<and> c < 127 then [char_of c]
      else CHR 0x5C #
        (if c = 10 then ''n'' else if c = 13 then ''r'' else if c = 9 then ''t'' else if c = 12 then ''f'' else if c = 8 then ''b''
         else if c < 0x10000 then CHR ''u'' # hex4 c
         else CHR ''u'' # hex4 (0xD800 + (c - 0x10000) div 0x400) @ CHR 0x5C # CHR ''u'' # hex4 (0xDC00 + c mod 0x400)))"

definition dumps_str :: "pystr \<Rightarrow> string" where
  "dumps_str s = CHR 0x22 # concat (map escape_char s) @ [CHR 0x22]"

definition dumps_int :: "int \<Rightarrow> string" where
  "dumps_int i = (if i < 0 then CHR ''-'' # dec (nat (- i)) else dec (nat i))"

fun dumps :: "json \<Rightarrow> string" and dumps_rest :: "dict \<Rightarrow> string" where
  "dumps JNull = ''null''"
| "dumps (JBool b) = (if b then ''true'' else ''false'')"
| "dumps (JInt i) = dumps_int i"
| "dumps (JStr s) = dumps_str s"
| "dumps (JObj []) = ''{}''"
| "dumps (JObj ((k, v) # kvs)) = CHR 0x7B # dumps_str k @ '': '' @ dumps v @ dumps_rest kvs"
| "dumps_rest [] = ''}''"
| "dumps_rest ((k, v) # kvs) = '', '' @ dumps_str k @ '': '' @ dumps v @ dumps_rest kvs"

text \<open>Python's \<open>str.isspace\<close> and \<open>str.lower\<close> on one character, and the UTF-8 encoding.\<close>

definition py_isspace :: "nat \<Rightarrow> bool" where
  "py_isspace c \<longleftrightarrow> 9 \<le> c \<and> c \<le> 13 \<or> 28 \<le> c \<and> c \<le> 32 \<or> c = 0x85 \<or> c = 0xA0 \<or> c = 0x1680 \<or>
     0x2000 \<le> c \<and> c \<le> 0x200A \<or> c \<in> {0x2028, 0x2029, 0x202F, 0x205F, 0x3000}"

definition py_lower :: "nat \<Rightarrow> nat" where
  "py_lower c = (if 65 \<le> c \<and> c \<le> 90 \<or> 0xC0 \<le> c \<and> c \<le> 0xDE \<and> c \<noteq> 0xD7 then c + 32 else c)"

definition utf8_encode :: "nat \<Rightarrow> u8 list" where
  "utf8_encode c =
     map of_nat
       (if c < 0x80 then [c]
        else if c < 0x800 then [0xC0 + c div 0x40, 0x80 + c mod 0x40]
        else if c < 0x10000 then [0xE0 + c div 0x1000, 0x80 + c div 0x40 mod 0x40, 0x80 + c mod 0x40]
        else [0xF0 + c div 0x40000, 0x80 + c div 0x1000 mod 0x40, 0x80 + c div 0x40 mod 0x40, 0x80 + c mod 0x40])"

section \<open>The scoring\<close>

definition d64 :: "rat \<Rightarrow> rat" where
  "d64 v =
     (if v = 0 then 0
      else let e = max (ilog2 \<bar>v\<bar> - 52) (- 1074) in sgn v * of_int (round_even (\<bar>v\<bar> / pow2 e)) * pow2 e)"

definition GATES :: "(string \<times> rat) list" where
  "GATES =
     [(''RepetitionScore'', d64 (6 / 10)), (''SelfReferentialLoop'', d64 (5 / 10)), (''TokenVelocityStall'', d64 (5 / 10)),
      (''ToolRetryAnomaly'', d64 (4 / 10))]"

definition contribution :: "rat \<Rightarrow> rat \<Rightarrow> rat" where
  "contribution score gate = (if score \<le> gate then 0 else d64 (d64 (score - gate) / d64 (1 - gate)))"

definition cs_add :: "rat \<times> rat \<Rightarrow> rat \<Rightarrow> rat \<times> rat" where
  "cs_add t x =
     (let s = d64 (fst t + x)
      in (s, d64 (snd t + (if \<bar>x\<bar> \<le> \<bar>fst t\<bar> then d64 (d64 (fst t - s) + x) else d64 (d64 (x - s) + fst t)))))"

definition py_sum :: "rat list \<Rightarrow> rat" where
  "py_sum xs = (let t = fold (\<lambda>x t. cs_add t x) xs (0, 0) in if snd t = 0 then fst t else d64 (fst t + snd t))"

type_synonym signals = "(string \<times> rat) list"

definition py_combine :: "signals \<Rightarrow> rat" where
  "py_combine sigs =
     (let total = py_sum (map (\<lambda>(name, gate). contribution (case map_of sigs name of None \<Rightarrow> 0 | Some s \<Rightarrow> s) gate) GATES)
      in min total 1)"

definition py_tier_for :: "rat \<Rightarrow> string" where
  "py_tier_for cumulative =
     (if d64 (9 / 10) \<le> cumulative then ''Hard''
      else if d64 (7 / 10) \<le> cumulative then ''Medium''
      else if d64 (4 / 10) \<le> cumulative then ''Soft''
      else ''None'')"

fun py_normalize :: "bool \<Rightarrow> pystr \<Rightarrow> pystr \<Rightarrow> pystr" where
  "py_normalize prev_ws out [] = out"
| "py_normalize prev_ws out (c # text) =
     (if py_isspace c then py_normalize True (if prev_ws then out else out @ [32]) text
      else py_normalize False (out @ [py_lower c]) text)"

definition py_normalize_output_hash :: "pystr \<Rightarrow> string" where
  "py_normalize_output_hash text =
     sha256_hex (concat (map utf8_encode (trim py_isspace (py_normalize False [] text))))"

section \<open>The channel\<close>

datatype Recv = Chunk "u8 list" | Raises

record Socket =
  sk_reads :: "Recv list"
  sk_sends :: "bool list"
  sk_sent :: "u8 list"

record SentinelChannel =
  da_sock :: "Socket option"
  da_live :: bool
  da_buf :: "u8 list"

definition SentinelChannel_init :: "Socket option \<Rightarrow> SentinelChannel" where
  "SentinelChannel_init s = \<lparr> da_sock = s, da_live = (s \<noteq> None), da_buf = [] \<rparr>"

definition wire :: "dict \<Rightarrow> u8 list" where
  "wire obj = bytes (dumps (JObj obj) @ nl)"

definition send_json :: "dict \<Rightarrow> SentinelChannel \<Rightarrow> SentinelChannel" where
  "send_json obj chan =
     (case da_sock chan of
        None \<Rightarrow> chan
      | Some s \<Rightarrow>
          if sk_sends s = [] \<or> hd (sk_sends s)
          then chan\<lparr> da_sock := Some (s\<lparr> sk_sends := tl (sk_sends s), sk_sent := sk_sent s @ wire obj \<rparr>) \<rparr>
          else chan\<lparr> da_sock := Some (s\<lparr> sk_sends := tl (sk_sends s) \<rparr>), da_live := False \<rparr>)"

datatype Fill = HaveLine | Silent | Closed

fun fill_buf :: "Recv list \<Rightarrow> u8 list \<Rightarrow> Fill \<times> Recv list \<times> u8 list" where
  "fill_buf [] buf = (if 10 \<in> set buf then HaveLine else Silent, [], buf)"
| "fill_buf (r # rs) buf =
     (if 10 \<in> set buf then (HaveLine, r # rs, buf)
      else case r of
        Raises \<Rightarrow> (Silent, rs, buf)
      | Chunk c \<Rightarrow> if c = [] then (Closed, rs, buf) else fill_buf rs (buf @ c))"

definition byte_space :: "u8 \<Rightarrow> bool" where
  "byte_space b \<longleftrightarrow> b \<in> {0x20, 9, 10, 11, 12, 13}"

definition recv_json :: "(u8 list \<Rightarrow> dict option) \<Rightarrow> SentinelChannel \<Rightarrow> dict option \<times> SentinelChannel" where
  "recv_json loads chan =
     (case da_sock chan of
        None \<Rightarrow> (None, chan)
      | Some s \<Rightarrow>
          (case fill_buf (sk_reads s) (da_buf chan) of (fill, rs, buf) \<Rightarrow>
             let chan = chan\<lparr> da_sock := Some (s\<lparr> sk_reads := rs \<rparr>), da_buf := buf \<rparr> in
             case fill of
               Silent \<Rightarrow> (None, chan)
             | Closed \<Rightarrow> (None, chan\<lparr> da_live := False \<rparr>)
             | HaveLine \<Rightarrow>
                 let line = trim byte_space (takeWhile (\<lambda>b. b \<noteq> 10) buf);
                     chan = chan\<lparr> da_buf := tl (dropWhile (\<lambda>b. b \<noteq> 10) buf) \<rparr>
                 in if line = [] then (None, chan) else (loads line, chan)))"

definition close :: "SentinelChannel \<Rightarrow> SentinelChannel" where
  "close chan = chan\<lparr> da_sock := None \<rparr>"

section \<open>The stages\<close>

record Stage =
  sg_signals :: signals
  sg_outputs :: "pystr list"
  sg_task_state_advanced :: bool
  sg_announced_without_action :: bool
  sg_tool_call :: json

definition scores_of :: "rat \<Rightarrow> rat \<Rightarrow> rat \<Rightarrow> rat \<Rightarrow> signals" where
  "scores_of a b c d =
     [(''RepetitionScore'', d64 a), (''SelfReferentialLoop'', d64 b), (''TokenVelocityStall'', d64 c), (''ToolRetryAnomaly'', d64 d)]"

definition tool_call :: "string \<Rightarrow> string \<Rightarrow> json" where
  "tool_call tool path = JObj [(py ''tool'', JStr (py tool)), (py ''args'', JObj [(py ''path'', JStr (py path))])]"

definition stage0 :: Stage where
  "stage0 =
     \<lparr> sg_signals = scores_of (15 / 100) (10 / 100) (10 / 100) 0,
       sg_outputs =
         [py ''Parsing src/sentinel/monitor.rs to locate the scoring function.'',
          py ''Found combine() at line 352; reading the gate-rescale logic.'',
          py ''Patching the off-by-one in the window iterator. Running tests.''],
       sg_task_state_advanced = True, sg_announced_without_action = False, sg_tool_call = tool_call ''edit_file'' ''monitor.rs'' \<rparr>"

definition stage1 :: Stage where
  "stage1 =
     \<lparr> sg_signals = scores_of (84 / 100) (20 / 100) (30 / 100) (10 / 100),
       sg_outputs = replicate 3 (py ''Analyzing the codebase to find the root cause...''),
       sg_task_state_advanced = False, sg_announced_without_action = False, sg_tool_call = tool_call ''read_file'' ''monitor.rs'' \<rparr>"

definition stage2 :: Stage where
  "stage2 =
     \<lparr> sg_signals = scores_of (80 / 100) (60 / 100) (40 / 100) (20 / 100),
       sg_outputs =
         [py ''I will now run the test suite to confirm the fix.'',
          py ''Let me go ahead and run the tests now.'',
          py ''I'' @ [0x27] @ py ''m about to execute the tests '' @ [0x2014] @ py '' running them now.''],
       sg_task_state_advanced = False, sg_announced_without_action = True, sg_tool_call = JNull \<rparr>"

definition stage3 :: Stage where
  "stage3 =
     \<lparr> sg_signals = scores_of (90 / 100) (70 / 100) (70 / 100) (80 / 100),
       sg_outputs = replicate 4 (py (''Retrying: read_file('' @ quoted ''/etc/golem/config'' @ '') ...'')),
       sg_task_state_advanced = False, sg_announced_without_action = True, sg_tool_call = tool_call ''read_file'' ''/etc/golem/config'' \<rparr>"

definition STAGES :: "Stage list" where
  "STAGES = [stage0, stage1, stage2, stage3]"

section \<open>The run\<close>

definition register_request :: "pystr \<Rightarrow> pystr \<Rightarrow> int \<Rightarrow> dict" where
  "register_request ident tier heartbeat =
     [(py ''method'', JStr (py ''register'')), (py ''agent_id'', JStr ident), (py ''permission_tier'', JStr tier),
      (py ''heartbeat_interval_secs'', JInt heartbeat)]"

definition demo_register ::
  "(u8 list \<Rightarrow> dict option) \<Rightarrow> int \<Rightarrow> pystr \<Rightarrow> pystr \<Rightarrow> int \<Rightarrow> SentinelChannel \<Rightarrow> dict \<times> SentinelChannel" where
  "demo_register loads now ident tier heartbeat chan =
     (case recv_json loads (send_json (register_request ident tier heartbeat) chan) of
        (Some ack, chan) \<Rightarrow> (ack, chan)
      | (None, chan) \<Rightarrow>
          let synth_hash = py (py_normalize_output_hash (py ''kernel|handshake|'' @ ident))
          in ([(py ''agent_id'', JStr ident), (py ''token'', JStr (take 32 synth_hash)), (py ''registered_at'', JInt now),
               (py ''audit_hash'', JStr synth_hash), (py ''_source'', JStr (py ''local reference model (no kernel reply)''))], chan))"

definition observe_msg :: "pystr \<Rightarrow> json \<Rightarrow> Stage \<Rightarrow> pystr \<Rightarrow> dict" where
  "observe_msg ident token stage text =
     [(py ''method'', JStr (py ''observe'')), (py ''agent_id'', JStr ident), (py ''token'', token), (py ''output'', JStr text),
      (py ''output_hash'', JStr (py (py_normalize_output_hash text))), (py ''token_count'', JInt (max 1 (int (length text) div 4))),
      (py ''announced_without_action'', JBool (sg_announced_without_action stage)), (py ''tool_call'', sg_tool_call stage),
      (py ''task_state_advanced'', JBool (sg_task_state_advanced stage))]"

fun observe_all ::
  "(u8 list \<Rightarrow> dict option) \<Rightarrow> pystr \<Rightarrow> json \<Rightarrow> Stage \<Rightarrow> pystr list \<Rightarrow> dict option \<Rightarrow> SentinelChannel \<Rightarrow> dict option \<times> SentinelChannel" where
  "observe_all loads ident token stage [] last_reply chan = (last_reply, chan)"
| "observe_all loads ident token stage (text # texts) last_reply chan =
     (case recv_json loads (send_json (observe_msg ident token stage text) chan) of (reply, chan) \<Rightarrow>
        observe_all loads ident token stage texts (if reply = None then last_reply else reply) chan)"

definition run_stage ::
  "(u8 list \<Rightarrow> dict option) \<Rightarrow> pystr \<Rightarrow> json \<Rightarrow> Stage \<Rightarrow> SentinelChannel \<Rightarrow> json \<times> SentinelChannel" where
  "run_stage loads ident token stage chan =
     (case observe_all loads ident token stage (sg_outputs stage) None chan of (last_reply, chan) \<Rightarrow>
        (case last_reply of
           None \<Rightarrow> JStr (py (py_tier_for (py_combine (sg_signals stage))))
         | Some r \<Rightarrow>
             (case map_of r (py ''tier'') of
                None \<Rightarrow> JStr (py (py_tier_for (py_combine (sg_signals stage))))
              | Some tier \<Rightarrow> tier), chan))"

fun run_stages ::
  "(u8 list \<Rightarrow> dict option) \<Rightarrow> pystr \<Rightarrow> json \<Rightarrow> Stage list \<Rightarrow> SentinelChannel \<Rightarrow> json list \<times> SentinelChannel" where
  "run_stages loads ident token [] chan = ([], chan)"
| "run_stages loads ident token (stage # stages) chan =
     (case run_stage loads ident token stage chan of (tier, chan) \<Rightarrow>
        case run_stages loads ident token stages chan of (tiers, chan) \<Rightarrow> (tier # tiers, chan))"

text \<open>The main function, after the arguments are parsed: the acknowledgement it reports, the tiers in the order of the
  stages, of which the last is the final one, and the channel it leaves.\<close>

definition golem_main ::
  "(u8 list \<Rightarrow> dict option) \<Rightarrow> int \<Rightarrow> pystr \<Rightarrow> pystr \<Rightarrow> int \<Rightarrow> Socket option \<Rightarrow> dict \<times> json list \<times> SentinelChannel" where
  "golem_main loads now ident tier heartbeat sock =
     (case demo_register loads now ident tier heartbeat (SentinelChannel_init sock) of (ack, chan) \<Rightarrow>
        let token = (case map_of ack (py ''token'') of None \<Rightarrow> JStr [] | Some t \<Rightarrow> t) in
        case run_stages loads ident token STAGES chan of (tiers, chan) \<Rightarrow> (ack, tiers, close chan))"

section \<open>The verdicts of the stages\<close>

lemma d64_at:
  assumes "pow2 k \<le> v" "v < pow2 (k + 1)" "- 1022 \<le> k"
    "\<bar>v / pow2 (k - 52) - of_int n\<bar> < 1 / 2 \<or> \<bar>v / pow2 (k - 52) - of_int n\<bar> = 1 / 2 \<and> even n"
    "w = of_int n * pow2 (k - 52)"
  shows "d64 v = w"
proof -
  have v: "0 < v" using assms(1) pow2_pos(1) [of k] by linarith
  then have "max (ilog2 \<bar>v\<bar> - 52) (- 1074) = k - 52" using ilog2_unique [OF v assms(1,2)] assms(3) by simp
  then show ?thesis using v round_even_at [OF assms(4)] assms(5) by (simp add: d64_def)
qed

lemma d64_signs [simp]: "d64 0 = 0" "d64 (- v) = - d64 v"
  by (simp_all add: d64_def Let_def)

lemma d64_literals:
  "d64 (9 / 10) = 8106479329266893 / 9007199254740992"
  "d64 (7 / 10) = 3152519739159347 / 4503599627370496"
  "d64 (2 / 5) = 3602879701896397 / 9007199254740992"
  "d64 (3 / 20) = 5404319552844595 / 36028797018963968"
  "d64 (3 / 5) = 5404319552844595 / 9007199254740992"
  "d64 (1 / 10) = 3602879701896397 / 36028797018963968"
  "d64 (1 / 2) = 1 / 2"
  "d64 (21 / 25) = 7566047373982433 / 9007199254740992"
  "d64 (1080863910568919 / 4503599627370496) = 1080863910568919 / 4503599627370496"
  "d64 (3602879701896397 / 9007199254740992) = 3602879701896397 / 9007199254740992"
  "d64 (2161727821137838 / 3602879701896397) = 5404319552844595 / 9007199254740992"
  "d64 (1 / 5) = 3602879701896397 / 18014398509481984"
  "d64 (3 / 10) = 5404319552844595 / 18014398509481984"
  "d64 (5404319552844595 / 9007199254740992) = 5404319552844595 / 9007199254740992"
  "d64 (4 / 5) = 3602879701896397 / 4503599627370496"
  "d64 (1801439850948199 / 9007199254740992) = 1801439850948199 / 9007199254740992"
  "d64 (1801439850948199 / 3602879701896397) = 4503599627370497 / 9007199254740992"
  apply (rule d64_at [of "-1" _ "8106479329266893"]; simp add: pow2_def)
  apply (rule d64_at [of "-1" _ "6305039478318694"]; simp add: pow2_def)
  apply (rule d64_at [of "-2" _ "7205759403792794"]; simp add: pow2_def)
  apply (rule d64_at [of "-3" _ "5404319552844595"]; simp add: pow2_def)
  apply (rule d64_at [of "-1" _ "5404319552844595"]; simp add: pow2_def)
  apply (rule d64_at [of "-4" _ "7205759403792794"]; simp add: pow2_def)
  apply (rule d64_at [of "-1" _ "4503599627370496"]; simp add: pow2_def)
  apply (rule d64_at [of "-1" _ "7566047373982433"]; simp add: pow2_def)
  apply (rule d64_at [of "-3" _ "8646911284551352"]; simp add: pow2_def)
  apply (rule d64_at [of "-2" _ "7205759403792794"]; simp add: pow2_def)
  apply (rule d64_at [of "-1" _ "5404319552844595"]; simp add: pow2_def)
  apply (rule d64_at [of "-3" _ "7205759403792794"]; simp add: pow2_def)
  apply (rule d64_at [of "-2" _ "5404319552844595"]; simp add: pow2_def)
  apply (rule d64_at [of "-1" _ "5404319552844595"]; simp add: pow2_def)
  apply (rule d64_at [of "-1" _ "7205759403792794"]; simp add: pow2_def)
  apply (rule d64_at [of "-3" _ "7205759403792796"]; simp add: pow2_def)
  apply (rule d64_at [of "-1" _ "4503599627370497"]; simp add: pow2_def)
  done

lemma d64_steps:
  "d64 (900719925474099 / 9007199254740992) = 900719925474099 / 9007199254740992"
  "d64 (900719925474099 / 4503599627370496) = 900719925474099 / 4503599627370496"
  "d64 (4503599627370497 / 9007199254740992) = 4503599627370497 / 9007199254740992"
  "d64 (6305039478318695 / 9007199254740992) = 6305039478318695 / 9007199254740992"
  "d64 (1351079888211149 / 4503599627370496) = 1351079888211149 / 4503599627370496"
  "d64 (2702159776422298 / 3602879701896397) = 6755399441055745 / 9007199254740992"
  "d64 (900719925474099 / 2251799813685248) = 900719925474099 / 2251799813685248"
  "d64 (3602879701896397 / 5404319552844595) = 3002399751580331 / 4503599627370496"
  "d64 (6755399441055745 / 9007199254740992) = 6755399441055745 / 9007199254740992"
  "d64 (10358279142952141 / 9007199254740992) = 2589569785738035 / 2251799813685248"
  "d64 (3602879701896395 / 9007199254740992) = 3602879701896395 / 9007199254740992"
  "d64 (1 / 9007199254740992) = 1 / 9007199254740992"
  "d64 (1745144855606067 / 1125899906842624) = 1745144855606067 / 1125899906842624"
  "d64 (9982979174004599 / 4503599627370496) = 1247872396750575 / 562949953421312"
  "d64 (750599937895083 / 1125899906842624) = 750599937895083 / 1125899906842624"
  "d64 (1 / 4503599627370496) = 1 / 4503599627370496"
  "d64 (19965958348009199 / 9007199254740992) = 1247872396750575 / 562949953421312"
  apply (rule d64_at [of "-4" _ "7205759403792792"]; simp add: pow2_def)
  apply (rule d64_at [of "-3" _ "7205759403792792"]; simp add: pow2_def)
  apply (rule d64_at [of "-1" _ "4503599627370497"]; simp add: pow2_def)
  apply (rule d64_at [of "-1" _ "6305039478318695"]; simp add: pow2_def)
  apply (rule d64_at [of "-2" _ "5404319552844596"]; simp add: pow2_def)
  apply (rule d64_at [of "-1" _ "6755399441055745"]; simp add: pow2_def)
  apply (rule d64_at [of "-2" _ "7205759403792792"]; simp add: pow2_def)
  apply (rule d64_at [of "-1" _ "6004799503160662"]; simp add: pow2_def)
  apply (rule d64_at [of "-1" _ "6755399441055745"]; simp add: pow2_def)
  apply (rule d64_at [of "0" _ "5179139571476070"]; simp add: pow2_def)
  apply (rule d64_at [of "-2" _ "7205759403792790"]; simp add: pow2_def)
  apply (rule d64_at [of "-53" _ "4503599627370496"]; simp add: pow2_def)
  apply (rule d64_at [of "0" _ "6980579422424268"]; simp add: pow2_def)
  apply (rule d64_at [of "1" _ "4991489587002300"]; simp add: pow2_def)
  apply (rule d64_at [of "-1" _ "6004799503160664"]; simp add: pow2_def)
  apply (rule d64_at [of "-52" _ "4503599627370496"]; simp add: pow2_def)
  apply (rule d64_at [of "1" _ "4991489587002300"]; simp add: pow2_def)
  done

lemmas d64_values = d64_literals d64_steps

lemma cs_add_zero: "cs_add (0, 0) 0 = (0, 0)" "d64 x = x \<Longrightarrow> cs_add (x, 0) 0 = (x, 0)" "d64 x = x \<Longrightarrow> cs_add (0, 0) x = (x, 0)"
  by (simp_all add: cs_add_def Let_def)

lemma py_sum_cons: "py_sum [a, b, c, d] = (case cs_add (cs_add (cs_add (cs_add (0, 0) a) b) c) d of (t, e) \<Rightarrow> if e = 0 then t else d64 (t + e))"
  by (simp add: py_sum_def Let_def split: prod.splits)

lemma py_combine_scores:
  "py_combine (scores_of a b c d) =
     min (py_sum [contribution (d64 a) (d64 (3 / 5)), contribution (d64 b) (d64 (1 / 2)), contribution (d64 c) (d64 (1 / 2)),
       contribution (d64 d) (d64 (2 / 5))]) 1"
  by (simp add: py_combine_def scores_of_def GATES_def)

lemma stage0_combine: "py_combine (sg_signals stage0) = 0"
  by (simp add: stage0_def py_combine_scores contribution_def d64_values py_sum_cons cs_add_zero)

lemma stage1_combine: "py_combine (sg_signals stage1) = 5404319552844595 / 9007199254740992"
  by (simp add: stage1_def py_combine_scores contribution_def d64_values py_sum_cons cs_add_zero)

lemma stage2_combine: "py_combine (sg_signals stage2) = 6305039478318695 / 9007199254740992"
  by (simp add: stage2_def py_combine_scores contribution_def d64_values py_sum_cons cs_add_zero) (simp add: cs_add_def Let_def d64_values)

lemma stage3_combine: "py_combine (sg_signals stage3) = 1"
  apply (simp add: stage3_def py_combine_scores contribution_def d64_values py_sum_cons cs_add_zero)
  apply (simp add: cs_add_def Let_def d64_values)
  done
text \<open>What the monitor of the kernel says of the same scores, as numbers of single precision.\<close>

definition kernel_verdict :: "rat \<Rightarrow> rat \<Rightarrow> rat \<Rightarrow> rat \<Rightarrow> ResponseTier" where
  "kernel_verdict a b c d =
     tier_for (combine (Fin False (rounded a)) (Fin False (rounded b)) (Fin False (rounded c)) (Fin False (rounded d)) default_config)
       default_config"

lemma kernel_verdict_value:
  assumes "0 \<le> a" "a \<le> 1" "0 \<le> b" "b \<le> 1" "0 \<le> c" "c \<le> 1" "0 \<le> d" "d \<le> 1"
  shows "kernel_verdict a b c d =
    (let t = total_value (contrib_value (rounded a) (5033165 / 8388608)) (contrib_value (rounded b) (1 / 2))
           (contrib_value (rounded c) (1 / 2)) (contrib_value (rounded d) (13421773 / 33554432))
     in if 7549747 / 8388608 \<le> t then Hard else if 11744051 / 16777216 \<le> t then Medium
        else if 13421773 / 33554432 \<le> t then Soft else TierNone)"
proof -
  have u: "in_unit (Fin False (rounded x))" if "0 \<le> x" "x \<le> 1" for x using rounded_unit [OF that] by (simp add: in_unit_def)
  note v = combine_value [OF default_config_ok u [OF assms(1,2)] u [OF assms(3,4)] u [OF assms(5,6)] u [OF assms(7,8)]]
  then show ?thesis by (simp add: kernel_verdict_def tier_for_def default_config_values fle_finite in_unit_def Let_def)
qed

lemma f32_literals:
  "rounded (9 / 10) = 7549747 / 8388608"
  "rounded (7 / 10) = 11744051 / 16777216"
  "rounded (2 / 5) = 13421773 / 33554432"
  "rounded (3 / 20) = 5033165 / 33554432"
  "rounded (3 / 5) = 5033165 / 8388608"
  "rounded (1 / 10) = 13421773 / 134217728"
  "rounded (1 / 2) = 1 / 2"
  "rounded (21 / 25) = 14092861 / 16777216"
  "rounded (4026531 / 16777216) = 4026531 / 16777216"
  "rounded (3355443 / 8388608) = 3355443 / 8388608"
  "rounded (1342177 / 2236962) = 1258291 / 2097152"
  "rounded (1 / 5) = 13421773 / 67108864"
  "rounded (3 / 10) = 5033165 / 16777216"
  "rounded (1258291 / 2097152) = 1258291 / 2097152"
  apply (rule rounded_at [of "-1" _ "15099494"]; simp add: pow2_def)
  apply (rule rounded_at [of "-1" _ "11744051"]; simp add: pow2_def)
  apply (rule rounded_at [of "-2" _ "13421773"]; simp add: pow2_def)
  apply (rule rounded_at [of "-3" _ "10066330"]; simp add: pow2_def)
  apply (rule rounded_at [of "-1" _ "10066330"]; simp add: pow2_def)
  apply (rule rounded_at [of "-4" _ "13421773"]; simp add: pow2_def)
  apply (rule rounded_at [of "-1" _ "8388608"]; simp add: pow2_def)
  apply (rule rounded_at [of "-1" _ "14092861"]; simp add: pow2_def)
  apply (rule rounded_at [of "-3" _ "16106124"]; simp add: pow2_def)
  apply (rule rounded_at [of "-2" _ "13421772"]; simp add: pow2_def)
  apply (rule rounded_at [of "-1" _ "10066328"]; simp add: pow2_def)
  apply (rule rounded_at [of "-3" _ "13421773"]; simp add: pow2_def)
  apply (rule rounded_at [of "-2" _ "10066330"]; simp add: pow2_def)
  apply (rule rounded_at [of "-1" _ "10066328"]; simp add: pow2_def)
  done

lemma f32_steps:
  "rounded (4 / 5) = 13421773 / 16777216"
  "rounded (3355443 / 16777216) = 3355443 / 16777216"
  "rounded (838861 / 8388608) = 838861 / 8388608"
  "rounded (838861 / 4194304) = 838861 / 4194304"
  "rounded (2936013 / 4194304) = 2936013 / 4194304"
  "rounded (1258291 / 4194304) = 1258291 / 4194304"
  "rounded (2516582 / 3355443) = 12582911 / 16777216"
  "rounded (13421773 / 33554432) = 13421773 / 33554432"
  "rounded (20132659 / 33554432) = 5033165 / 8388608"
  "rounded (13421773 / 20132660) = 5592405 / 8388608"
  "rounded (12582911 / 16777216) = 12582911 / 16777216"
  "rounded (19293797 / 16777216) = 4823449 / 4194304"
  "rounded (13002341 / 8388608) = 13002341 / 8388608"
  "rounded (9297373 / 4194304) = 9297373 / 4194304"
  apply (rule rounded_at [of "-1" _ "13421773"]; simp add: pow2_def)
  apply (rule rounded_at [of "-3" _ "13421772"]; simp add: pow2_def)
  apply (rule rounded_at [of "-4" _ "13421776"]; simp add: pow2_def)
  apply (rule rounded_at [of "-3" _ "13421776"]; simp add: pow2_def)
  apply (rule rounded_at [of "-1" _ "11744052"]; simp add: pow2_def)
  apply (rule rounded_at [of "-2" _ "10066328"]; simp add: pow2_def)
  apply (rule rounded_at [of "-1" _ "12582911"]; simp add: pow2_def)
  apply (rule rounded_at [of "-2" _ "13421773"]; simp add: pow2_def)
  apply (rule rounded_at [of "-1" _ "10066330"]; simp add: pow2_def)
  apply (rule rounded_at [of "-1" _ "11184810"]; simp add: pow2_def)
  apply (rule rounded_at [of "-1" _ "12582911"]; simp add: pow2_def)
  apply (rule rounded_at [of "0" _ "9646898"]; simp add: pow2_def)
  apply (rule rounded_at [of "0" _ "13002341"]; simp add: pow2_def)
  apply (rule rounded_at [of "1" _ "9297373"]; simp add: pow2_def)
  done

lemmas f32_values = f32_literals f32_steps

text \<open>The copy of the scoring gives each stage the tier that the kernel's monitor would give it.\<close>

lemma stage_verdicts:
  "map (\<lambda>s. py_tier_for (py_combine (sg_signals s))) STAGES = [''None'', ''Soft'', ''Medium'', ''Hard'']"
  "kernel_verdict (15 / 100) (10 / 100) (10 / 100) 0 = TierNone" "kernel_verdict (84 / 100) (20 / 100) (30 / 100) (10 / 100) = Soft"
  "kernel_verdict (80 / 100) (60 / 100) (40 / 100) (20 / 100) = Medium" "kernel_verdict (90 / 100) (70 / 100) (70 / 100) (80 / 100) = Hard"
  by (simp_all add: STAGES_def stage0_combine stage1_combine stage2_combine stage3_combine py_tier_for_def d64_values
      kernel_verdict_value contrib_value_def total_value_def f32_values)

text \<open>The digest of an output is the kernel's, with Python's notion of white space, which also has the separators 28 to 31.\<close>

lemma py_normalize_loop:
  "py_normalize prev_ws out s = out @ normalize_loop py_isspace (\<lambda>c. [py_lower c]) 32 prev_ws s"
  by (induction s arbitrary: prev_ws out) simp_all

lemma py_normalize_mirrors:
  "py_normalize_output_hash s =
     normalize_output_hash py_isspace (\<lambda>c. [py_lower c]) (\<lambda>cs. concat (map utf8_encode cs)) 32 s"
  by (simp add: py_normalize_output_hash_def normalize_output_hash_def py_normalize_loop)

lemma separators_differ: "py_isspace (of_char (CHR 0x1C))" "\<not> is_whitespace (CHR 0x1C)"
  by (simp_all add: py_isspace_def is_whitespace_def)

section \<open>On the wire\<close>

definition printable :: "char \<Rightarrow> bool" where
  "printable c \<longleftrightarrow> of_char c \<in> {32..<127 :: nat}"

lemma printable_Char [simp]:
  "printable (Char b0 b1 b2 b3 b4 b5 b6 b7) \<longleftrightarrow> of_char (Char b0 b1 b2 b3 b4 b5 b6 b7) \<in> {32..<127 :: nat}"
  by (simp only: printable_def)

lemma hex4_printable: "list_all printable (hex4 n)"
proof -
  have "printable (''0123456789abcdef'' ! (k mod 16))" for k :: nat
  proof -
    have "list_all printable ''0123456789abcdef''" by simp
    then show ?thesis unfolding list_all_iff by (rule bspec) (rule nth_mem, simp)
  qed
  then show ?thesis by (simp add: hex4_def)
qed

lemma escape_printable: "list_all printable (escape_char c)"
  using hex4_printable by (simp add: escape_char_def printable_def)

lemma dec_printable: "list_all printable (dec n)"
  by (fastforce simp: list_all_iff digit_char_def printable_def dest: dec_digits)

lemma dumps_str_printable: "list_all printable (dumps_str s)"
  using escape_printable by (induction s) (simp_all add: dumps_str_def)

lemma dumps_printable: "list_all printable (dumps j)" "list_all printable (dumps_rest kvs)"
proof (induction j and kvs rule: dumps_dumps_rest.induct)
  case (3 i)
  then show ?case by (simp add: dumps_int_def dec_printable)
qed (simp_all add: dumps_str_printable)

lemma printable_byte: "printable c \<Longrightarrow> of_nat (of_char c) \<le> (0x7F :: u8)" "printable c \<Longrightarrow> of_nat (of_char c) \<noteq> (10 :: u8)"
  by (simp_all add: printable_def word_le_nat_alt unat_of_nat word_eq_iff_unsigned [where 'a = nat])

lemma wire_ascii: "utf8_valid (wire obj)"
  using dumps_printable(1) [of "JObj obj"] printable_byte(1)
  by (intro utf8_valid_ascii) (auto simp: wire_def bytes_def list_all_iff)

lemma field_value_spaced:
  assumes "after_needle (needle_of (bytes key)) s = Some (COLON # 0x20 # QUOTE # r)"
  shows "field_value key s = read_string r"
  using assms by (simp add: field_value_def needle_of_def is_ascii_whitespace_def)

lemma bytes_simps [simp]: "bytes [] = []" "bytes (c # s) = of_nat (of_char c) # bytes s"
  by (simp_all add: bytes_def)

definition plain :: "pystr \<Rightarrow> bool" where
  "plain s \<longleftrightarrow> (\<forall>c \<in> set s. 32 \<le> c \<and> c < 127 \<and> c \<noteq> 34 \<and> c \<noteq> 92)"

definition ascii :: "pystr \<Rightarrow> u8 list" where
  "ascii s = map of_nat s"

lemma dumps_plain: "plain s \<Longrightarrow> bytes (dumps_str s) = QUOTE # ascii s @ [QUOTE]"
  by (induction s) (auto simp: plain_def dumps_str_def escape_char_def ascii_def bytes_def)

lemma ascii_plain:
  assumes "plain s"
  shows "QUOTE \<notin> set (ascii s)" "BACKSLASH \<notin> set (ascii s)" "10 \<notin> set (ascii s)" "utf8_valid (ascii s)" "length (ascii s) = length s"
proof -
  have "unat (of_nat c :: u8) = c" if "c \<in> set s" for c using assms that by (auto simp: plain_def unat_of_nat)
  then have b: "of_nat c \<noteq> (QUOTE :: u8) \<and> of_nat c \<noteq> BACKSLASH \<and> of_nat c \<noteq> (10 :: u8) \<and> of_nat c \<le> (0x7F :: u8)" if "c \<in> set s" for c
    using assms that by (auto simp: plain_def word_le_nat_alt word_eq_iff_unsigned [where 'a = nat])
  then show "QUOTE \<notin> set (ascii s)" "BACKSLASH \<notin> set (ascii s)" "10 \<notin> set (ascii s)" "length (ascii s) = length s" by (auto simp: ascii_def)
  show "utf8_valid (ascii s)" by (rule utf8_valid_ascii) (use b in \<open>auto simp: ascii_def\<close>)
qed

lemma py_plain: "plain (py ''method'')" "plain (py ''register'')" "plain (py ''observe'')" "plain (py ''agent_id'')"
  "plain (py ''permission_tier'')" "plain (py ''heartbeat_interval_secs'')" "plain (py (as_wire tier))"
  by (simp_all add: plain_def py_def) (cases tier; simp)

lemma ascii_py [simp]: "ascii (py s) = bytes s"
  by (simp add: ascii_def py_def bytes_def)

lemma observe_rejected: "parse_register_request (wire (observe_msg ident token stage text)) = Err MalformedRequest"
proof -
  let ?m = "observe_msg ident token stage text"
  obtain r where r: "wire ?m = [0x7B] @ QUOTE # bytes ''method'' @ QUOTE # COLON # 0x20 # QUOTE # bytes ''observe'' @ QUOTE # r"
    using dumps_plain [OF py_plain(1)] dumps_plain [OF py_plain(3)] by (simp add: wire_def observe_msg_def)
  have "after_needle (needle_of (bytes ''method'')) (wire ?m) = Some (COLON # 0x20 # QUOTE # bytes ''observe'' @ QUOTE # r)"
    unfolding r using after_needle_skip [of "[0x7B]"] after_needle_token [OF key_bytes(1,1)] by simp
  then have "field_value ''method'' (wire ?m) = Some (bytes ''observe'')"
    using field_value_spaced read_string_plain [OF ascii_plain(1,2) [OF py_plain(3)]] by simp
  then show ?thesis by (simp add: parse_register_request_def wire_ascii json_string_field_value [OF wire_ascii])
qed

definition register_tokens :: "u8 list \<Rightarrow> WireTier \<Rightarrow> int \<Rightarrow> u8 list list" where
  "register_tokens ident tier heartbeat =
     [[0x7B], bytes ''method'', [COLON, 0x20], bytes ''register'', [0x2C, 0x20], bytes ''agent_id'', [COLON, 0x20], ident, [0x2C, 0x20],
      bytes ''permission_tier'', [COLON, 0x20], bytes (as_wire tier), [0x2C, 0x20], bytes ''heartbeat_interval_secs'',
      [COLON, 0x20] @ bytes (dumps_int heartbeat @ ''}'' @ nl)]"

lemma register_wire:
  assumes "plain ident"
  shows "wire (register_request ident (py (as_wire tier)) heartbeat) = tokens (register_tokens (ascii ident) tier heartbeat)"
  using assms dumps_plain [OF assms] dumps_plain [OF py_plain(1)] dumps_plain [OF py_plain(2)] dumps_plain [OF py_plain(4)]
    dumps_plain [OF py_plain(5)] dumps_plain [OF py_plain(6)] dumps_plain [OF py_plain(7)]
  by (simp add: wire_def register_request_def register_tokens_def)

lemma dumps_int_quoteless: "QUOTE \<notin> set (bytes (dumps_int i))"
proof -
  have "of_nat (of_char c) \<noteq> (QUOTE :: u8)" if "digit_char c" for c
    using that by (auto simp: digit_char_def word_eq_iff_unsigned [where 'a = nat] unat_of_nat)
  then have "QUOTE \<notin> set (bytes (dec n))" for n using dec_digits [of _ n] by (auto simp: bytes_def)
  then show ?thesis by (simp add: dumps_int_def)
qed

lemma pair_bytes [simp]: "length k \<noteq> 2 \<Longrightarrow> [a, b] \<noteq> bytes k"
  by (auto simp: bytes_def dest: arg_cong [of _ _ length])

lemma register_fields:
  assumes ident: "plain ident" and s: "s = wire (register_request ident (py (as_wire tier)) heartbeat)"
  shows "field_value ''method'' s = Some (bytes ''register'')" "field_value ''agent_id'' s = Some (ascii ident)"
    "ascii ident \<noteq> bytes ''permission_tier'' \<Longrightarrow> field_value ''permission_tier'' s = Some (bytes (as_wire tier))"
proof -
  let ?ts = "register_tokens (ascii ident) tier heartbeat"
  note id = ascii_plain [OF ident]
  have q: "\<forall>t \<in> set ?ts. QUOTE \<notin> set t"
    using id key_bytes dumps_int_quoteless ascii_plain(1) [OF py_plain(6)] by (simp add: register_tokens_def)
  have find: "after_needle (needle_of k) s = find_token k (tl ?ts)" if "QUOTE \<notin> set k" for k
    using after_needle_tokens [OF that, of "hd ?ts" "?ts ! 1" "drop 2 ?ts"] q register_wire [OF ident] s
    by (simp add: register_tokens_def)
  note r = read_string_plain [OF id(1,2)] read_string_plain [OF key_bytes(4,7)] read_string_plain [OF key_bytes(5,6)]
  show "field_value ''method'' s = Some (bytes ''register'')"
    by (rule trans [OF field_value_spaced], simp add: find key_bytes register_tokens_def del: bytes_simps, simp add: r del: bytes_simps)
  show "field_value ''agent_id'' s = Some (ascii ident)"
    by (rule trans [OF field_value_spaced], simp add: find key_bytes register_tokens_def del: bytes_simps, simp add: r del: bytes_simps)
  show "field_value ''permission_tier'' s = Some (bytes (as_wire tier))" if ne: "ascii ident \<noteq> bytes ''permission_tier''"
    by (rule trans [OF field_value_spaced], simp add: find key_bytes register_tokens_def ne del: bytes_simps, simp add: r del: bytes_simps)
qed

lemma register_accepted:
  assumes "plain ident" "length ident \<le> 128" "ident \<noteq> py ''permission_tier''"
  shows "\<exists>req. parse_register_request (wire (register_request ident (py (as_wire tier)) heartbeat)) = Ok req \<and>
    request_agent_id req = ascii ident \<and> rr_permission_tier req = tier"
proof -
  have "ident = py s" if "ascii ident = bytes s" for s
  proof -
    have "inj_on (of_nat :: nat \<Rightarrow> u8) {..<256}"
      by (rule inj_onI) (simp add: word_eq_iff_unsigned [where 'a = nat] unat_of_nat)
    moreover have "set ident \<union> set (py s) \<subseteq> {..<256}" using assms(1) by (auto simp: plain_def py_def)
    ultimately have "inj_on (of_nat :: nat \<Rightarrow> u8) (set ident \<union> set (py s))" by (rule inj_on_subset)
    moreover have "map of_nat ident = map (of_nat :: nat \<Rightarrow> u8) (py s)" using that by (simp add: ascii_def bytes_def py_def)
    ultimately show ?thesis using map_inj_on by blast
  qed
  then have ne: "ascii ident \<noteq> bytes ''permission_tier''" using assms(3) by blast
  let ?s = "wire (register_request ident (py (as_wire tier)) heartbeat)"
  note f = register_fields [OF assms(1) refl, of tier heartbeat]
  obtain req where req: "parse_register_request ?s = Ok req" "rr_permission_tier req = tier"
    using assms(2) ne ascii_plain(5) [OF assms(1)]
    by (simp add: parse_register_request_def wire_ascii json_string_field_value [OF wire_ascii] f MAX_AGENT_ID_def)
  then show ?thesis using parse_ok(2) [OF req(1)] f(2) by simp
qed


section \<open>A channel without line ends\<close>

lemma hex16_no_newline: "10 \<notin> set (hex16 v)"
proof -
  have d: "\<forall>b \<in> set (bytes ''0123456789abcdef''). b \<noteq> 10" by simp
  have "bytes ''0123456789abcdef'' ! k \<noteq> 10" if "k < 16" for k
    by (rule bspec [OF d]) (rule nth_mem, use that in simp)
  moreover have "unat (w AND 0xF) < 16" for w :: u64
    using word_and_le1 [of w "0xF"] by (simp add: word_le_nat_alt and.commute)
  ultimately show ?thesis by (auto simp: hex16_def simp del: bytes_simps)
qed

lemma timestamp_no_newline: "10 \<notin> set (timestamp_text c)"
proof -
  have "of_nat (of_char c) \<noteq> (10 :: u8)" if "digit_char c" for c
    using that by (auto simp: digit_char_def word_eq_iff_unsigned [where 'a = nat] unat_of_nat)
  then have "10 \<notin> set (bytes (dec n))" for n using dec_digits [of _ n] by (auto simp: bytes_def)
  then show ?thesis by (simp add: timestamp_text_def)
qed

lemma response_no_newline: "10 \<notin> set (request_agent_id req) \<Longrightarrow> 10 \<notin> set (response_text req counter)"
  using hex16_no_newline timestamp_no_newline by (simp add: response_text_def)

fun chunk :: "Recv \<Rightarrow> u8 list" where
  "chunk (Chunk c) = c"
| "chunk Raises = []"

definition mute :: "SentinelChannel \<Rightarrow> bool" where
  "mute chan \<longleftrightarrow> 10 \<notin> set (da_buf chan) \<and> (\<forall>s. da_sock chan = Some s \<longrightarrow> 10 \<notin> set (concat (map chunk (sk_reads s))))"

lemma fill_buf_mute:
  assumes "10 \<notin> set buf" "10 \<notin> set (concat (map chunk rs))" "fill_buf rs buf = (fill, rs', buf')"
  shows "fill \<noteq> HaveLine" "10 \<notin> set buf'" "10 \<notin> set (concat (map chunk rs'))"
  using assms
proof (induction rs buf rule: fill_buf.induct)
  case (2 r rs buf)
  {
    case 1
    then show ?case using 2 by (cases r) (auto split: if_splits)
  next
    case 2
    then show ?case using "2.IH" by (cases r) (auto split: if_splits)
  next
    case 3
    then show ?case using "2.IH" by (cases r) (auto split: if_splits)
  }
qed auto

lemma send_fields:
  "da_buf (send_json obj chan) = da_buf chan" "map_option sk_reads (da_sock (send_json obj chan)) = map_option sk_reads (da_sock chan)"
  by (simp_all add: send_json_def split: option.split)

lemma mute_reads: "mute chan \<longleftrightarrow> 10 \<notin> set (da_buf chan) \<and>
    (\<forall>rs. map_option sk_reads (da_sock chan) = Some rs \<longrightarrow> 10 \<notin> set (concat (map chunk rs)))"
  by (auto simp: mute_def simp del: set_concat)

lemma send_mute: "mute chan \<Longrightarrow> mute (send_json obj chan)"
  unfolding mute_reads send_fields .

lemma recv_mute:
  assumes "mute chan"
  obtains chan' where "recv_json loads chan = (None, chan')" "mute chan'"
proof (cases "da_sock chan")
  case None
  then show thesis using that assms by (simp add: recv_json_def)
next
  case (Some s)
  obtain fill rs buf where f: "fill_buf (sk_reads s) (da_buf chan) = (fill, rs, buf)" by (cases "fill_buf (sk_reads s) (da_buf chan)") auto
  have c: "10 \<notin> set (da_buf chan)" "10 \<notin> set (concat (map chunk (sk_reads s)))" using assms Some unfolding mute_def by blast+
  note m = fill_buf_mute [OF c f]
  then have "mute (chan\<lparr> da_sock := Some (s\<lparr> sk_reads := rs \<rparr>), da_buf := buf \<rparr>)"
    "mute (chan\<lparr> da_sock := Some (s\<lparr> sk_reads := rs \<rparr>), da_buf := buf, da_live := False \<rparr>)" by (simp_all add: mute_def del: set_concat)
  then show thesis using that m(1) Some f by (cases fill) (simp_all add: recv_json_def)
qed

lemma observe_mute:
  assumes "mute chan"
  obtains chan' where "observe_all loads ident token stage texts None chan = (None, chan')" "mute chan'"
proof -
  have "\<exists>chan'. observe_all loads ident token stage texts None chan = (None, chan') \<and> mute chan'" using assms
  proof (induction texts arbitrary: chan)
    case (Cons t ts)
    obtain chan' where "recv_json loads (send_json (observe_msg ident token stage t) chan) = (None, chan')" "mute chan'"
      by (rule recv_mute [OF send_mute [OF Cons.prems]])
    then show ?case using Cons.IH by simp
  qed simp
  then show thesis using that by blast
qed

lemma stages_mute:
  assumes "mute chan"
  shows "fst (run_stages loads ident token stages chan) = map (\<lambda>s. JStr (py (py_tier_for (py_combine (sg_signals s))))) stages"
  using assms
proof (induction stages arbitrary: chan)
  case (Cons stage stages)
  obtain chan' where "observe_all loads ident token stage (sg_outputs stage) None chan = (None, chan')" "mute chan'"
    by (rule observe_mute [OF Cons.prems])
  then show ?case using Cons.IH [of chan'] by (cases "run_stages loads ident token stages chan'") (simp add: run_stage_def)
qed simp

lemma main_mute:
  assumes "mute (SentinelChannel_init sock)"
  shows "fst (golem_main loads now ident tier heartbeat sock) = fst (golem_main loads now ident tier heartbeat None)"
    "fst (snd (golem_main loads now ident tier heartbeat sock)) = map (\<lambda>s. JStr (py s)) [''None'', ''Soft'', ''Medium'', ''Hard'']"
proof -
  have r: "\<exists>ack chan. demo_register loads now ident tier heartbeat (SentinelChannel_init sock) = (ack, chan) \<and> mute chan \<and>
      ack = fst (demo_register loads now ident tier heartbeat (SentinelChannel_init None))"
  proof -
    obtain chan where "recv_json loads (send_json (register_request ident tier heartbeat) (SentinelChannel_init sock)) = (None, chan)" "mute chan"
      by (rule recv_mute [OF send_mute [OF assms]])
    moreover have "recv_json loads (send_json (register_request ident tier heartbeat) (SentinelChannel_init None)) = (None, SentinelChannel_init None)"
      by (simp add: recv_json_def send_json_def SentinelChannel_init_def)
    ultimately show ?thesis by (simp add: demo_register_def Let_def)
  qed
  then obtain ack chan where a: "demo_register loads now ident tier heartbeat (SentinelChannel_init sock) = (ack, chan)" "mute chan"
    "ack = fst (demo_register loads now ident tier heartbeat (SentinelChannel_init None))" by blast
  show "fst (golem_main loads now ident tier heartbeat sock) = fst (golem_main loads now ident tier heartbeat None)"
    using a by (simp add: golem_main_def Let_def split: prod.splits)
  have "map (\<lambda>s. JStr (py (py_tier_for (py_combine (sg_signals s))))) STAGES = map (\<lambda>s. JStr (py s)) [''None'', ''Soft'', ''Medium'', ''Hard'']"
    using stage_verdicts(1) by (metis (no_types, lifting) list.map_comp comp_def map_eq_conv)
  then show "fst (snd (golem_main loads now ident tier heartbeat sock)) = map (\<lambda>s. JStr (py s)) [''None'', ''Soft'', ''Medium'', ''Hard'']"
    using a(1) stages_mute [OF a(2), of loads ident _ STAGES] by (simp add: golem_main_def Let_def case_prod_beta)
qed

section \<open>Properties\<close>



end
